(* ===== verification/Prelude.thy ===== *)
theory Prelude
  imports Main "HOL-Library.Word" "HOL-Library.Sublist" "HOL-Library.Char_ord" "HOL-Library.List_Lexorder"
begin

text \<open>
  The vocabulary every component of the development shares: the JavaScript string and array
  operations the sources call, errors as values, and state-passing actions that may throw.

  A JavaScript string is modelled as a list of characters, one per UTF-16 code unit, over the
  code units U+0000 to U+00FF that the type \<open>char\<close> holds; \<open>length\<close> and indexes therefore count
  code units exactly as the source does. Byte arrays are lists of 8-bit words.
\<close>

section \<open>Errors and actions\<close>

text \<open>The codes of \<open>StorageError\<close> and, as \<open>JsError\<close>, every other exception the code throws.\<close>

datatype storage_code =
    Invalid_path | Not_found | Already_exists | Not_empty | Is_directory
  | Not_directory | Unsupported | Locked | Quota

datatype js_error = StorageError storage_code | JsError string

type_synonym 'a res = "js_error + 'a"

text \<open>
  An asynchronous method that reads and writes a state: it returns or throws, and hands on the
  state either way, because a throw does not undo what was written before it.
\<close>

type_synonym ('s, 'a) act = "'s \<Rightarrow> 'a res \<times> 's"

named_theorems act_simps "the unfolding of actions into state passing"

definition res_bind :: "'a res \<Rightarrow> ('a \<Rightarrow> 'b res) \<Rightarrow> 'b res" where
  "res_bind r f = (case r of Inl e \<Rightarrow> Inl e | Inr x \<Rightarrow> f x)"

definition aret :: "'a \<Rightarrow> ('s, 'a) act" where
  "aret x = (\<lambda>s. (Inr x, s))"

definition athrow :: "js_error \<Rightarrow> ('s, 'a) act" where
  "athrow e = (\<lambda>s. (Inl e, s))"

definition abind :: "('s, 'a) act \<Rightarrow> ('a \<Rightarrow> ('s, 'b) act) \<Rightarrow> ('s, 'b) act" where
  "abind m k = (\<lambda>s. case m s of (r, s') \<Rightarrow> (case r of Inl e \<Rightarrow> (Inl e, s') | Inr x \<Rightarrow> k x s'))"

definition athen :: "('s, unit) act \<Rightarrow> ('s, 'b) act \<Rightarrow> ('s, 'b) act" where
  "athen m k = abind m (\<lambda>_. k)"

definition acatch :: "('s, 'a) act \<Rightarrow> (js_error \<Rightarrow> ('s, 'a) act) \<Rightarrow> ('s, 'a) act" where
  "acatch m h = (\<lambda>s. case m s of (r, s') \<Rightarrow> (case r of Inl e \<Rightarrow> h e s' | Inr x \<Rightarrow> (Inr x, s')))"

definition alift :: "'a res \<Rightarrow> ('s, 'a) act" where
  "alift r = (\<lambda>s. (r, s))"

definition aread :: "('s \<Rightarrow> 'a) \<Rightarrow> ('s, 'a) act" where
  "aread f = (\<lambda>s. (Inr (f s), s))"

definition amodify :: "('s \<Rightarrow> 's) \<Rightarrow> ('s, unit) act" where
  "amodify f = (\<lambda>s. (Inr (), f s))"

fun afor :: "('a \<Rightarrow> ('s, unit) act) \<Rightarrow> 'a list \<Rightarrow> ('s, unit) act" where
  "afor f [] = aret ()"
| "afor f (x # xs) = athen (f x) (afor f xs)"

lemmas act_defs = aret_def athrow_def abind_def athen_def acatch_def alift_def aread_def amodify_def

lemma res_bind_simps [simp]:
  "res_bind (Inl e) f = Inl e" "res_bind (Inr x) f = f x"
  by (simp_all add: res_bind_def)

lemma abind_apply [act_simps]:
  "abind m k s = (case m s of (Inl e, s') \<Rightarrow> (Inl e, s') | (Inr x, s') \<Rightarrow> k x s')"
  by (simp add: abind_def split: prod.split sum.split)

lemma athen_apply [act_simps]:
  "athen m k s = (case m s of (Inl e, s') \<Rightarrow> (Inl e, s') | (Inr _, s') \<Rightarrow> k s')"
  by (simp add: athen_def abind_apply)

lemma acatch_apply [act_simps]:
  "acatch m h s = (case m s of (Inl e, s') \<Rightarrow> h e s' | (Inr x, s') \<Rightarrow> (Inr x, s'))"
  by (simp add: acatch_def split: prod.split sum.split)

lemma act_basic_apply [act_simps]:
  "aret x s = (Inr x, s)" "athrow e s = (Inl e, s)" "alift r s = (r, s)"
  "aread f s = (Inr (f s), s)" "amodify g s = (Inr (), g s)"
  by (simp_all add: act_defs)

text \<open>The same steps when the outcome of the first action is known.\<close>

lemma abind_Inr: "m s = (Inr x, s') \<Longrightarrow> abind m k s = k x s'"
  by (simp add: abind_apply)

lemma abind_Inl: "m s = (Inl e, s') \<Longrightarrow> abind m k s = (Inl e, s')"
  by (simp add: abind_apply)

lemma athen_Inr: "m s = (Inr (), s') \<Longrightarrow> athen m k s = k s'"
  by (simp add: athen_apply)

lemma athen_Inl: "m s = (Inl e, s') \<Longrightarrow> athen m k s = (Inl e, s')"
  by (simp add: athen_apply)

lemma acatch_Inr: "m s = (Inr x, s') \<Longrightarrow> acatch m h s = (Inr x, s')"
  by (simp add: acatch_apply)

lemma acatch_Inl: "m s = (Inl e, s') \<Longrightarrow> acatch m h s = h e s'"
  by (simp add: acatch_apply)

lemma abind_InrE:
  assumes "abind m k s = (Inr y, t)"
  obtains x s' where "m s = (Inr x, s')" "k x s' = (Inr y, t)"
  using assms by (auto simp: abind_apply split: prod.splits sum.splits)

lemma athen_InrE:
  assumes "athen m k s = (Inr y, t)"
  obtains s' where "m s = (Inr (), s')" "k s' = (Inr y, t)"
  using assms by (auto simp: athen_apply split: prod.splits sum.splits)

section \<open>Strings and arrays\<close>

text \<open>\<open>s.split(c)\<close> and \<open>parts.join(c)\<close> for a one-character separator.\<close>

fun split_on :: "'a \<Rightarrow> 'a list \<Rightarrow> 'a list list" where
  "split_on c [] = [[]]"
| "split_on c (x # xs) =
     (if x = c then [] # split_on c xs
      else case split_on c xs of [] \<Rightarrow> [[x]] | w # ws \<Rightarrow> (x # w) # ws)"

fun join_with :: "'a list \<Rightarrow> 'a list list \<Rightarrow> 'a list" where
  "join_with sep [] = []"
| "join_with sep [w] = w"
| "join_with sep (w # ws) = w @ sep @ join_with sep ws"

lemma split_on_not_Nil [simp]: "split_on c xs \<noteq> []"
  by (cases xs) (auto split: list.splits)

lemma join_with_Cons: "join_with sep (w # ws) = (if ws = [] then w else w @ sep @ join_with sep ws)"
  by (cases ws) auto

lemma join_split [simp]: "join_with [c] (split_on c xs) = xs"
proof (induction xs)
  case Nil
  then show ?case by simp
next
  case (Cons x xs)
  obtain w ws where s: "split_on c xs = w # ws" by (cases "split_on c xs") auto
  with Cons show ?case by (cases ws) auto
qed

lemma split_on_no_sep [simp]: "c \<notin> set w \<Longrightarrow> split_on c w = [w]"
  by (induction w) auto

lemma split_on_append_sep: "c \<notin> set w \<Longrightarrow> split_on c (w @ c # xs) = w # split_on c xs"
  by (induction w) auto

lemma split_join:
  "ws \<noteq> [] \<Longrightarrow> \<forall>w \<in> set ws. c \<notin> set w \<Longrightarrow> split_on c (join_with [c] ws) = ws"
proof (induction ws)
  case Nil
  then show ?case by simp
next
  case (Cons w ws)
  then show ?case by (cases "ws = []") (simp_all add: join_with_Cons split_on_append_sep)
qed

lemma split_on_append: "split_on c (xs @ c # ys) = split_on c xs @ split_on c ys"
proof (induction xs)
  case (Cons x xs)
  then show ?case by (cases "split_on c xs") auto
qed simp

lemma split_on_pieces: "w \<in> set (split_on c xs) \<Longrightarrow> c \<notin> set w"
proof (induction xs arbitrary: w)
  case Nil
  then show ?case by simp
next
  case (Cons x xs)
  then show ?case by (cases "split_on c xs") (auto split: if_splits)
qed

lemma sep_prefix:
  "c \<notin> set x \<Longrightarrow> c \<notin> set y \<Longrightarrow> prefix (x @ c # u) (y @ c # v) \<longleftrightarrow> x = y \<and> prefix u v"
proof (induction x arbitrary: y)
  case Nil
  then show ?case by (cases y) auto
next
  case (Cons a x)
  then show ?case by (cases y) auto
qed

text \<open>\<open>s.lastIndexOf(c)\<close> and \<open>s.indexOf(c)\<close>; \<open>None\<close> is the source's \<open>-1\<close>.\<close>

fun last_index_of :: "'a \<Rightarrow> 'a list \<Rightarrow> nat option" where
  "last_index_of c [] = None"
| "last_index_of c (x # xs) =
     (case last_index_of c xs of Some i \<Rightarrow> Some (Suc i) | None \<Rightarrow> if x = c then Some 0 else None)"

fun index_of :: "'a \<Rightarrow> 'a list \<Rightarrow> nat option" where
  "index_of c [] = None"
| "index_of c (x # xs) = (if x = c then Some 0 else map_option Suc (index_of c xs))"

lemma last_index_of_None [simp]: "last_index_of c xs = None \<longleftrightarrow> c \<notin> set xs"
  by (induction xs) (auto split: option.splits)

lemma last_index_of_absent [simp]: "c \<notin> set xs \<Longrightarrow> last_index_of c xs = None"
  by simp

lemma last_index_of_append_sep:
  "c \<notin> set w \<Longrightarrow> last_index_of c (xs @ c # w) = Some (length xs)"
  by (induction xs) simp_all

lemma last_index_of_SomeD:
  "last_index_of c xs = Some i \<Longrightarrow> i < length xs \<and> xs ! i = c \<and> c \<notin> set (drop (Suc i) xs)"
  by (induction xs arbitrary: i) (auto split: option.splits if_splits)

lemma index_of_None [simp]: "index_of c xs = None \<longleftrightarrow> c \<notin> set xs"
  by (induction xs) auto

lemma index_of_absent [simp]: "c \<notin> set xs \<Longrightarrow> index_of c xs = None"
  by simp

lemma index_of_SomeD:
  "index_of c xs = Some i \<Longrightarrow> i < length xs \<and> xs ! i = c \<and> c \<notin> set (take i xs)"
  by (induction xs arbitrary: i) (auto split: if_splits)

text \<open>\<open>s.startsWith(p)\<close> and \<open>s.endsWith(p)\<close>.\<close>

abbreviation starts_with :: "'a list \<Rightarrow> 'a list \<Rightarrow> bool" where
  "starts_with s p \<equiv> prefix p s"

abbreviation ends_with :: "'a list \<Rightarrow> 'a list \<Rightarrow> bool" where
  "ends_with s p \<equiv> suffix p s"

text \<open>
  \<open>toLowerCase\<close>, \<open>\s\<close> and \<open>trim\<close> over U+0000..U+00FF: the upper-case letters there are A-Z and
  U+00C0..U+00DE without the multiplication sign U+00D7, each 32 below its lower-case form.
\<close>

definition lower_char :: "char \<Rightarrow> char" where
  "lower_char c =
     (let n = (of_char c :: nat) in
      if 65 \<le> n \<and> n \<le> 90 \<or> 192 \<le> n \<and> n \<le> 222 \<and> n \<noteq> 215 then char_of (n + 32) else c)"

definition lower :: "string \<Rightarrow> string" where
  "lower s = map lower_char s"

lemma length_lower [simp]: "length (lower s) = length s"
  by (simp add: lower_def)

lemma lower_Nil [simp]: "lower s = [] \<longleftrightarrow> s = []"
  by (simp add: lower_def)

lemma nth_lower [simp]: "i < length s \<Longrightarrow> lower s ! i = lower_char (s ! i)"
  by (simp add: lower_def)

text \<open>\<open>c >= lo && c <= hi\<close> for one-character strings.\<close>

definition char_between :: "char \<Rightarrow> char \<Rightarrow> char \<Rightarrow> bool" where
  "char_between lo hi c = (lo \<le> c \<and> c \<le> hi)"

lemma char_between_code [simp]: "char_between lo hi c \<longleftrightarrow> (of_char lo :: nat) \<le> of_char c \<and> (of_char c :: nat) \<le> of_char hi"
  by (simp add: char_between_def less_eq_char_def)

definition is_space :: "char \<Rightarrow> bool" where
  "is_space c = (let n = (of_char c :: nat) in 9 \<le> n \<and> n \<le> 13 \<or> n = 32 \<or> n = 160)"

definition trim :: "string \<Rightarrow> string" where
  "trim s = rev (dropWhile is_space (rev (dropWhile is_space s)))"

text \<open>Decimal and hexadecimal rendering, and \<open>padStart\<close>.\<close>

definition digit_char :: "nat \<Rightarrow> char" where
  "digit_char d = (if d < 10 then char_of (48 + d) else char_of (87 + d))"

fun show_base :: "nat \<Rightarrow> nat \<Rightarrow> string" where
  "show_base b n =
     (if b < 2 \<or> n < b then [digit_char n] else show_base b (n div b) @ [digit_char (n mod b)])"

declare show_base.simps [simp del]

abbreviation show_nat :: "nat \<Rightarrow> string" where
  "show_nat n \<equiv> show_base 10 n"

abbreviation show_hex :: "nat \<Rightarrow> string" where
  "show_hex n \<equiv> show_base 16 n"

definition pad_start :: "nat \<Rightarrow> char \<Rightarrow> string \<Rightarrow> string" where
  "pad_start n c s = replicate (n - length s) c @ s"

lemma show_base_small [simp]: "n < b \<Longrightarrow> show_base b n = [digit_char n]"
  by (subst show_base.simps) simp

lemma show_base_step: "2 \<le> b \<Longrightarrow> b \<le> n \<Longrightarrow> show_base b n = show_base b (n div b) @ [digit_char (n mod b)]"
  by (subst show_base.simps) simp

lemma show_base_length:
  "2 \<le> b \<Longrightarrow> n < b ^ Suc k \<Longrightarrow> length (show_base b n) \<le> Suc k"
proof (induction k arbitrary: n)
  case 0
  then show ?case by simp
next
  case (Suc k)
  show ?case
  proof (cases "n < b")
    case True
    then show ?thesis by simp
  next
    case False
    have "n div b < b ^ Suc k"
      using Suc.prems(2) by (simp add: less_mult_imp_div_less mult.commute)
    then have "length (show_base b (n div b)) \<le> Suc k"
      using Suc.IH Suc.prems(1) by blast
    then show ?thesis using show_base_step [of b n] Suc.prems(1) False by simp
  qed
qed

lemma show_base_chars:
  assumes "2 \<le> b"
  shows "c \<in> set (show_base b n) \<Longrightarrow> \<exists>d < b. c = digit_char d"
proof (induction n rule: less_induct)
  case (less n)
  show ?case
  proof (cases "n < b")
    case True
    with less.prems show ?thesis by auto
  next
    case False
    then have "c \<in> set (show_base b (n div b)) \<or> c = digit_char (n mod b)"
      using less.prems show_base_step [of b n] assms by auto
    moreover have "n mod b < b" "n div b < n" using assms False by auto
    ultimately show ?thesis using less.IH by blast
  qed
qed

lemma length_pad_start: "length s \<le> n \<Longrightarrow> length (pad_start n c s) = n"
  by (simp add: pad_start_def)

text \<open>A callback that throws makes the whole \<open>filter\<close> throw.\<close>

fun filter_res :: "('a \<Rightarrow> bool res) \<Rightarrow> 'a list \<Rightarrow> 'a list res" where
  "filter_res p [] = Inr []"
| "filter_res p (x # xs) =
     res_bind (p x) (\<lambda>b. res_bind (filter_res p xs) (\<lambda>ys. Inr (if b then x # ys else ys)))"

lemma filter_res_total: "(\<And>x. x \<in> set xs \<Longrightarrow> p x = Inr (q x)) \<Longrightarrow> filter_res p xs = Inr (filter q xs)"
  by (induction xs) auto

fun map_res :: "('a \<Rightarrow> 'b res) \<Rightarrow> 'a list \<Rightarrow> 'b list res" where
  "map_res f [] = Inr []"
| "map_res f (x # xs) = res_bind (f x) (\<lambda>y. res_bind (map_res f xs) (\<lambda>ys. Inr (y # ys)))"

lemma map_res_total: "(\<And>x. x \<in> set xs \<Longrightarrow> f x = Inr (g x)) \<Longrightarrow> map_res f xs = Inr (map g xs)"
  by (induction xs) auto

text \<open>Loops that count down, \<open>for (let k = n - 1; k >= 0; k--)\<close>: an invariant carried from \<open>n\<close> to \<open>0\<close>.\<close>

lemma fold_down_inv:
  assumes "\<And>k st. k < n \<Longrightarrow> P (Suc k) st \<Longrightarrow> P k (f k st)"
  shows "P n st \<Longrightarrow> P 0 (fold f (rev [0..<n]) st)"
  using assms
proof (induction n arbitrary: st)
  case 0
  then show ?case by simp
next
  case (Suc n)
  have "P n (f n st)" using Suc.prems by simp
  then have "P 0 (fold f (rev [0..<n]) (f n st))"
    using Suc.IH Suc.prems(2) by simp
  then show ?case by simp
qed

text \<open>Loops that count up.\<close>

lemma fold_up_inv:
  assumes "\<And>k st. k < n \<Longrightarrow> P k st \<Longrightarrow> P (Suc k) (f k st)"
  shows "P 0 st \<Longrightarrow> P n (fold f [0..<n] st)"
  using assms by (induction n) simp_all

text \<open>Cells of a flat two-dimensional array.\<close>

lemma flat_index_eq:
  "j < w \<Longrightarrow> j' < w \<Longrightarrow> i * w + j = i' * w + j' \<longleftrightarrow> i = i' \<and> j = (j' :: nat)"
  by (metis add.commute add_right_cancel div_mult_self3 div_less add_0 gr_implies_not0)

lemma flat_index_less:
  assumes "i < n" "j < w"
  shows "i * w + j < n * (w :: nat)"
proof -
  have "i * w + j < Suc i * w" using assms by simp
  also have "\<dots> \<le> n * w" using assms by (intro mult_le_mono1) simp
  finally show ?thesis .
qed


text \<open>
  A loop \<open>while (used(i)) i++\<close>, with fuel: it looks at no more than \<open>fuel\<close> numbers. With more fuel
  than there are used numbers it finds the first unused one.
\<close>

fun first_free :: "nat \<Rightarrow> (nat \<Rightarrow> bool) \<Rightarrow> nat \<Rightarrow> nat option" where
  "first_free 0 used i = None"
| "first_free (Suc fuel) used i = (if used i then first_free fuel used (Suc i) else Some i)"

lemma first_free_Some:
  "first_free fuel used i = Some j \<Longrightarrow> i \<le> j \<and> \<not> used j \<and> (\<forall>k. i \<le> k \<and> k < j \<longrightarrow> used k)"
proof (induction fuel arbitrary: i)
  case (Suc fuel)
  show ?case
  proof (cases "used i")
    case True
    then have IH: "Suc i \<le> j \<and> \<not> used j \<and> (\<forall>k. Suc i \<le> k \<and> k < j \<longrightarrow> used k)"
      using Suc by simp
    moreover have "used k" if "i \<le> k" "k < j" for k
      using True IH that by (cases "k = i") auto
    ultimately show ?thesis by simp
  next
    case False
    then show ?thesis using Suc.prems by auto
  qed
qed simp

lemma first_free_None: "first_free fuel used i = None \<Longrightarrow> k < fuel \<Longrightarrow> used (i + k)"
proof (induction fuel arbitrary: i k)
  case (Suc fuel)
  then have "used i" "first_free fuel used (Suc i) = None" by (auto split: if_splits)
  then show ?case using Suc.IH [of "Suc i" "k - 1"] Suc.prems(2) by (cases k) auto
qed simp

lemma first_free_total:
  assumes "finite {j. used j}" "card {j. used j} < fuel"
  shows "first_free fuel used i \<noteq> None"
proof
  assume none: "first_free fuel used i = None"
  have "(\<lambda>k. i + k) ` {..<fuel} \<subseteq> {j. used j}" using first_free_None [OF none] by auto
  then have "card ((\<lambda>k. i + k) ` {..<fuel}) \<le> card {j. used j}" using assms(1) by (rule card_mono [rotated])
  then show False using assms(2) by (simp add: card_image)
qed

lemma first_free_names:
  assumes "inj name" "length names < fuel"
  shows "first_free fuel (\<lambda>i. name i \<in> set names) i \<noteq> None"
proof (rule first_free_total)
  have "{j. name j \<in> set names} = name -` set names" by auto
  then show "finite {j. name j \<in> set names}" using assms(1) by (simp add: finite_vimageI)
  have "card {j. name j \<in> set names} \<le> card (set names)"
    by (rule card_inj_on_le [of name]) (use assms(1) in \<open>auto simp: inj_on_def\<close>)
  then show "card {j. name j \<in> set names} < fuel"
    using assms(2) card_length [of names] by simp
qed

text \<open>Decimal rendering read back.\<close>

definition read_nat :: "string \<Rightarrow> nat" where
  "read_nat s = foldl (\<lambda>a c. a * 10 + (of_char c - 48)) 0 s"

lemma read_show_nat [simp]: "read_nat (show_nat n) = n"
proof (induction n rule: less_induct)
  case (less n)
  have digit: "of_char (digit_char d) = 48 + d" if "d < 10" for d
    using that by (simp add: digit_char_def of_char_of)
  show ?case
  proof (cases "n < 10")
    case True
    then show ?thesis by (simp add: read_nat_def digit)
  next
    case False
    then have "read_nat (show_nat (n div 10)) = n div 10" by (intro less) auto
    then show ?thesis using False by (simp add: read_nat_def show_base_step digit)
  qed
qed

lemma show_nat_inj [simp]: "show_nat m = show_nat n \<longleftrightarrow> m = n"
  by (metis read_show_nat)

end
