(* ===== verification/Paths.thy ===== *)
theory Paths
  imports Prelude
begin

text \<open>
  Path helpers (\<open>packages/storage/src/paths.ts\<close>). A path is a string; every helper first
  normalises it and throws \<open>invalid_path\<close> for the empty string or a \<open>..\<close> segment, so every
  helper returns a \<open>res\<close>. The lemmas relate the string operations to lists of segments: the
  normal form, the round trip between segments and strings, and \<open>isUnder\<close> as the prefix order.
\<close>

section \<open>The helpers\<close>

fun norm_loop :: "string list \<Rightarrow> string list \<Rightarrow> string list res" where
  "norm_loop [] segments = Inr segments"
| "norm_loop (segment # rest) segments =
     (if segment = '''' \<or> segment = ''.'' then norm_loop rest segments
      else if segment = ''..'' then Inl (StorageError Invalid_path)
      else norm_loop rest (segments @ [segment]))"

definition normalizePath :: "string \<Rightarrow> string res" where
  "normalizePath path =
     (if length path = 0 then Inl (StorageError Invalid_path)
      else res_bind (norm_loop (split_on CHR ''/'' path) [])
             (\<lambda>segments. Inr (''/'' @ join_with ''/'' segments)))"

definition joinPath :: "string list \<Rightarrow> string res" where
  "joinPath parts = normalizePath (join_with ''/'' parts)"

definition parentPath :: "string \<Rightarrow> string res" where
  "parentPath path =
     res_bind (normalizePath path) (\<lambda>normalized.
       Inr (case last_index_of CHR ''/'' normalized of
              None \<Rightarrow> ''/''
            | Some idx \<Rightarrow> if idx \<le> 0 then ''/'' else take idx normalized))"

definition baseName :: "string \<Rightarrow> string res" where
  "baseName path =
     res_bind (normalizePath path) (\<lambda>normalized.
       Inr (case last_index_of CHR ''/'' normalized of
              None \<Rightarrow> normalized
            | Some idx \<Rightarrow> drop (idx + 1) normalized))"

definition isRoot :: "string \<Rightarrow> bool res" where
  "isRoot path = res_bind (normalizePath path) (\<lambda>normalized. Inr (normalized = ''/''))"

definition pathSegments :: "string \<Rightarrow> string list res" where
  "pathSegments path =
     res_bind (normalizePath path) (\<lambda>normalized.
       Inr (if normalized = ''/'' then [] else split_on CHR ''/'' (drop 1 normalized)))"

definition isUnder :: "string \<Rightarrow> string \<Rightarrow> bool res" where
  "isUnder child ancestor =
     res_bind (normalizePath child) (\<lambda>c. res_bind (normalizePath ancestor) (\<lambda>a.
       Inr (a = ''/'' \<or> c = a \<or> starts_with c (a @ ''/''))))"

definition hasHiddenSegment :: "string \<Rightarrow> bool res" where
  "hasHiddenSegment path =
     res_bind (pathSegments path) (\<lambda>segments. Inr (\<exists>s \<in> set segments. starts_with s ''.''))"

definition isInternalPath :: "string \<Rightarrow> bool res" where
  "isInternalPath path =
     res_bind (pathSegments path) (\<lambda>segments.
       Inr (case index_of ''.tactile'' segments of
              None \<Rightarrow> False
            | Some tactileIndex \<Rightarrow>
                \<not> (tactileIndex + 1 < length segments \<and> segments ! (tactileIndex + 1) = ''daily'')))"

text \<open>
  FNV-1a on the UTF-16 code units of the input: \<open>hash ^= code\<close>, then \<open>Math.imul\<close> and \<open>>>> 0\<close>,
  which is multiplication modulo \<open>2 ^ 32\<close>.
\<close>

unbundle bit_operations_syntax

type_synonym code_unit = "16 word"

definition code_units :: "string \<Rightarrow> code_unit list" where
  "code_units s = map of_char s"

fun fnv1a_loop :: "32 word \<Rightarrow> code_unit list \<Rightarrow> 32 word" where
  "fnv1a_loop hash [] = hash"
| "fnv1a_loop hash (c # cs) = fnv1a_loop ((hash XOR ucast c) * 0x01000193) cs"

definition fnv1a :: "string \<Rightarrow> string" where
  "fnv1a input = pad_start 8 CHR ''0'' (show_hex (unat (fnv1a_loop 0x811c9dc5 (code_units input))))"

text \<open>
  \<open>encodeURIComponent\<close>: letters, digits and \<open>- _ . ! ~ * ' ( )\<close> stay, any other code point becomes
  the percent-escapes of its UTF-8 bytes (one byte below U+0080, two up to U+00FF).
\<close>

definition hex_upper :: "nat \<Rightarrow> char" where
  "hex_upper d = (if d < 10 then char_of (48 + d) else char_of (55 + d))"

definition percent :: "nat \<Rightarrow> string" where
  "percent b = [CHR ''%'', hex_upper (b div 16), hex_upper (b mod 16)]"

definition uri_unreserved :: "char \<Rightarrow> bool" where
  "uri_unreserved c =
     (let n = (of_char c :: nat) in
      65 \<le> n \<and> n \<le> 90 \<or> 97 \<le> n \<and> n \<le> 122 \<or> 48 \<le> n \<and> n \<le> 57
      \<or> n \<in> {45, 95, 46, 33, 126, 42, 39, 40, 41})"

definition encodeURIComponent :: "string \<Rightarrow> string" where
  "encodeURIComponent s =
     concat (map (\<lambda>c. let n = (of_char c :: nat) in
                  if uri_unreserved c then [c]
                  else if n < 128 then percent n
                  else percent (192 + n div 64) @ percent (128 + n mod 64)) s)"

definition encodePathAsDir :: "string \<Rightarrow> string res" where
  "encodePathAsDir path =
     res_bind (normalizePath path) (\<lambda>normalized.
       Inr (take 120 (encodeURIComponent normalized) @ ''-'' @ fnv1a normalized))"

section \<open>Segments and normal forms\<close>

text \<open>
  The abstract view of a path is its list of segments: \<open>norm_segs\<close> computes it, \<open>render\<close> prints
  it. A segment is a non-empty name other than \<open>.\<close> and \<open>..\<close> without a slash.
\<close>

definition seg_ok :: "string \<Rightarrow> bool" where
  "seg_ok s \<longleftrightarrow> s \<noteq> '''' \<and> s \<noteq> ''.'' \<and> s \<noteq> ''..'' \<and> CHR ''/'' \<notin> set s"

definition segs_ok :: "string list \<Rightarrow> bool" where
  "segs_ok ss \<longleftrightarrow> (\<forall>s \<in> set ss. seg_ok s)"

definition render :: "string list \<Rightarrow> string" where
  "render ss = ''/'' @ join_with ''/'' ss"

definition norm_segs :: "string \<Rightarrow> string list" where
  "norm_segs path = filter (\<lambda>s. s \<noteq> '''' \<and> s \<noteq> ''.'') (split_on CHR ''/'' path)"

definition path_ok :: "string \<Rightarrow> bool" where
  "path_ok path \<longleftrightarrow> path \<noteq> '''' \<and> ''..'' \<notin> set (split_on CHR ''/'' path)"

lemma segs_ok_simps [simp]:
  "segs_ok []" "segs_ok (s # ss) \<longleftrightarrow> seg_ok s \<and> segs_ok ss"
  "segs_ok (xs @ ys) \<longleftrightarrow> segs_ok xs \<and> segs_ok ys"
  by (auto simp: segs_ok_def)

lemma segs_ok_take [simp]: "segs_ok ss \<Longrightarrow> segs_ok (take n ss)"
  by (auto simp: segs_ok_def dest: in_set_takeD)

lemma segs_ok_butlast [simp]: "segs_ok ss \<Longrightarrow> segs_ok (butlast ss)"
  by (auto simp: segs_ok_def dest: in_set_butlastD)

lemma seg_ok_no_slash: "seg_ok s \<Longrightarrow> CHR ''/'' \<notin> set s"
  by (simp add: seg_ok_def)

lemma norm_loop_eq:
  "norm_loop ss acc =
     (if ''..'' \<in> set ss then Inl (StorageError Invalid_path)
      else Inr (acc @ filter (\<lambda>s. s \<noteq> '''' \<and> s \<noteq> ''.'') ss))"
  by (induction ss arbitrary: acc) auto

lemma normalizePath_eq:
  "normalizePath p =
     (if path_ok p then Inr (render (norm_segs p)) else Inl (StorageError Invalid_path))"
  by (simp add: normalizePath_def norm_loop_eq path_ok_def norm_segs_def render_def)

lemma segs_ok_norm_segs: "path_ok p \<Longrightarrow> segs_ok (norm_segs p)"
  unfolding segs_ok_def seg_ok_def norm_segs_def path_ok_def
  using split_on_pieces [of _ "CHR ''/''" p] by auto

lemma render_Nil [simp]: "render [] = ''/''"
  by (simp add: render_def)

lemma render_not_Nil [simp]: "render ss \<noteq> []"
  by (simp add: render_def)

lemma split_render: "segs_ok ss \<Longrightarrow> ss \<noteq> [] \<Longrightarrow> split_on CHR ''/'' (render ss) = [] # ss"
  by (simp add: render_def split_join segs_ok_def seg_ok_def)

lemma split_render_Nil: "split_on CHR ''/'' (render []) = [[], []]"
  by simp

lemma filter_segs: "segs_ok ss \<Longrightarrow> filter (\<lambda>s. s \<noteq> '''' \<and> s \<noteq> ''.'') ss = ss"
  by (auto simp: segs_ok_def seg_ok_def filter_id_conv)

lemma path_ok_render [simp]: "segs_ok ss \<Longrightarrow> path_ok (render ss)"
  by (cases "ss = []")
    (auto simp: path_ok_def split_render split_render_Nil segs_ok_def seg_ok_def simp del: render_Nil)

lemma norm_segs_render [simp]: "segs_ok ss \<Longrightarrow> norm_segs (render ss) = ss"
  by (cases "ss = []")
    (auto simp: norm_segs_def split_render split_render_Nil filter_segs simp del: render_Nil)

lemma normalizePath_render [simp]: "segs_ok ss \<Longrightarrow> normalizePath (render ss) = Inr (render ss)"
  by (simp add: normalizePath_eq)

lemma normalizePath_root [simp]: "normalizePath ''/'' = Inr ''/''"
  using normalizePath_render [of "[]"] by simp

lemma render_inj: "segs_ok xs \<Longrightarrow> segs_ok ys \<Longrightarrow> render xs = render ys \<longleftrightarrow> xs = ys"
  by (metis norm_segs_render)

lemma render_eq_root [simp]: "segs_ok ss \<Longrightarrow> render ss = ''/'' \<longleftrightarrow> ss = []"
  using render_inj [of ss "[]"] by simp

text \<open>A canonical path is one that normalisation returns unchanged.\<close>

definition canonical :: "string \<Rightarrow> bool" where
  "canonical p \<longleftrightarrow> normalizePath p = Inr p"

lemma canonical_iff: "canonical p \<longleftrightarrow> (\<exists>ss. segs_ok ss \<and> p = render ss)"
  by (metis canonical_def normalizePath_eq normalizePath_render segs_ok_norm_segs Inl_Inr_False Inr_inject)

lemma canonical_render [simp]: "segs_ok ss \<Longrightarrow> canonical (render ss)"
  by (simp add: canonical_def)

lemma canonicalE:
  assumes "canonical p"
  obtains ss where "segs_ok ss" "p = render ss"
  using assms by (auto simp: canonical_iff)

lemma normalizePath_InrD:
  assumes "normalizePath p = Inr q"
  shows "path_ok p" "q = render (norm_segs p)" "segs_ok (norm_segs p)"
  using assms by (auto simp: normalizePath_eq segs_ok_norm_segs split: if_splits)

section \<open>The helpers on rendered segments\<close>

lemma render_snoc: "render (ss @ [s]) = (if ss = [] then ''/'' @ s else render ss @ ''/'' @ s)"
proof (induction ss)
  case (Cons a ss)
  then show ?case by (auto simp: render_def join_with_Cons)
qed (simp add: render_def)

lemma last_slash_render:
  assumes "segs_ok (ss @ [s])"
  shows "last_index_of CHR ''/'' (render (ss @ [s])) = Some (if ss = [] then 0 else length (render ss))"
proof -
  have s: "CHR ''/'' \<notin> set s" using assms by (simp add: seg_ok_def)
  show ?thesis
    using last_index_of_append_sep [OF s, of "[]"] last_index_of_append_sep [OF s, of "render ss"] s
    by (auto simp: render_snoc)
qed

lemma parentPath_render_snoc [simp]:
  assumes "segs_ok (ss @ [s])"
  shows "parentPath (render (ss @ [s])) = Inr (render ss)"
  using assms last_slash_render [OF assms]
  by (cases "ss = []") (simp_all add: parentPath_def del: segs_ok_simps, simp_all add: render_snoc)

lemma parentPath_render:
  assumes "segs_ok ss"
  shows "parentPath (render ss) = Inr (render (butlast ss))"
proof (cases ss rule: rev_cases)
  case Nil
  then show ?thesis by (simp add: parentPath_def normalizePath_eq path_ok_def norm_segs_def)
next
  case (snoc ys y)
  with assms show ?thesis using parentPath_render_snoc [of ys y] by simp
qed

lemma baseName_render_snoc [simp]:
  assumes "segs_ok (ss @ [s])"
  shows "baseName (render (ss @ [s])) = Inr s"
proof -
  have "baseName (render (ss @ [s])) =
      Inr (drop (Suc (if ss = [] then 0 else length (render ss))) (render (ss @ [s])))"
    using assms last_slash_render [OF assms] by (simp add: baseName_def del: segs_ok_simps)
  then show ?thesis by (simp add: render_snoc)
qed

lemma isRoot_render [simp]: "segs_ok ss \<Longrightarrow> isRoot (render ss) = Inr (ss = [])"
  by (simp add: isRoot_def)

lemma pathSegments_render [simp]: "segs_ok ss \<Longrightarrow> pathSegments (render ss) = Inr ss"
  by (cases "ss = []") (auto simp: pathSegments_def, simp add: render_def split_join segs_ok_def seg_ok_def)

lemma pathSegments_eq:
  "pathSegments p = (if path_ok p then Inr (norm_segs p) else Inl (StorageError Invalid_path))"
proof (cases "path_ok p")
  case True
  then have "pathSegments p = pathSegments (render (norm_segs p))"
    by (simp add: pathSegments_def normalizePath_eq segs_ok_norm_segs)
  with True show ?thesis by (simp add: segs_ok_norm_segs)
qed (simp add: pathSegments_def normalizePath_eq)

lemma join_slash:
  "join_with ''/'' (z # zs) @ ''/'' = z @ CHR ''/'' # (if zs = [] then [] else join_with ''/'' zs @ ''/'')"
  by (simp add: join_with_Cons)

lemma prefix_join:
  assumes "segs_ok xs" "segs_ok ys" "xs \<noteq> []"
  shows "prefix (join_with ''/'' xs @ ''/'') (join_with ''/'' ys @ ''/'') \<longleftrightarrow> prefix xs ys"
  using assms
proof (induction xs arbitrary: ys)
  case Nil
  then show ?case by simp
next
  case (Cons x xs)
  show ?case
  proof (cases ys)
    case Nil
    with Cons.prems show ?thesis by (auto simp: join_with_Cons seg_ok_def prefix_Cons)
  next
    case ys: (Cons y ys')
    have "prefix (join_with ''/'' (x # xs) @ ''/'') (join_with ''/'' (y # ys') @ ''/'')
        \<longleftrightarrow> x = y \<and> prefix (if xs = [] then [] else join_with ''/'' xs @ ''/'')
                            (if ys' = [] then [] else join_with ''/'' ys' @ ''/'')"
      unfolding join_slash using Cons.prems ys by (intro sep_prefix) (simp_all add: seg_ok_def)
    moreover have "prefix (if xs = [] then [] else join_with ''/'' xs @ ''/'')
                            (if ys' = [] then [] else join_with ''/'' ys' @ ''/'') \<longleftrightarrow> prefix xs ys'"
      using Cons.IH [of ys'] Cons.prems ys by auto
    ultimately show ?thesis using ys by simp
  qed
qed

lemma isUnder_render [simp]:
  assumes "segs_ok xs" "segs_ok ys"
  shows "isUnder (render xs) (render ys) = Inr (prefix ys xs)"
proof (cases "ys = []")
  case True
  then show ?thesis using assms by (simp add: isUnder_def)
next
  case False
  have "render xs = render ys \<or> prefix (render ys @ ''/'') (render xs)
      \<longleftrightarrow> prefix (render ys @ ''/'') (render xs @ ''/'')"
    by (metis append_same_eq prefix_def prefix_snoc)
  also have "\<dots> \<longleftrightarrow> prefix ys xs"
    using prefix_join [of ys xs] assms False by (simp add: render_def)
  finally show ?thesis using assms False by (simp add: isUnder_def)
qed

lemma isUnder_eq:
  "path_ok c \<Longrightarrow> path_ok a \<Longrightarrow> isUnder c a = Inr (prefix (norm_segs a) (norm_segs c))"
  using isUnder_render [of "norm_segs c" "norm_segs a"]
  by (simp add: isUnder_def normalizePath_eq segs_ok_norm_segs)

text \<open>Appending to a path with a slash.\<close>

lemma norm_segs_append: "norm_segs (d @ ''/'' @ x) = norm_segs d @ norm_segs x"
  by (simp add: norm_segs_def split_on_append)

lemma path_ok_append:
  "path_ok (d @ ''/'' @ x) \<longleftrightarrow> ''..'' \<notin> set (split_on CHR ''/'' d) \<and> ''..'' \<notin> set (split_on CHR ''/'' x)"
  by (simp add: path_ok_def split_on_append)

lemma norm_segs_seg [simp]: "seg_ok x \<Longrightarrow> norm_segs x = [x]"
  by (simp add: norm_segs_def seg_ok_def)

lemma path_append_seg:
  assumes "path_ok d" "seg_ok x"
  shows "path_ok (d @ ''/'' @ x)" "norm_segs (d @ ''/'' @ x) = norm_segs d @ [x]"
  using assms norm_segs_append [of d x] path_ok_append [of d x]
  by (auto simp: path_ok_def seg_ok_def)

section \<open>Safe directory names\<close>

definition dir_char :: "char \<Rightarrow> bool" where
  "dir_char c \<longleftrightarrow> uri_unreserved c \<or> c = CHR ''%''"

definition enc_char :: "char \<Rightarrow> string" where
  "enc_char c =
     (let n = (of_char c :: nat) in
      if uri_unreserved c then [c]
      else if n < 128 then percent n
      else percent (192 + n div 64) @ percent (128 + n mod 64))"

lemma encodeURIComponent_eq: "encodeURIComponent s = concat (map enc_char s)"
  by (simp add: encodeURIComponent_def enc_char_def Let_def cong: map_cong)

lemma dir_charI: "dir_char CHR ''%''" "uri_unreserved c \<Longrightarrow> dir_char c"
  by (simp_all add: dir_char_def)

lemma hex_upper_dir_char: "d < 16 \<Longrightarrow> dir_char (hex_upper d)"
  by (cases "d < 10") (auto simp: dir_char_def uri_unreserved_def hex_upper_def Let_def)

lemma percent_dir_chars: "b < 256 \<Longrightarrow> x \<in> set (percent b) \<Longrightarrow> dir_char x"
  by (auto simp: percent_def hex_upper_dir_char dir_charI(1))

lemma enc_char_dir_chars: "x \<in> set (enc_char c) \<Longrightarrow> dir_char x"
proof -
  have "(of_char c :: nat) div 64 < 4" by (simp add: less_mult_imp_div_less)
  moreover assume "x \<in> set (enc_char c)"
  ultimately show ?thesis
    by (auto simp: enc_char_def Let_def dir_charI split: if_splits elim!: percent_dir_chars [rotated])
qed

lemma encodeURIComponent_chars: "x \<in> set (encodeURIComponent s) \<Longrightarrow> dir_char x"
  by (auto simp: encodeURIComponent_eq dest: enc_char_dir_chars)

lemma digit_dir_char: "d < 16 \<Longrightarrow> dir_char (digit_char d)"
  by (cases "d < 10") (auto simp: dir_char_def uri_unreserved_def digit_char_def Let_def)

lemma length_fnv1a: "length (fnv1a s) = 8"
proof -
  have "unat (fnv1a_loop 0x811c9dc5 (code_units s)) < 2 ^ LENGTH(32)"
    by (rule unsigned_less)
  then have "length (show_hex (unat (fnv1a_loop 0x811c9dc5 (code_units s)))) \<le> 8"
    using show_base_length [of 16 "unat (fnv1a_loop 0x811c9dc5 (code_units s))" 7] by simp
  then show ?thesis by (simp add: fnv1a_def length_pad_start)
qed

lemma zero_digit: "digit_char 0 = CHR ''0''"
  by code_simp

lemma fnv1a_chars: "x \<in> set (fnv1a s) \<Longrightarrow> dir_char x"
proof -
  assume "x \<in> set (fnv1a s)"
  then have "x = digit_char 0 \<or> x \<in> set (show_hex (unat (fnv1a_loop 0x811c9dc5 (code_units s))))"
    by (auto simp: fnv1a_def pad_start_def zero_digit split: if_splits)
  then obtain d where "d < 16" "x = digit_char d"
    using show_base_chars [of 16 x] by force
  then show ?thesis by (simp add: digit_dir_char)
qed

lemma dir_char_no_slash: "\<not> dir_char CHR ''/''"
  by (simp add: dir_char_def uri_unreserved_def)

text \<open>Reading one encoded character back shows that no two strings share an encoding.\<close>

definition unhex :: "char \<Rightarrow> nat" where
  "unhex c = (let n = (of_char c :: nat) in if n < 65 then n - 48 else n - 55)"

definition read_enc :: "string \<Rightarrow> char \<times> string" where
  "read_enc s =
     (if hd s \<noteq> CHR ''%'' then (hd s, tl s)
      else let b = unhex (s ! 1) * 16 + unhex (s ! 2) in
        if b < 128 then (char_of b, drop 3 s)
        else (char_of ((b - 192) * 64 + (unhex (s ! 4) * 16 + unhex (s ! 5) - 128)), drop 6 s))"

lemma unhex_hex_upper: "d < 16 \<Longrightarrow> unhex (hex_upper d) = d"
  by (cases "d < 10") (simp_all add: unhex_def hex_upper_def Let_def)

lemma read_enc_enc_char: "read_enc (enc_char c @ u) = (c, u)"
proof (cases "uri_unreserved c")
  case True
  then have "c \<noteq> CHR ''%''" by (auto simp: uri_unreserved_def)
  with True show ?thesis by (simp add: enc_char_def read_enc_def)
next
  case False
  define n where "n = (of_char c :: nat)"
  have n: "n < 256" unfolding n_def by simp
  show ?thesis
  proof (cases "n < 128")
    case True
    have "unhex (hex_upper (n div 16)) * 16 + unhex (hex_upper (n mod 16)) = n"
      using True by (simp add: unhex_hex_upper)
    with True False show ?thesis
      by (simp add: enc_char_def n_def [symmetric] read_enc_def percent_def) (simp add: n_def)
  next
    case big: False
    define p where "p = 192 + n div 64"
    define q where "q = 128 + n mod 64"
    have pq: "p < 256" "q < 256" "128 \<le> p" "(p - 192) * 64 + (q - 128) = n"
      using n by (auto simp: p_def q_def)
    have "unhex (hex_upper (p div 16)) * 16 + unhex (hex_upper (p mod 16)) = p"
         "unhex (hex_upper (q div 16)) * 16 + unhex (hex_upper (q mod 16)) = q"
      using pq by (simp_all add: unhex_hex_upper)
    moreover have "enc_char c = percent p @ percent q"
      using False big by (simp add: enc_char_def n_def p_def q_def Let_def)
    ultimately show ?thesis using pq by (simp add: read_enc_def percent_def) (simp add: n_def)
  qed
qed

lemma enc_char_not_Nil: "enc_char c \<noteq> []"
  by (simp add: enc_char_def percent_def Let_def)

lemma encodeURIComponent_inj: "encodeURIComponent s = encodeURIComponent t \<longleftrightarrow> s = t"
proof (induction s arbitrary: t)
  case Nil
  show ?case by (cases t) (simp_all add: encodeURIComponent_eq enc_char_not_Nil)
next
  case (Cons c s)
  show ?case
  proof (cases t)
    case Nil
    then show ?thesis by (simp add: encodeURIComponent_eq enc_char_not_Nil)
  next
    case t: (Cons d t')
    have "enc_char c @ encodeURIComponent s = enc_char d @ encodeURIComponent t'
        \<Longrightarrow> c = d \<and> encodeURIComponent s = encodeURIComponent t'"
      using read_enc_enc_char [of c] read_enc_enc_char [of d] by (metis prod.inject)
    then show ?thesis using Cons.IH t by (auto simp: encodeURIComponent_eq)
  qed
qed

lemma encodePathAsDir_Inr:
  "normalizePath p = Inr q \<Longrightarrow> encodePathAsDir p = Inr (take 120 (encodeURIComponent q) @ ''-'' @ fnv1a q)"
  by (simp add: encodePathAsDir_def)

lemma encodePathAsDir_chars:
  assumes "encodePathAsDir p = Inr d" "x \<in> set d"
  shows "dir_char x"
proof -
  obtain q where "d = take 120 (encodeURIComponent q) @ ''-'' @ fnv1a q"
    using assms(1) by (auto simp: encodePathAsDir_def res_bind_def split: sum.splits)
  with assms(2) have "x \<in> set (encodeURIComponent q) \<or> x = CHR ''-'' \<or> x \<in> set (fnv1a q)"
    by (auto dest: in_set_takeD)
  moreover have "dir_char CHR ''-''" by (simp add: dir_char_def uri_unreserved_def)
  ultimately show ?thesis by (auto dest: encodeURIComponent_chars fnv1a_chars)
qed

lemma encodePathAsDir_length:
  "encodePathAsDir p = Inr d \<Longrightarrow> 9 \<le> length d \<and> length d \<le> 129"
  by (auto simp: encodePathAsDir_def res_bind_def length_fnv1a split: sum.splits)

lemma encodePathAsDir_seg_ok:
  assumes "encodePathAsDir p = Inr d"
  shows "seg_ok d"
proof -
  have "9 \<le> length d" using encodePathAsDir_length [OF assms] by simp
  then have "d \<noteq> ''''" "d \<noteq> ''.''" "d \<noteq> ''..''" by auto
  moreover have "CHR ''/'' \<notin> set d"
    using encodePathAsDir_chars [OF assms] dir_char_no_slash by blast
  ultimately show ?thesis by (simp add: seg_ok_def)
qed

lemma encodePathAsDir_eqD:
  assumes "normalizePath p = Inr p'" "normalizePath q = Inr q'"
    and "length (encodeURIComponent p') \<le> 120" "length (encodeURIComponent q') \<le> 120"
    and "encodePathAsDir p = encodePathAsDir q"
  shows "p' = q'"
proof -
  have "encodeURIComponent p' @ ''-'' @ fnv1a p' = encodeURIComponent q' @ ''-'' @ fnv1a q'"
    using assms by (simp add: encodePathAsDir_def)
  then have "encodeURIComponent p' = encodeURIComponent q'"
    by (simp add: length_fnv1a append_eq_append_conv)
  then show ?thesis by (simp add: encodeURIComponent_inj)
qed

lemma index_of_append_notin: "c \<notin> set xs \<Longrightarrow> index_of c (xs @ c # ys) = Some (length xs)"
  by (induction xs) auto

lemma first_split_unique:
  "xs @ c # ys = xs' @ c # ys' \<Longrightarrow> c \<notin> set xs \<Longrightarrow> c \<notin> set xs' \<Longrightarrow> xs = xs' \<and> ys = ys'"
  by (metis append_eq_append_conv index_of_append_notin list.inject option.inject)

section \<open>Properties\<close>


text \<open>
  Every path but the root splits into its parent and its base name and \<open>joinPath\<close> puts it
  back together; the base name is a proper segment and the parent is canonical.
\<close>

theorem parent_base_join:
  assumes "normalizePath p = Inr q" and "q \<noteq> ''/''"
  shows "\<exists>par base. parentPath p = Inr par \<and> baseName p = Inr base \<and> seg_ok base
           \<and> canonical par \<and> joinPath [par, base] = Inr q"
proof -
  define ss where "ss = norm_segs p"
  have q: "q = render ss" "segs_ok ss" using normalizePath_InrD [OF assms(1)] by (simp_all add: ss_def)
  with assms(2) have "ss \<noteq> []" by auto
  then obtain ys y where ss: "ss = ys @ [y]" by (metis rev_exhaust)
  have par: "parentPath p = parentPath q" and base: "baseName p = baseName q"
    using assms(1) q by (simp_all add: parentPath_def baseName_def)
  have ok: "segs_ok (ys @ [y])" using q ss by simp
  then have "norm_segs (render ys @ ''/'' @ y) = ys @ [y]" "path_ok (render ys @ ''/'' @ y)"
    using norm_segs_render [OF ok] path_ok_render [OF ok]
    by (cases "ys = []"; auto simp: render_snoc norm_segs_def path_ok_def seg_ok_def)+
  then have "joinPath [render ys, y] = Inr q"
    using q ss by (simp add: joinPath_def normalizePath_eq)
  with ok q ss par base show ?thesis by auto
qed

theorem parent_base_join_witness:
  "parentPath ''/Notes//./a.md'' = Inr ''/Notes'' \<and> baseName ''/Notes//./a.md'' = Inr ''a.md''
   \<and> joinPath [''/Notes'', ''a.md''] = Inr ''/Notes/a.md''"
proof -
  have n: "normalizePath ''/Notes//./a.md'' = Inr ''/Notes/a.md''"
    by (simp add: normalizePath_def)
  have "parentPath ''/Notes//./a.md'' = Inr ''/Notes''" "baseName ''/Notes//./a.md'' = Inr ''a.md''"
    by (simp_all add: normalizePath_def parentPath_def baseName_def)
  then show ?thesis using parent_base_join [OF n] by auto
qed

text \<open>
  \<open>isUnder child ancestor\<close> is the prefix order on segments: \<open>/ab\<close> is not under \<open>/a\<close>, however
  the two strings begin. It throws exactly when one of the paths is invalid.
\<close>

theorem isUnder_prefix:
  "isUnder child ancestor =
     (if path_ok child \<and> path_ok ancestor then Inr (prefix (norm_segs ancestor) (norm_segs child))
      else Inl (StorageError Invalid_path))"
  by (cases "path_ok child"; cases "path_ok ancestor")
    (simp_all add: isUnder_eq, simp_all add: isUnder_def normalizePath_eq)

text \<open>
  A path is internal exactly when it has a \<open>.tactile\<close> segment and what follows the first such
  segment is not \<open>daily\<close>: settings, history and trash are internal, daily notes are not.
\<close>

theorem isInternalPath_spec:
  assumes "path_ok p"
  shows "isInternalPath p =
     Inr (\<exists>xs ys. norm_segs p = xs @ ''.tactile'' # ys \<and> ''.tactile'' \<notin> set xs \<and> take 1 ys \<noteq> [''daily''])"
proof (cases "''.tactile'' \<in> set (norm_segs p)")
  case True
  then obtain xs ys where s: "norm_segs p = xs @ ''.tactile'' # ys" "''.tactile'' \<notin> set xs"
    by (meson split_list_first)
  have "isInternalPath p = Inr (take 1 ys \<noteq> [''daily''])"
    using s assms by (cases ys) (auto simp: isInternalPath_def pathSegments_eq index_of_append_notin nth_append)
  moreover have uniq: "ys' = ys" if "norm_segs p = xs' @ ''.tactile'' # ys'" "''.tactile'' \<notin> set xs'" for xs' ys'
    using first_split_unique [of xs' "''.tactile''" ys' xs ys] that s by simp
  have "(\<exists>xs ys. norm_segs p = xs @ ''.tactile'' # ys \<and> ''.tactile'' \<notin> set xs \<and> take 1 ys \<noteq> [''daily''])
      \<longleftrightarrow> take 1 ys \<noteq> [''daily'']"
    using s uniq by blast
  ultimately show ?thesis by simp
next
  case False
  with assms show ?thesis by (auto simp: isInternalPath_def pathSegments_eq)
qed

theorem isInternalPath_spec_witness:
  "isInternalPath ''/N/.tactile/trash/a.md'' = Inr True \<and> isInternalPath ''/N/.tactile/daily/a.md'' = Inr False
   \<and> (\<exists>xs ys. norm_segs ''/N/.tactile/trash/a.md'' = xs @ ''.tactile'' # ys \<and> ''.tactile'' \<notin> set xs
         \<and> take 1 ys \<noteq> [''daily''])"
proof -
  have ok: "path_ok ''/N/.tactile/trash/a.md''" by (simp add: path_ok_def)
  have v: "isInternalPath ''/N/.tactile/trash/a.md'' = Inr True"
    "isInternalPath ''/N/.tactile/daily/a.md'' = Inr False"
    by (simp_all add: isInternalPath_def pathSegments_def normalizePath_def)
  then show ?thesis using isInternalPath_spec [OF ok] by simp
qed

text \<open>
  \<open>encodePathAsDir\<close> turns any valid path into one safe directory name: a legal segment of 9 to
  129 characters, every one of them left alone by a URL or a file system; and two paths whose
  encoded forms fit in 120 characters get the same name only when they are the same path.
\<close>

theorem encodePathAsDir_safe:
  assumes "normalizePath p = Inr p'"
  shows "\<exists>d. encodePathAsDir p = Inr d \<and> seg_ok d \<and> 9 \<le> length d \<and> length d \<le> 129
           \<and> (\<forall>x \<in> set d. dir_char x)
           \<and> (\<forall>q q'. normalizePath q = Inr q' \<and> encodePathAsDir q = Inr d
                \<and> length (encodeURIComponent p') \<le> 120 \<and> length (encodeURIComponent q') \<le> 120
                \<longrightarrow> q' = p')"
proof -
  obtain d where d: "encodePathAsDir p = Inr d" using encodePathAsDir_Inr [OF assms] by blast
  moreover have "\<forall>q q'. normalizePath q = Inr q' \<and> encodePathAsDir q = Inr d
                \<and> length (encodeURIComponent p') \<le> 120 \<and> length (encodeURIComponent q') \<le> 120
                \<longrightarrow> q' = p'"
    using encodePathAsDir_eqD [OF _ assms] d by metis
  ultimately show ?thesis
    using encodePathAsDir_seg_ok encodePathAsDir_length encodePathAsDir_chars by blast
qed

theorem encodePathAsDir_safe_witness:
  "encodePathAsDir ''/N/a b.md'' = Inr ''%2FN%2Fa%20b.md-ee4a2995'' \<and> seg_ok ''%2FN%2Fa%20b.md-ee4a2995''"
proof -
  have n: "normalizePath ''/N/a b.md'' = Inr ''/N/a b.md''" by (simp add: normalizePath_def)
  have "encodePathAsDir ''/N/a b.md'' = Inr ''%2FN%2Fa%20b.md-ee4a2995''"
    using n by (simp add: encodePathAsDir_def encodeURIComponent_eq enc_char_def uri_unreserved_def percent_def
        hex_upper_def fnv1a_def code_units_def show_base_step digit_char_def pad_start_def
        char_of_eq_iff take_bit_eq_mod)
  then show ?thesis using encodePathAsDir_safe [OF n] by auto
qed

end
