(* ===== verification/Diff.thy ===== *)
theory Diff
  imports Prelude
begin

text \<open>
  The line diff of the version-history panel (\<open>packages/core/src/utils/diff.ts\<close>): pre and suf
  trimming, the LCS table in a flat 32-bit array, the walk through it, and the collapsing of
  unchanged runs for display. The lemmas show that a diff contains both documents, numbers their
  lines, counts what it shows, and, unless truncated, keeps as many lines as any diff can.
\<close>

section \<open>Data\<close>

datatype diff_line_type = Same | Add | Del

record diff_line =
  dl_type :: diff_line_type
  dl_text :: string
  oldNumber :: "nat option"
  newNumber :: "nat option"

record diff_result =
  dr_lines :: "diff_line list"
  added :: nat
  removed :: nat
  unchanged :: nat
  truncated :: bool

record lcs_op =
  op_type :: diff_line_type
  op_text :: string
  aIndex :: "nat option"
  bIndex :: "nat option"

definition MAX_CELLS :: nat where
  "MAX_CELLS = 4000000"

section \<open>The LCS table and the walk\<close>

text \<open>
  The table is a \<open>Uint32Array\<close> of \<open>(n + 1) * width\<close> cells, filled from the last row and column
  down; a store wraps modulo \<open>2 ^ 32\<close>.
\<close>

definition lcs_cell :: "string list \<Rightarrow> string list \<Rightarrow> nat \<Rightarrow> nat \<Rightarrow> nat list \<Rightarrow> nat list" where
  "lcs_cell a b i j dp =
     (let width = length b + 1 in
      dp[i * width + j :=
           (if a ! i = b ! j then dp ! ((i + 1) * width + j + 1) + 1
            else max (dp ! ((i + 1) * width + j)) (dp ! (i * width + j + 1))) mod 2 ^ 32])"

definition lcs_row :: "string list \<Rightarrow> string list \<Rightarrow> nat \<Rightarrow> nat list \<Rightarrow> nat list" where
  "lcs_row a b i dp = fold (\<lambda>j dp. lcs_cell a b i j dp) (rev [0..<length b]) dp"

definition lcs_table :: "string list \<Rightarrow> string list \<Rightarrow> nat list" where
  "lcs_table a b =
     fold (\<lambda>i dp. lcs_row a b i dp) (rev [0..<length a])
       (replicate ((length a + 1) * (length b + 1)) 0)"

function lcs_walk :: "string list \<Rightarrow> string list \<Rightarrow> nat list \<Rightarrow> nat \<Rightarrow> nat \<Rightarrow> lcs_op list" where
  "lcs_walk a b dp i j =
     (let width = length b + 1 in
      if i < length a \<and> j < length b then
        if a ! i = b ! j then
          \<lparr>op_type = Same, op_text = a ! i, aIndex = Some i, bIndex = Some j\<rparr>
            # lcs_walk a b dp (i + 1) (j + 1)
        else if dp ! ((i + 1) * width + j) \<ge> dp ! (i * width + j + 1) then
          \<lparr>op_type = Del, op_text = a ! i, aIndex = Some i, bIndex = None\<rparr> # lcs_walk a b dp (i + 1) j
        else
          \<lparr>op_type = Add, op_text = b ! j, aIndex = None, bIndex = Some j\<rparr> # lcs_walk a b dp i (j + 1)
      else
        map (\<lambda>i. \<lparr>op_type = Del, op_text = a ! i, aIndex = Some i, bIndex = None\<rparr>) [i..<length a]
        @ map (\<lambda>j. \<lparr>op_type = Add, op_text = b ! j, aIndex = None, bIndex = Some j\<rparr>) [j..<length b])"
  by pat_completeness auto
termination
  by (relation "measure (\<lambda>(a, b, dp, i, j). (length a - i) + (length b - j))") auto

declare lcs_walk.simps [simp del]

definition lcsDiff :: "string list \<Rightarrow> string list \<Rightarrow> lcs_op list" where
  "lcsDiff a b = lcs_walk a b (lcs_table a b) 0 0"

section \<open>The diff\<close>

function common_prefix :: "string list \<Rightarrow> string list \<Rightarrow> nat \<Rightarrow> nat" where
  "common_prefix a b pre =
     (if pre < length a \<and> pre < length b \<and> a ! pre = b ! pre
      then common_prefix a b (pre + 1) else pre)"
  by pat_completeness auto
termination
  by (relation "measure (\<lambda>(a, b, pre). length a - pre)") auto

function common_suffix :: "string list \<Rightarrow> string list \<Rightarrow> nat \<Rightarrow> nat \<Rightarrow> nat" where
  "common_suffix a b pre suf =
     (if suf < length a - pre \<and> suf < length b - pre
         \<and> a ! (length a - 1 - suf) = b ! (length b - 1 - suf)
      then common_suffix a b pre (suf + 1) else suf)"
  by pat_completeness auto
termination
  by (relation "measure (\<lambda>(a, b, pre, suf). length a - suf)") auto

declare common_prefix.simps [simp del] common_suffix.simps [simp del]

definition text_lines :: "string \<Rightarrow> string list" where
  "text_lines t = (if t = '''' then [] else split_on (CHR 0x0A) t)"

definition slice :: "'a list \<Rightarrow> nat \<Rightarrow> nat \<Rightarrow> 'a list" where
  "slice xs start end' = take (end' - start) (drop start xs)"

definition number_op :: "nat \<Rightarrow> lcs_op \<Rightarrow> diff_line" where
  "number_op pre line =
     \<lparr>dl_type = op_type line, dl_text = op_text line,
      oldNumber = map_option (\<lambda>i. pre + i + 1) (aIndex line),
      newNumber = map_option (\<lambda>j. pre + j + 1) (bIndex line)\<rparr>"

definition same_line :: "string list \<Rightarrow> nat \<Rightarrow> nat \<Rightarrow> diff_line" where
  "same_line a i j = \<lparr>dl_type = Same, dl_text = a ! i, oldNumber = Some (i + 1), newNumber = Some (j + 1)\<rparr>"

definition middle_lines :: "nat \<Rightarrow> string list \<Rightarrow> string list \<Rightarrow> diff_line list" where
  "middle_lines pre aMid bMid =
     (if length aMid * length bMid > MAX_CELLS then
        map (\<lambda>i. \<lparr>dl_type = Del, dl_text = aMid ! i, oldNumber = Some (pre + i + 1), newNumber = None\<rparr>)
          [0..<length aMid]
        @ map (\<lambda>i. \<lparr>dl_type = Add, dl_text = bMid ! i, oldNumber = None, newNumber = Some (pre + i + 1)\<rparr>)
          [0..<length bMid]
      else map (number_op pre) (lcsDiff aMid bMid))"

definition count_type :: "diff_line_type \<Rightarrow> diff_line list \<Rightarrow> nat" where
  "count_type t ls = length (filter (\<lambda>l. dl_type l = t) ls)"

definition diffLines :: "string \<Rightarrow> string \<Rightarrow> diff_result" where
  "diffLines oldText newText =
     (if oldText = newText then
        let sourceLines = text_lines oldText;
            ls = map (\<lambda>i. same_line sourceLines i i) [0..<length sourceLines]
        in \<lparr>dr_lines = ls, added = 0, removed = 0, unchanged = length ls, truncated = False\<rparr>
      else
        let a = text_lines oldText; b = text_lines newText;
            pre = common_prefix a b 0;
            suf = common_suffix a b pre 0;
            aMid = slice a pre (length a - suf);
            bMid = slice b pre (length b - suf);
            mid = middle_lines pre aMid bMid;
            ls = map (\<lambda>i. same_line a i i) [0..<pre] @ mid
                 @ map (\<lambda>i. same_line a (length a - suf + i) (length b - suf + i)) [0..<suf];
            nAdd = count_type Add mid; nDel = count_type Del mid
        in \<lparr>dr_lines = ls, added = nAdd, removed = nDel, unchanged = length ls - nAdd - nDel,
            truncated = length aMid * length bMid > MAX_CELLS\<rparr>)"

section \<open>Collapsing unchanged runs\<close>

datatype display_row =
    Line diff_line
  | Collapsed nat nat nat \<comment> \<open>count, firstOld, firstNew\<close>

record collapse_state =
  rows :: "display_row list"
  runStart :: int
  runLength :: nat

definition run_line :: "diff_line list \<Rightarrow> collapse_state \<Rightarrow> nat \<Rightarrow> diff_line" where
  "run_line ls st k = ls ! nat (runStart st + int k)"

definition flush_run :: "diff_line list \<Rightarrow> nat \<Rightarrow> collapse_state \<Rightarrow> collapse_state" where
  "flush_run ls context st =
     (if runLength st = 0 then st
      else
        \<lparr>rows = rows st @
          (if runLength st \<le> context * 2 + 1
           then map (\<lambda>k. Line (run_line ls st k)) [0..<runLength st]
           else
             map (\<lambda>k. Line (run_line ls st k)) [0..<context]
             @ [let first = run_line ls st context in
                Collapsed (runLength st - context * 2)
                  (case oldNumber first of None \<Rightarrow> 0 | Some n \<Rightarrow> n)
                  (case newNumber first of None \<Rightarrow> 0 | Some n \<Rightarrow> n)]
             @ map (\<lambda>k. Line (run_line ls st k)) [runLength st - context..<runLength st]),
         runStart = - 1, runLength = 0\<rparr>)"

definition collapse_step :: "diff_line list \<Rightarrow> nat \<Rightarrow> nat \<Rightarrow> collapse_state \<Rightarrow> collapse_state" where
  "collapse_step ls context i st =
     (if dl_type (ls ! i) = Same then
        st\<lparr>runStart := (if runLength st = 0 then int i else runStart st), runLength := runLength st + 1\<rparr>
      else
        let st' = flush_run ls context st in st'\<lparr>rows := rows st' @ [Line (ls ! i)]\<rparr>)"

definition collapseUnchanged :: "diff_line list \<Rightarrow> nat \<Rightarrow> display_row list" where
  "collapseUnchanged ls context =
     rows (flush_run ls context
       (fold (collapse_step ls context) [0..<length ls] \<lparr>rows = [], runStart = - 1, runLength = 0\<rparr>))"

section \<open>Longest common subsequences\<close>

fun lcs_len :: "'a list \<Rightarrow> 'a list \<Rightarrow> nat" where
  "lcs_len [] ys = 0"
| "lcs_len xs [] = 0"
| "lcs_len (x # xs) (y # ys) =
     (if x = y then lcs_len xs ys + 1 else max (lcs_len xs (y # ys)) (lcs_len (x # xs) ys))"

lemma lcs_len_Nil2 [simp]: "lcs_len xs [] = 0"
  by (cases xs) auto

lemma lcs_len_le: "lcs_len xs ys \<le> length xs \<and> lcs_len xs ys \<le> length ys"
  by (induction xs ys rule: lcs_len.induct) auto

lemma lcs_len_upper: "subseq zs xs \<Longrightarrow> subseq zs ys \<Longrightarrow> length zs \<le> lcs_len xs ys"
proof (induction xs ys arbitrary: zs rule: lcs_len.induct)
  case (3 x xs y ys)
  show ?case
  proof (cases zs)
    case Nil
    then show ?thesis by simp
  next
    case zs: (Cons z zs')
    show ?thesis
    proof (cases "x = y")
      case True
      have "subseq zs' xs \<and> subseq zs' ys"
        using "3.prems" zs by (auto split: if_splits dest: subseq_Cons')
      then show ?thesis using "3.IH"(1) True zs by simp
    next
      case False
      then have "subseq zs xs \<or> subseq zs ys"
        using "3.prems" zs by (metis subseq_Cons2_neq)
      then show ?thesis using "3.IH"(2,3) "3.prems" False by (auto simp: le_max_iff_disj)
    qed
  qed
qed auto

lemma lcs_len_witness: "\<exists>zs. subseq zs xs \<and> subseq zs ys \<and> length zs = lcs_len xs ys"
proof (induction xs ys rule: lcs_len.induct)
  case (3 x xs y ys)
  show ?case
  proof (cases "x = y")
    case True
    then obtain zs where "subseq zs xs" "subseq zs ys" "length zs = lcs_len xs ys"
      using "3.IH"(1) by auto
    then have "subseq (x # zs) (x # xs) \<and> subseq (x # zs) (y # ys) \<and> length (x # zs) = lcs_len (x # xs) (y # ys)"
      using True by simp
    then show ?thesis by blast
  next
    case False
    obtain u where u: "subseq u xs" "subseq u (y # ys)" "length u = lcs_len xs (y # ys)"
      using "3.IH"(2) False by blast
    obtain v where v: "subseq v (x # xs)" "subseq v ys" "length v = lcs_len (x # xs) ys"
      using "3.IH"(3) False by blast
    show ?thesis
    proof (cases "lcs_len (x # xs) ys \<le> lcs_len xs (y # ys)")
      case True
      then have "length u = lcs_len (x # xs) (y # ys)" using u False by simp
      then show ?thesis using u by (meson list_emb_Cons)
    next
      case le: False
      then have "length v = lcs_len (x # xs) (y # ys)" using v False by simp
      then show ?thesis using v by (meson list_emb_Cons)
    qed
  qed
qed (auto intro: exI [of _ "[]"])

lemma subseq_rev: "subseq xs ys \<Longrightarrow> subseq (rev xs) (rev ys)"
  by (induction rule: list_emb.induct) (auto intro: subseq_rev_drop_many)

lemma lcs_len_rev_le: "lcs_len xs ys \<le> lcs_len (rev xs) (rev ys)"
  using lcs_len_witness [of xs ys] by (metis lcs_len_upper length_rev subseq_rev)

lemma lcs_len_rev: "lcs_len (rev xs) (rev ys) = lcs_len xs ys"
  using lcs_len_rev_le [of xs ys] lcs_len_rev_le [of "rev xs" "rev ys"] by simp

lemma lcs_len_same_prefix: "lcs_len (p @ xs) (p @ ys) = length p + lcs_len xs ys"
  by (induction p) auto

lemma lcs_len_same_suffix: "lcs_len (xs @ s) (ys @ s) = lcs_len xs ys + length s"
proof -
  have "lcs_len (xs @ s) (ys @ s) = lcs_len (rev s @ rev xs) (rev s @ rev ys)"
    using lcs_len_rev [of "xs @ s" "ys @ s"] by simp
  then show ?thesis by (simp add: lcs_len_same_prefix lcs_len_rev)
qed

section \<open>The table holds the LCS lengths\<close>

definition table_upto :: "string list \<Rightarrow> string list \<Rightarrow> nat \<Rightarrow> nat \<Rightarrow> nat list \<Rightarrow> bool" where
  "table_upto a b i j dp \<longleftrightarrow>
     length dp = (length a + 1) * (length b + 1) \<and>
     (\<forall>i' \<le> length a. \<forall>j' \<le> length b. i < i' \<or> (i' = i \<and> j \<le> j') \<or> i' = length a \<or> j' = length b
        \<longrightarrow> dp ! (i' * (length b + 1) + j') = lcs_len (drop i' a) (drop j' b))"

lemma table_uptoD:
  "table_upto a b i j dp \<Longrightarrow> i' \<le> length a \<Longrightarrow> j' \<le> length b
    \<Longrightarrow> i < i' \<or> (i' = i \<and> j \<le> j') \<or> i' = length a \<or> j' = length b
    \<Longrightarrow> dp ! (i' * (length b + 1) + j') = lcs_len (drop i' a) (drop j' b)"
  unfolding table_upto_def by blast

lemma lcs_len_drop:
  assumes "i < length a" "j < length b"
  shows "lcs_len (drop i a) (drop j b) =
    (if a ! i = b ! j then lcs_len (drop (i + 1) a) (drop (j + 1) b) + 1
     else max (lcs_len (drop (i + 1) a) (drop j b)) (lcs_len (drop i a) (drop (j + 1) b)))"
  using Cons_nth_drop_Suc [OF assms(1), symmetric] Cons_nth_drop_Suc [OF assms(2), symmetric] by simp

lemma lcs_cell_upto:
  assumes "table_upto a b i (Suc j) dp" "i < length a" "j < length b" "length a < 2 ^ 32"
  shows "table_upto a b i j (lcs_cell a b i j dp)"
proof -
  let ?w = "length b + 1"
  have new: "(if a ! i = b ! j then dp ! ((i + 1) * ?w + j + 1) + 1
            else max (dp ! ((i + 1) * ?w + j)) (dp ! (i * ?w + j + 1))) = lcs_len (drop i a) (drop j b)"
    using table_uptoD [OF assms(1), of "i + 1" "j + 1"] table_uptoD [OF assms(1), of "i + 1" j]
      table_uptoD [OF assms(1), of i "j + 1"] assms(2,3) lcs_len_drop [OF assms(2,3)]
    by (simp add: add.assoc)
  have "lcs_len (drop i a) (drop j b) \<le> length a"
    using lcs_len_le [of "drop i a" "drop j b"] by (metis diff_le_self le_trans length_drop)
  then have "lcs_len (drop i a) (drop j b) < 2 ^ 32" using assms(4) by simp
  then have cell: "lcs_cell a b i j dp = dp[i * ?w + j := lcs_len (drop i a) (drop j b)]"
    unfolding lcs_cell_def Let_def new by simp
  have len: "length dp = (length a + 1) * ?w" using assms(1) by (simp add: table_upto_def)
  have lt: "i * ?w + j < length dp"
    unfolding len using assms(2,3) by (intro flat_index_less) simp_all
  show ?thesis
    unfolding table_upto_def cell
  proof (intro conjI allI impI)
    show "length (dp[i * ?w + j := lcs_len (drop i a) (drop j b)]) = (length a + 1) * ?w"
      using len by simp
  next
    fix i' j'
    assume i': "i' \<le> length a" and j': "j' \<le> length b"
      and c: "i < i' \<or> i' = i \<and> j \<le> j' \<or> i' = length a \<or> j' = length b"
    show "dp[i * ?w + j := lcs_len (drop i a) (drop j b)] ! (i' * ?w + j') = lcs_len (drop i' a) (drop j' b)"
    proof (cases "i' = i \<and> j' = j")
      case True
      then show ?thesis using lt by simp
    next
      case False
      then have "i * ?w + j \<noteq> i' * ?w + j'"
        using flat_index_eq [of j ?w j' i i'] j' assms(3) by auto
      moreover have "i < i' \<or> i' = i \<and> Suc j \<le> j' \<or> i' = length a \<or> j' = length b"
        using c False by auto
      ultimately show ?thesis using table_uptoD [OF assms(1) i' j'] by (metis nth_list_update_neq)
    qed
  qed
qed

lemma lcs_row_upto:
  assumes "table_upto a b (Suc i) 0 dp" "i < length a" "length a < 2 ^ 32"
  shows "table_upto a b i 0 (lcs_row a b i dp)"
proof -
  have "Suc i < i' \<or> (i' = Suc i \<and> 0 \<le> j') \<or> i' = length a \<or> j' = length b"
    if "i < i' \<or> (i' = i \<and> length b \<le> j') \<or> i' = length a \<or> j' = length b" "j' \<le> length b" for i' j'
    using that by auto
  then have "table_upto a b i (length b) dp"
    using assms(1) unfolding table_upto_def by blast
  then show ?thesis
    unfolding lcs_row_def by (intro fold_down_inv [where P = "table_upto a b i"] lcs_cell_upto) (use assms in auto)
qed

lemma lcs_table_correct:
  assumes "length a < 2 ^ 32" "i \<le> length a" "j \<le> length b"
  shows "lcs_table a b ! (i * (length b + 1) + j) = lcs_len (drop i a) (drop j b)"
proof -
  let ?z = "replicate ((length a + 1) * (length b + 1)) (0 :: nat)"
  have zero: "?z ! (i' * (length b + 1) + j') = 0" if "i' \<le> length a" "j' \<le> length b" for i' j'
    using flat_index_less [of i' "length a + 1" j' "length b + 1"] that by (intro nth_replicate) simp
  have "table_upto a b (length a) 0 ?z"
    unfolding table_upto_def using zero by (simp del: replicate.simps mult_Suc mult_Suc_right)
  then have "table_upto a b 0 0 (lcs_table a b)"
    unfolding lcs_table_def
    by (intro fold_down_inv [where P = "\<lambda>i. table_upto a b i 0"] lcs_row_upto) (use assms in auto)
  then show ?thesis using assms by (intro table_uptoD) auto
qed

section \<open>The walk through the table\<close>

text \<open>The two documents a list of operations or lines shows, and the positions it numbers.\<close>

definition old_ops :: "lcs_op list \<Rightarrow> lcs_op list" where
  "old_ops ops = filter (\<lambda>q. op_type q \<noteq> Add) ops"

definition new_ops :: "lcs_op list \<Rightarrow> lcs_op list" where
  "new_ops ops = filter (\<lambda>q. op_type q \<noteq> Del) ops"

lemma ops_simps [simp]:
  "old_ops [] = []" "new_ops [] = []"
  "old_ops (q # qs) = (if op_type q = Add then old_ops qs else q # old_ops qs)"
  "new_ops (q # qs) = (if op_type q = Del then new_ops qs else q # new_ops qs)"
  "old_ops (xs @ ys) = old_ops xs @ old_ops ys" "new_ops (xs @ ys) = new_ops xs @ new_ops ys"
  by (simp_all add: old_ops_def new_ops_def)

lemma walk_tail:
  "old_ops (map (\<lambda>i. \<lparr>op_type = Del, op_text = f i, aIndex = Some i, bIndex = None\<rparr>) is) =
     map (\<lambda>i. \<lparr>op_type = Del, op_text = f i, aIndex = Some i, bIndex = None\<rparr>) is"
  "new_ops (map (\<lambda>i. \<lparr>op_type = Del, op_text = f i, aIndex = Some i, bIndex = None\<rparr>) is) = []"
  "new_ops (map (\<lambda>i. \<lparr>op_type = Add, op_text = f i, aIndex = None, bIndex = Some i\<rparr>) is) =
     map (\<lambda>i. \<lparr>op_type = Add, op_text = f i, aIndex = None, bIndex = Some i\<rparr>) is"
  "old_ops (map (\<lambda>i. \<lparr>op_type = Add, op_text = f i, aIndex = None, bIndex = Some i\<rparr>) is) = []"
  by (simp_all add: old_ops_def new_ops_def filter_map comp_def)

lemma upt_step: "i < n \<Longrightarrow> [i..<n] = i # [i + 1..<n]"
  by (simp add: upt_rec)

lemma lcs_walk_old:
  "i \<le> length a \<Longrightarrow> j \<le> length b \<Longrightarrow>
     map (\<lambda>q. (op_text q, aIndex q)) (old_ops (lcs_walk a b dp i j)) = map (\<lambda>i. (a ! i, Some i)) [i..<length a]"
proof (induction a b dp i j rule: lcs_walk.induct)
  case (1 a b dp i j)
  show ?case
  proof (cases "i < length a \<and> j < length b")
    case False
    then show ?thesis using "1.prems"
      by (subst lcs_walk.simps) (auto simp: walk_tail comp_def)
  next
    case True
    have up: "[i..<length a] = i # [i + 1..<length a]" using True by (intro upt_step) simp
    show ?thesis using "1.prems" True "1.IH"
      by (subst lcs_walk.simps) (auto simp: Let_def up)
  qed
qed

lemma lcs_walk_new:
  "i \<le> length a \<Longrightarrow> j \<le> length b \<Longrightarrow>
     map (\<lambda>q. (op_text q, bIndex q)) (new_ops (lcs_walk a b dp i j)) = map (\<lambda>j. (b ! j, Some j)) [j..<length b]"
proof (induction a b dp i j rule: lcs_walk.induct)
  case (1 a b dp i j)
  show ?case
  proof (cases "i < length a \<and> j < length b")
    case False
    then show ?thesis using "1.prems"
      by (subst lcs_walk.simps) (auto simp: walk_tail comp_def)
  next
    case True
    have up: "[j..<length b] = j # [j + 1..<length b]" using True by (intro upt_step) simp
    show ?thesis using "1.prems" True "1.IH"
      by (subst lcs_walk.simps) (auto simp: Let_def up)
  qed
qed

lemma lcs_walk_sides: "q \<in> set (lcs_walk a b dp i j) \<Longrightarrow>
    (op_type q = Add \<longrightarrow> aIndex q = None) \<and> (op_type q = Del \<longrightarrow> bIndex q = None)"
proof (induction a b dp i j rule: lcs_walk.induct)
  case (1 a b dp i j)
  then show ?case by (subst (asm) lcs_walk.simps) (auto simp: Let_def split: if_splits)
qed

definition same_count :: "lcs_op list \<Rightarrow> nat" where
  "same_count ops = length (filter (\<lambda>q. op_type q = Same) ops)"

lemma lcs_walk_same_count:
  "i \<le> length a \<Longrightarrow> j \<le> length b \<Longrightarrow> length a < 2 ^ 32 \<Longrightarrow>
    same_count (lcs_walk a b (lcs_table a b) i j) = lcs_len (drop i a) (drop j b)"
proof (induction a b "lcs_table a b" i j rule: lcs_walk.induct)
  case (1 a b i j)
  note assms = "1.prems"(3)
  have tab: "lcs_table a b ! (i' * (length b + 1) + j') = lcs_len (drop i' a) (drop j' b)"
    if "i' \<le> length a" "j' \<le> length b" for i' j'
    using lcs_table_correct [OF assms] that by blast
  show ?case
  proof (cases "i < length a \<and> j < length b")
    case False
    then show ?thesis using "1.prems"
      by (subst lcs_walk.simps) (auto simp: same_count_def filter_map comp_def)
  next
    case True
    then show ?thesis using "1.prems" "1.hyps" tab [of "i + 1" j] tab [of i "j + 1"]
      by (subst lcs_walk.simps) (auto simp: Let_def same_count_def lcs_len_drop)
  qed
qed

section \<open>Prefix, suffix and the assembled diff\<close>

lemma common_prefix_props:
  "p \<le> length a \<Longrightarrow> p \<le> length b \<Longrightarrow>
     p \<le> common_prefix a b p \<and> common_prefix a b p \<le> length a \<and> common_prefix a b p \<le> length b
     \<and> (\<forall>i. p \<le> i \<and> i < common_prefix a b p \<longrightarrow> a ! i = b ! i)"
proof (induction a b p rule: common_prefix.induct)
  case (1 a b p)
  show ?case
  proof (cases "p < length a \<and> p < length b \<and> a ! p = b ! p")
    case True
    then have eq: "common_prefix a b p = common_prefix a b (p + 1)" by (subst common_prefix.simps) simp
    have "p + 1 \<le> common_prefix a b (p + 1) \<and> common_prefix a b (p + 1) \<le> length a
        \<and> common_prefix a b (p + 1) \<le> length b
        \<and> (\<forall>i. p + 1 \<le> i \<and> i < common_prefix a b (p + 1) \<longrightarrow> a ! i = b ! i)"
      using "1.IH" True by simp
    then show ?thesis unfolding eq using True by (metis Suc_eq_plus1 Suc_leD Suc_leI le_neq_implies_less)
  next
    case False
    then show ?thesis using "1.prems" by (subst (1 2 3 4) common_prefix.simps) auto
  qed
qed

lemma common_suffix_props:
  "s \<le> length a - p \<Longrightarrow> s \<le> length b - p \<Longrightarrow>
     s \<le> common_suffix a b p s \<and> common_suffix a b p s \<le> length a - p \<and> common_suffix a b p s \<le> length b - p
     \<and> (\<forall>i. s \<le> i \<and> i < common_suffix a b p s \<longrightarrow> a ! (length a - 1 - i) = b ! (length b - 1 - i))"
proof (induction a b p s rule: common_suffix.induct)
  case (1 a b p s)
  let ?go = "s < length a - p \<and> s < length b - p \<and> a ! (length a - 1 - s) = b ! (length b - 1 - s)"
  show ?case
  proof (cases ?go)
    case True
    then have eq: "common_suffix a b p s = common_suffix a b p (s + 1)" by (subst common_suffix.simps) simp
    have "s + 1 \<le> common_suffix a b p (s + 1) \<and> common_suffix a b p (s + 1) \<le> length a - p
        \<and> common_suffix a b p (s + 1) \<le> length b - p
        \<and> (\<forall>i. s + 1 \<le> i \<and> i < common_suffix a b p (s + 1) \<longrightarrow> a ! (length a - 1 - i) = b ! (length b - 1 - i))"
      using "1.IH" True by simp
    then show ?thesis unfolding eq using True by (metis Suc_eq_plus1 Suc_leD Suc_leI le_neq_implies_less)
  next
    case False
    then have "common_suffix a b p s = s" by (subst common_suffix.simps) auto
    then show ?thesis using "1.prems" by auto
  qed
qed

text \<open>A document split at the common prefix and suffix.\<close>

definition pre_of :: "string list \<Rightarrow> string list \<Rightarrow> nat" where
  "pre_of a b = common_prefix a b 0"

definition suf_of :: "string list \<Rightarrow> string list \<Rightarrow> nat" where
  "suf_of a b = common_suffix a b (pre_of a b) 0"

definition mid_of :: "string list \<Rightarrow> string list \<Rightarrow> string list \<Rightarrow> string list" where
  "mid_of a b c = slice c (pre_of a b) (length c - suf_of a b)"

lemma pre_of_props:
  "pre_of a b \<le> length a" "pre_of a b \<le> length b" "i < pre_of a b \<Longrightarrow> a ! i = b ! i"
  using common_prefix_props [of 0 a b] by (auto simp: pre_of_def)

lemma suf_of_props:
  "suf_of a b \<le> length a - pre_of a b" "suf_of a b \<le> length b - pre_of a b"
  "i < suf_of a b \<Longrightarrow> a ! (length a - 1 - i) = b ! (length b - 1 - i)"
  using common_suffix_props [of 0 a "pre_of a b" b] by (auto simp: suf_of_def)

lemma suf_of_nth:
  assumes "i < suf_of a b"
  shows "a ! (length a - suf_of a b + i) = b ! (length b - suf_of a b + i)"
proof -
  have "length a - suf_of a b + i = length a - 1 - (suf_of a b - 1 - i)"
    "length b - suf_of a b + i = length b - 1 - (suf_of a b - 1 - i)"
    using assms suf_of_props(1,2) [of a b] pre_of_props(1,2) [of a b] by linarith+
  then show ?thesis using suf_of_props(3) [of "suf_of a b - 1 - i" a b] assms by simp
qed

lemma length_mid_of:
  "length (mid_of a b a) = length a - suf_of a b - pre_of a b"
  "length (mid_of a b b) = length b - suf_of a b - pre_of a b"
  by (simp_all add: mid_of_def slice_def)

lemma nth_mid_of:
  "i < length (mid_of a b c) \<Longrightarrow> mid_of a b c ! i = c ! (pre_of a b + i)"
  by (simp add: mid_of_def slice_def)

lemma split_mid:
  assumes "c = a \<or> c = b"
  shows "c = take (pre_of a b) c @ mid_of a b c @ drop (length c - suf_of a b) c"
proof -
  have "pre_of a b \<le> length c - suf_of a b"
    using assms suf_of_props(1,2) [of a b] pre_of_props(1,2) [of a b] by auto
  then have "mid_of a b c @ drop (length c - suf_of a b) c = drop (pre_of a b) c"
    unfolding mid_of_def slice_def
    by (metis append_take_drop_id drop_drop le_add_diff_inverse2)
  then show ?thesis by simp
qed

lemma take_pre_of: "take (pre_of a b) a = take (pre_of a b) b"
  using pre_of_props(1,2) [of a b] pre_of_props(3) [of _ a b] by (intro nth_take_lemma) auto

lemma drop_suf_of: "drop (length a - suf_of a b) a = drop (length b - suf_of a b) b"
  using suf_of_nth [of _ a b] suf_of_props(1,2) [of a b] by (simp add: list_eq_iff_nth_eq)

lemma upt_shift: "p \<le> m \<Longrightarrow> [p..<m] = map (\<lambda>i. p + i) [0..<m - p]"
  using map_add_upt [of p "m - p"] by (simp add: add.commute)

lemma upt_three:
  assumes "p \<le> m" "m \<le> n"
  shows "[0..<n] = [0..<p] @ map (\<lambda>i. p + i) [0..<m - p] @ map (\<lambda>i. m + i) [0..<n - m]"
proof -
  have "[0..<n] = [0..<p] @ [p..<m] @ [m..<n]"
    using assms upt_add_eq_append [of 0 p "n - p"] upt_add_eq_append [of p m "n - m"] by simp
  with assms show ?thesis using upt_shift [of p m] upt_shift [of m n] by simp
qed

text \<open>The two documents a diff shows.\<close>

definition old_side :: "diff_line list \<Rightarrow> diff_line list" where
  "old_side ls = filter (\<lambda>l. dl_type l \<noteq> Add) ls"

definition new_side :: "diff_line list \<Rightarrow> diff_line list" where
  "new_side ls = filter (\<lambda>l. dl_type l \<noteq> Del) ls"

definition numbered :: "string list \<Rightarrow> (string \<times> nat option) list" where
  "numbered a = map (\<lambda>i. (a ! i, Some (i + 1))) [0..<length a]"

lemma numbered_split:
  assumes "c = a \<or> c = b"
  shows "numbered c =
    map (\<lambda>i. (c ! i, Some (i + 1))) [0..<pre_of a b]
    @ map (\<lambda>i. (mid_of a b c ! i, Some (pre_of a b + i + 1))) [0..<length (mid_of a b c)]
    @ map (\<lambda>i. (c ! (length c - suf_of a b + i), Some (length c - suf_of a b + i + 1))) [0..<suf_of a b]"
proof -
  have le: "pre_of a b \<le> length c - suf_of a b" "suf_of a b \<le> length c"
    using assms suf_of_props(1,2) [of a b] pre_of_props(1,2) [of a b] by auto
  have len: "length (mid_of a b c) = length c - suf_of a b - pre_of a b"
    by (simp add: mid_of_def slice_def)
  have "[0..<length c] = [0..<pre_of a b] @ map (\<lambda>i. pre_of a b + i) [0..<length (mid_of a b c)]
      @ map (\<lambda>i. length c - suf_of a b + i) [0..<suf_of a b]"
    using upt_three [of "pre_of a b" "length c - suf_of a b" "length c"] le len by simp
  then show ?thesis
    by (simp add: numbered_def nth_mid_of cong: map_cong) 
qed

lemma old_side_number_op:
  "old_side (map (number_op p) ops) = map (number_op p) (old_ops ops)"
  "new_side (map (number_op p) ops) = map (number_op p) (new_ops ops)"
  by (simp_all add: old_side_def new_side_def old_ops_def new_ops_def filter_map comp_def number_op_def)

lemma middle_old:
  "map (\<lambda>l. (dl_text l, oldNumber l)) (old_side (middle_lines p x y)) =
     map (\<lambda>i. (x ! i, Some (p + i + 1))) [0..<length x]"
proof (cases "length x * length y > MAX_CELLS")
  case True
  then show ?thesis by (simp add: middle_lines_def old_side_def filter_map comp_def)
next
  case False
  have "map (\<lambda>q. (op_text q, aIndex q)) (old_ops (lcsDiff x y)) = map (\<lambda>i. (x ! i, Some i)) [0..<length x]"
    unfolding lcsDiff_def by (rule lcs_walk_old) simp_all
  then have "map (\<lambda>(t, i). (t, map_option (\<lambda>i. p + i + 1) i))
      (map (\<lambda>q. (op_text q, aIndex q)) (old_ops (lcsDiff x y)))
    = map (\<lambda>i. (x ! i, Some (p + i + 1))) [0..<length x]" by simp
  then show ?thesis using False by (simp add: middle_lines_def old_side_number_op number_op_def comp_def)
qed

lemma middle_new:
  "map (\<lambda>l. (dl_text l, newNumber l)) (new_side (middle_lines p x y)) =
     map (\<lambda>i. (y ! i, Some (p + i + 1))) [0..<length y]"
proof (cases "length x * length y > MAX_CELLS")
  case True
  then show ?thesis by (simp add: middle_lines_def new_side_def filter_map comp_def)
next
  case False
  have "map (\<lambda>q. (op_text q, bIndex q)) (new_ops (lcsDiff x y)) = map (\<lambda>i. (y ! i, Some i)) [0..<length y]"
    unfolding lcsDiff_def by (rule lcs_walk_new) simp_all
  then have "map (\<lambda>(t, i). (t, map_option (\<lambda>i. p + i + 1) i))
      (map (\<lambda>q. (op_text q, bIndex q)) (new_ops (lcsDiff x y)))
    = map (\<lambda>i. (y ! i, Some (p + i + 1))) [0..<length y]" by simp
  then show ?thesis using False by (simp add: middle_lines_def old_side_number_op number_op_def comp_def)
qed

lemma middle_sides:
  "l \<in> set (middle_lines p x y) \<Longrightarrow>
     (dl_type l = Add \<longrightarrow> oldNumber l = None) \<and> (dl_type l = Del \<longrightarrow> newNumber l = None)"
  by (auto simp: middle_lines_def number_op_def lcsDiff_def dest: lcs_walk_sides split: if_splits)

text \<open>The lines of a diff of two different documents.\<close>

definition diff_lines_of :: "string list \<Rightarrow> string list \<Rightarrow> diff_line list" where
  "diff_lines_of a b =
     map (\<lambda>i. same_line a i i) [0..<pre_of a b] @ middle_lines (pre_of a b) (mid_of a b a) (mid_of a b b)
     @ map (\<lambda>i. same_line a (length a - suf_of a b + i) (length b - suf_of a b + i)) [0..<suf_of a b]"

lemma diffLines_neq:
  assumes "oldText \<noteq> newText" and "a = text_lines oldText" and "b = text_lines newText"
  shows "diffLines oldText newText =
    \<lparr>dr_lines = diff_lines_of a b,
     added = count_type Add (middle_lines (pre_of a b) (mid_of a b a) (mid_of a b b)),
     removed = count_type Del (middle_lines (pre_of a b) (mid_of a b a) (mid_of a b b)),
     unchanged = length (diff_lines_of a b)
       - count_type Add (middle_lines (pre_of a b) (mid_of a b a) (mid_of a b b))
       - count_type Del (middle_lines (pre_of a b) (mid_of a b a) (mid_of a b b)),
     truncated = length (mid_of a b a) * length (mid_of a b b) > MAX_CELLS\<rparr>"
  using assms by (simp add: diffLines_def Let_def diff_lines_of_def pre_of_def suf_of_def mid_of_def)

lemma same_line_fields [simp]:
  "dl_type (same_line a i j) = Same" "dl_text (same_line a i j) = a ! i"
  "oldNumber (same_line a i j) = Some (i + 1)" "newNumber (same_line a i j) = Some (j + 1)"
  by (simp_all add: same_line_def)

lemma same_line_sides:
  "old_side (map (\<lambda>i. same_line a (f i) (g i)) is) = map (\<lambda>i. same_line a (f i) (g i)) is"
  "new_side (map (\<lambda>i. same_line a (f i) (g i)) is) = map (\<lambda>i. same_line a (f i) (g i)) is"
  "count_type t (map (\<lambda>i. same_line a (f i) (g i)) is) = (if t = Same then length is else 0)"
  by (simp_all add: old_side_def new_side_def count_type_def filter_map comp_def)

lemma side_append:
  "old_side (xs @ ys) = old_side xs @ old_side ys" "new_side (xs @ ys) = new_side xs @ new_side ys"
  "count_type t (xs @ ys) = count_type t xs + count_type t ys"
  by (simp_all add: old_side_def new_side_def count_type_def)

lemma diff_lines_of_old:
  "map (\<lambda>l. (dl_text l, oldNumber l)) (old_side (diff_lines_of a b)) = numbered a"
  using numbered_split [of a a b] middle_old
  by (simp add: diff_lines_of_def side_append same_line_sides comp_def)

lemma diff_lines_of_new:
  "map (\<lambda>l. (dl_text l, newNumber l)) (new_side (diff_lines_of a b)) = numbered b"
proof -
  have "map (\<lambda>i. (a ! i, Some (i + 1))) [0..<pre_of a b] = map (\<lambda>i. (b ! i, Some (i + 1))) [0..<pre_of a b]"
    using pre_of_props(3) by simp
  moreover have "map (\<lambda>i. (a ! (length a - suf_of a b + i), Some (length b - suf_of a b + i + 1))) [0..<suf_of a b]
     = map (\<lambda>i. (b ! (length b - suf_of a b + i), Some (length b - suf_of a b + i + 1))) [0..<suf_of a b]"
    using suf_of_nth [of _ a b] by simp
  ultimately show ?thesis
    using numbered_split [of b a b] middle_new
    by (simp add: diff_lines_of_def side_append same_line_sides comp_def)
qed

lemma count_types: "length ls = count_type Same ls + count_type Add ls + count_type Del ls"
proof (induction ls)
  case (Cons l ls)
  then show ?case by (cases "dl_type l") (auto simp: count_type_def)
qed (simp add: count_type_def)

section \<open>What a collapsed list stands for\<close>

text \<open>
  A display row stands for lines of the diff: a plain row for its line, a collapsed row for \<open>count\<close>
  unchanged lines, at least two, the first of which carries the two line numbers the row records.
\<close>

definition number_or_0 :: "nat option \<Rightarrow> nat" where
  "number_or_0 n = (case n of None \<Rightarrow> 0 | Some k \<Rightarrow> k)"

fun stands_for :: "display_row list \<Rightarrow> diff_line list \<Rightarrow> bool" where
  "stands_for [] ls \<longleftrightarrow> ls = []"
| "stands_for (Line l # rs) ls \<longleftrightarrow> ls \<noteq> [] \<and> hd ls = l \<and> stands_for rs (tl ls)"
| "stands_for (Collapsed c fo fn # rs) ls \<longleftrightarrow>
     2 \<le> c \<and> c \<le> length ls \<and> (\<forall>l \<in> set (take c ls). dl_type l = Same)
     \<and> fo = number_or_0 (oldNumber (hd ls)) \<and> fn = number_or_0 (newNumber (hd ls))
     \<and> stands_for rs (drop c ls)"

lemma stands_for_append:
  "stands_for rs xs \<Longrightarrow> stands_for rs' ys \<Longrightarrow> stands_for (rs @ rs') (xs @ ys)"
  by (induction rs xs rule: stands_for.induct) (auto simp: hd_append)

lemma stands_for_lines [simp]: "stands_for (map Line xs) xs"
  by (induction xs) auto

lemma stands_for_collapsed:
  "2 \<le> length xs \<Longrightarrow> \<forall>l \<in> set xs. dl_type l = Same \<Longrightarrow>
     stands_for [Collapsed (length xs) (number_or_0 (oldNumber (hd xs))) (number_or_0 (newNumber (hd xs)))] xs"
  by simp

definition run_ok :: "diff_line list \<Rightarrow> nat \<Rightarrow> collapse_state \<Rightarrow> bool" where
  "run_ok ls i st \<longleftrightarrow>
     runLength st \<le> i \<and> (0 < runLength st \<longrightarrow> runStart st = int (i - runLength st))
     \<and> stands_for (rows st) (take (i - runLength st) ls)
     \<and> (\<forall>k. i - runLength st \<le> k \<and> k < i \<longrightarrow> dl_type (ls ! k) = Same)"

lemma flush_run_ok:
  assumes "run_ok ls i st" "i \<le> length ls"
  shows "stands_for (rows (flush_run ls context st)) (take i ls) \<and> runLength (flush_run ls context st) = 0"
proof (cases "runLength st = 0")
  case True
  then show ?thesis using assms by (simp add: flush_run_def run_ok_def)
next
  case False
  define r where "r = runLength st"
  define run where "run = map (run_line ls st) [0..<r]"
  have r: "0 < r" "r \<le> i" "runStart st = int (i - r)" "stands_for (rows st) (take (i - r) ls)"
    using assms(1) False by (auto simp: run_ok_def r_def)
  have line: "run_line ls st k = ls ! (i - r + k)" for k
    by (simp add: run_line_def r(3) nat_add_distrib flip: of_nat_add)
  have tk: "take i ls = take (i - r) ls @ run"
    using r assms(2) by (auto simp: run_def line list_eq_iff_nth_eq nth_append)
  have same: "dl_type (run_line ls st k) = Same" if "k < r" for k
  proof -
    have "\<forall>j. i - r \<le> j \<and> j < i \<longrightarrow> dl_type (ls ! j) = Same"
      using assms(1) by (simp add: run_ok_def r_def)
    moreover have "i - r \<le> i - r + k \<and> i - r + k < i" using that r by auto
    ultimately show ?thesis unfolding line by blast
  qed
  have "stands_for (drop (length (rows st)) (rows (flush_run ls context st))) run"
  proof (cases "r \<le> context * 2 + 1")
    case True
    then have "drop (length (rows st)) (rows (flush_run ls context st)) = map Line run"
      using False by (simp add: flush_run_def run_def r_def comp_def)
    then show ?thesis by simp
  next
    case long: False
    let ?a = "map (run_line ls st) [0..<context]"
    let ?m = "map (run_line ls st) [context..<r - context]"
    let ?z = "map (run_line ls st) [r - context..<r]"
    have "[0..<r] = [0..<context] @ [context..<r - context] @ [r - context..<r]"
      using long upt_add_eq_append [of 0 "context" "r - context"]
        upt_add_eq_append [of "context" "r - context" "context"] by simp
    then have run: "run = ?a @ ?m @ ?z" by (simp add: run_def)
    have m: "2 \<le> length ?m" "\<forall>l \<in> set ?m. dl_type l = Same" "hd ?m = run_line ls st context"
      "length ?m = r - context * 2"
      using long same by (auto simp: hd_map)
    have d: "drop (length (rows st)) (rows (flush_run ls context st)) =
        map Line ?a @ [Collapsed (length ?m) (number_or_0 (oldNumber (hd ?m))) (number_or_0 (newNumber (hd ?m)))]
        @ map Line ?z"
      using False long m(3,4) by (simp add: flush_run_def r_def Let_def number_or_0_def comp_def)
    show ?thesis
      unfolding d run by (intro stands_for_append stands_for_lines stands_for_collapsed m(1,2))
  qed
  moreover have "rows (flush_run ls context st) = rows st @ drop (length (rows st)) (rows (flush_run ls context st))"
    using False by (simp add: flush_run_def)
  ultimately have "stands_for (rows (flush_run ls context st)) (take i ls)"
    unfolding tk using r(4) stands_for_append by metis
  then show ?thesis using False by (simp add: flush_run_def)
qed

lemma collapse_step_ok:
  assumes "i < length ls" "run_ok ls i st"
  shows "run_ok ls (Suc i) (collapse_step ls context i st)"
proof (cases "dl_type (ls ! i) = Same")
  case True
  then show ?thesis using assms
    by (auto simp: collapse_step_def run_ok_def Suc_diff_le less_Suc_eq)
next
  case False
  define st' where "st' = flush_run ls context st"
  have st': "stands_for (rows st') (take i ls)" "runLength st' = 0"
    using flush_run_ok [OF assms(2)] assms(1) by (auto simp: st'_def)
  have "stands_for (rows st' @ [Line (ls ! i)]) (take i ls @ [ls ! i])"
    using st'(1) by (intro stands_for_append) simp_all
  then show ?thesis
    using False st' assms(1)
    by (auto simp: collapse_step_def run_ok_def st'_def [symmetric] take_Suc_conv_app_nth)
qed

lemma diffLines_count_types:
  "let r = diffLines oldText newText in
     added r = count_type Add (dr_lines r) \<and> removed r = count_type Del (dr_lines r)
     \<and> unchanged r = count_type Same (dr_lines r) \<and> added r + removed r \<le> length (dr_lines r)"
proof (cases "oldText = newText")
  case True
  then show ?thesis by (simp add: diffLines_def Let_def same_line_sides)
next
  case False
  let ?a = "text_lines oldText" and ?b = "text_lines newText"
  have "count_type t (diff_lines_of ?a ?b) = count_type t (middle_lines (pre_of ?a ?b) (mid_of ?a ?b ?a) (mid_of ?a ?b ?b))"
    if "t \<noteq> Same" for t
    using that by (simp add: diff_lines_of_def side_append same_line_sides)
  then show ?thesis
    using diffLines_neq [OF False refl refl] count_types [of "diff_lines_of ?a ?b"] by (simp add: Let_def)
qed

section \<open>Properties\<close>

text \<open>
  A diff shows both documents in full, truncated or not: the lines that are not additions are
  the old document's lines numbered from 1, those that are not deletions are the new document's,
  an addition carries no old number and a deletion no new one.
\<close>

theorem diffLines_both_documents:
  "map (\<lambda>l. (dl_text l, oldNumber l)) (old_side (dr_lines (diffLines oldText newText))) = numbered (text_lines oldText)
   \<and> map (\<lambda>l. (dl_text l, newNumber l)) (new_side (dr_lines (diffLines oldText newText))) = numbered (text_lines newText)
   \<and> list_all (\<lambda>l. (dl_type l = Add) = (oldNumber l = None) \<and> (dl_type l = Del) = (newNumber l = None))
       (dr_lines (diffLines oldText newText))"
proof (cases "oldText = newText")
  case True
  then show ?thesis
    by (simp add: diffLines_def Let_def same_line_sides numbered_def comp_def list_all_iff)
next
  case False
  let ?ls = "diff_lines_of (text_lines oldText) (text_lines newText)"
  have ls: "dr_lines (diffLines oldText newText) = ?ls" using diffLines_neq [OF False refl refl] by simp
  have old: "(dl_text l, oldNumber l) \<in> set (numbered (text_lines oldText))"
    if "l \<in> set ?ls" "dl_type l \<noteq> Add" for l
  proof -
    have "(dl_text l, oldNumber l) \<in> set (map (\<lambda>l. (dl_text l, oldNumber l)) (old_side ?ls))"
      using that by (simp add: old_side_def)
    then show ?thesis by (simp only: diff_lines_of_old)
  qed
  have new: "(dl_text l, newNumber l) \<in> set (numbered (text_lines newText))"
    if "l \<in> set ?ls" "dl_type l \<noteq> Del" for l
  proof -
    have "(dl_text l, newNumber l) \<in> set (map (\<lambda>l. (dl_text l, newNumber l)) (new_side ?ls))"
      using that by (simp add: new_side_def)
    then show ?thesis by (simp only: diff_lines_of_new)
  qed
  have "dl_type l = Add \<longrightarrow> oldNumber l = None" "dl_type l = Del \<longrightarrow> newNumber l = None" if "l \<in> set ?ls" for l
    using that middle_sides by (auto simp: diff_lines_of_def)
  with old new have "list_all (\<lambda>l. (dl_type l = Add) = (oldNumber l = None) \<and> (dl_type l = Del) = (newNumber l = None)) ?ls"
    by (fastforce simp: list_all_iff numbered_def)
  then show ?thesis using ls diff_lines_of_old diff_lines_of_new by simp
qed

text \<open>
  The counts a diff reports are the numbers of its added, removed and unchanged lines, and the
  subtraction that computes \<open>unchanged\<close> never goes below zero.
\<close>

theorem diffLines_counts:
  "let r = diffLines oldText newText in
     added r = count_type Add (dr_lines r) \<and> removed r = count_type Del (dr_lines r)
     \<and> unchanged r = count_type Same (dr_lines r) \<and> added r + removed r \<le> length (dr_lines r)"
  by (rule diffLines_count_types)

text \<open>
  (C22) A diff that is not truncated is minimal: the number of lines it reports as unchanged is the
  length of a longest common subsequence of the two documents, so no diff keeps more lines.
\<close>

theorem diffLines_minimal:
  assumes "\<not> truncated (diffLines oldText newText)"
    and "length (text_lines oldText) < 2 ^ 32"
  shows "(\<exists>zs. subseq zs (text_lines oldText) \<and> subseq zs (text_lines newText)
            \<and> length zs = unchanged (diffLines oldText newText))
       \<and> (\<forall>zs. subseq zs (text_lines oldText) \<and> subseq zs (text_lines newText)
            \<longrightarrow> length zs \<le> unchanged (diffLines oldText newText))"
proof -
  let ?a = "text_lines oldText" and ?b = "text_lines newText"
  have "unchanged (diffLines oldText newText) = lcs_len ?a ?b"
  proof (cases "oldText = newText")
    case True
    have "lcs_len ?a ?a = length ?a" using lcs_len_same_prefix [of ?a "[]" "[]"] by simp
    then show ?thesis using True by (simp add: diffLines_def Let_def)
  next
    case False
    let ?p = "pre_of ?a ?b" and ?s = "suf_of ?a ?b"
    let ?x = "mid_of ?a ?b ?a" and ?y = "mid_of ?a ?b ?b"
    note split = split_mid [of ?a ?a ?b] split_mid [of ?b ?a ?b]
    have cells: "\<not> length ?x * length ?y > MAX_CELLS"
      using assms(1) diffLines_neq [OF False refl refl] by simp
    have "length ?x < 2 ^ 32" using assms(2) length_mid_of(1) [of ?a ?b] by simp
    then have mid: "same_count (lcsDiff ?x ?y) = lcs_len ?x ?y"
      using lcs_walk_same_count [of 0 ?x 0 ?y] by (simp add: lcsDiff_def)
    have "unchanged (diffLines oldText newText) = count_type Same (diff_lines_of ?a ?b)"
      using diffLines_count_types [of oldText newText, unfolded Let_def]
      unfolding diffLines_neq [OF False refl refl] diff_result.simps by blast
    also have "\<dots> = ?p + lcs_len ?x ?y + ?s"
      using cells mid
      by (simp add: diff_lines_of_def side_append same_line_sides middle_lines_def count_type_def
          number_op_def filter_map comp_def same_count_def)
    also have "\<dots> = lcs_len (take ?p ?a @ ?x @ drop (length ?a - ?s) ?a) (take ?p ?b @ ?y @ drop (length ?b - ?s) ?b)"
      using pre_of_props(1,2) [of ?a ?b] suf_of_props(1,2) [of ?a ?b]
      by (simp add: take_pre_of drop_suf_of lcs_len_same_prefix lcs_len_same_suffix)
    finally show ?thesis using split by simp
  qed
  then show ?thesis using lcs_len_witness [of ?a ?b] lcs_len_upper by metis
qed

text \<open>On two small documents the diff is computed in full and keeps a longest common subsequence.\<close>

lemma diffLines_minimal_witness:
  "\<not> truncated (diffLines ''a'' ''b'') \<and> length (text_lines ''a'') < 2 ^ 32
   \<and> (\<exists>zs. subseq zs (text_lines ''a'') \<and> subseq zs (text_lines ''b'')
        \<and> length zs = unchanged (diffLines ''a'' ''b''))"
proof -
  have "common_prefix [''a''] [''b''] 0 = 0" "common_suffix [''a''] [''b''] 0 0 = 0"
    by (subst common_prefix.simps common_suffix.simps, simp)+
  then have "\<not> truncated (diffLines ''a'' ''b'')"
    by (simp add: diffLines_def text_lines_def Let_def MAX_CELLS_def slice_def)
  moreover have "length (text_lines ''a'') < 2 ^ 32" by (simp add: text_lines_def)
  ultimately show ?thesis using diffLines_minimal [of "''a''" "''b''"] by blast
qed

text \<open>
  Collapsing hides nothing but unchanged lines: the rows stand, in order, for exactly the lines
  of the diff, every changed line keeps its own row, and a collapsed row stands for the \<open>count\<close>
  unchanged lines that begin at the line numbers it records.
\<close>

theorem collapseUnchanged_stands_for: "stands_for (collapseUnchanged ls context) ls"
proof -
  let ?st = "fold (collapse_step ls context) [0..<length ls] \<lparr>rows = [], runStart = - 1, runLength = 0\<rparr>"
  have "run_ok ls 0 \<lparr>rows = [], runStart = - 1, runLength = 0\<rparr>" by (simp add: run_ok_def)
  then have "run_ok ls (length ls) ?st"
    by (intro fold_up_inv [where P = "run_ok ls"] collapse_step_ok)
  then show ?thesis
    using flush_run_ok [of ls "length ls" ?st "context"] by (simp add: collapseUnchanged_def)
qed

end
