(* ===== verification/Storage_Types.thy ===== *)
theory Storage_Types
  imports Paths
begin

text \<open>
  The storage primitives of \<open>packages/storage/src/types.ts\<close>: directory entries, file stats, change
  events, options, and the \<open>StorageBackend\<close> interface as a record of operations over a state
  \<open>'s\<close>. Text is stored as UTF-8; the encoder and the decoder of the platform are written out for
  the model's alphabet.

  The locale \<open>storage_backend\<close> is the contract every client relies on: the state abstracts to a
  finite tree of nodes addressed by path segments, and each operation is specified on that tree,
  errors included.
\<close>

section \<open>Data\<close>

type_synonym bytes = "8 word list"

record dir_entry =
  de_name :: string
  isDirectory :: bool
  isFile :: bool
  isSymlink :: bool

record file_stat =
  st_size :: nat
  st_mtime :: "nat option"
  st_birthtime :: "nat option"

datatype change_kind = Created | Written | Deleted | Renamed

datatype change_origin = Local | Sync | External

record change_event =
  ev_path :: string
  ev_kind :: change_kind
  ev_origin :: change_origin
  oldPath :: "string option"

text \<open>An option that the caller leaves out is \<open>None\<close>.\<close>

record backend_options =
  baseDir :: "nat option"
  keepVersion :: "bool option"
  opt_recursive :: "bool option"
  opt_origin :: "change_origin option"

definition no_options :: backend_options where
  "no_options = \<lparr>baseDir = None, keepVersion = None, opt_recursive = None, opt_origin = None\<rparr>"

abbreviation recursively :: backend_options where
  "recursively \<equiv> no_options\<lparr>opt_recursive := Some True\<rparr>"

text \<open>\<open>options?.origin ?? 'local'\<close> and the truthiness of \<open>options?.recursive\<close>.\<close>

definition origin_of :: "backend_options \<Rightarrow> change_origin" where
  "origin_of options = (case opt_origin options of Some og \<Rightarrow> og | None \<Rightarrow> Local)"

definition is_recursive :: "backend_options \<Rightarrow> bool" where
  "is_recursive options = (opt_recursive options = Some True)"

lemma is_recursive_simps [simp]:
  "is_recursive recursively" "\<not> is_recursive no_options"
  "is_recursive (options\<lparr>keepVersion := k\<rparr>) = is_recursive options"
  "is_recursive (options\<lparr>opt_origin := og\<rparr>) = is_recursive options"
  by (simp_all add: is_recursive_def no_options_def)

text \<open>
  \<open>StorageBackend\<close>: every method takes its arguments and the options and acts on the state. The
  subscription \<open>onDidChange\<close> is modelled in the theory of the change events.
\<close>

record 's backend =
  be_name :: string
  readDir :: "string \<Rightarrow> backend_options \<Rightarrow> ('s, dir_entry list) act"
  readTextFile :: "string \<Rightarrow> backend_options \<Rightarrow> ('s, string) act"
  readFile :: "string \<Rightarrow> backend_options \<Rightarrow> ('s, bytes) act"
  writeTextFile :: "string \<Rightarrow> string \<Rightarrow> backend_options \<Rightarrow> ('s, unit) act"
  writeFile :: "string \<Rightarrow> bytes \<Rightarrow> backend_options \<Rightarrow> ('s, unit) act"
  mkdir :: "string \<Rightarrow> backend_options \<Rightarrow> ('s, unit) act"
  rename :: "string \<Rightarrow> string \<Rightarrow> backend_options \<Rightarrow> ('s, unit) act"
  remove_path :: "string \<Rightarrow> backend_options \<Rightarrow> ('s, unit) act"
  stat :: "string \<Rightarrow> backend_options \<Rightarrow> ('s, file_stat) act"
  exists_path :: "string \<Rightarrow> backend_options \<Rightarrow> ('s, bool) act"

record file_version =
  fv_id :: string
  fv_timestamp :: nat
  fv_size :: nat

section \<open>Text as bytes\<close>

text \<open>
  \<open>TextEncoder\<close>: UTF-8, one byte below U+0080 and two bytes up to U+00FF.
  \<open>TextDecoder\<close>: the same read back. A byte that does not begin such a sequence decodes to a
  character outside the alphabet of the model (a higher code point or U+FFFD), for which U+001A
  stands.
\<close>

definition utf8_char :: "char \<Rightarrow> bytes" where
  "utf8_char c =
     (let n = (of_char c :: nat) in
      if n < 128 then [word_of_nat n] else [word_of_nat (192 + n div 64), word_of_nat (128 + n mod 64)])"

definition utf8_encode :: "string \<Rightarrow> bytes" where
  "utf8_encode s = concat (map utf8_char s)"

fun utf8_decode :: "bytes \<Rightarrow> string" where
  "utf8_decode [] = []"
| "utf8_decode [b] = [if unat b < 128 then char_of (unat b) else CHR 0x1A]"
| "utf8_decode (b # b' # bs) =
     (if unat b < 128 then char_of (unat b) # utf8_decode (b' # bs)
      else if (unat b = 194 \<or> unat b = 195) \<and> 128 \<le> unat b' \<and> unat b' < 192
      then char_of ((unat b - 192) * 64 + (unat b' - 128)) # utf8_decode bs
      else CHR 0x1A # utf8_decode (b' # bs))"

lemma unat_byte: "m < 256 \<Longrightarrow> unat (word_of_nat m :: 8 word) = m"
  by (simp add: unat_of_nat)

lemma utf8_decode_char: "utf8_decode (utf8_char c @ bs) = c # utf8_decode bs"
proof -
  define n where "n = (of_char c :: nat)"
  have n: "n < 256" "char_of n = c" by (simp_all add: n_def)
  show ?thesis
  proof (cases "n < 128")
    case True
    then have "unat (word_of_nat n :: 8 word) = n" by (simp add: unat_of_nat)
    then show ?thesis using True n(2) by (cases bs) (simp_all add: utf8_char_def flip: n_def)
  next
    case False
    have d: "n div 64 = 2 \<or> n div 64 = 3" using False n(1) by auto
    have "unat (word_of_nat (192 + n div 64) :: 8 word) = 192 + n div 64"
      using d by (intro unat_byte) auto
    moreover have "unat (word_of_nat (128 + n mod 64) :: 8 word) = 128 + n mod 64"
      by (intro unat_byte) simp
    moreover have "n div 64 * 64 + n mod 64 = n" by simp
    moreover have "n mod 64 < 64" by simp
    ultimately show ?thesis
      using False d n(2) by (auto simp: utf8_char_def simp del: of_nat_add simp flip: n_def)
  qed
qed

lemma utf8_decode_encode [simp]: "utf8_decode (utf8_encode s) = s"
proof (induction s)
  case (Cons c s)
  then show ?case using utf8_decode_char [of c "utf8_encode s"] by (simp add: utf8_encode_def)
qed (simp add: utf8_encode_def)

lemma utf8_encode_inj [simp]: "utf8_encode s = utf8_encode t \<longleftrightarrow> s = t"
  by (metis utf8_decode_encode)

end
