(* ===== verification/Backend_Spec.thy ===== *)
theory Backend_Spec
  imports Storage_Types
begin

text \<open>
  The contract of a \<open>StorageBackend\<close>. A store abstracts to a finite tree of nodes addressed by path
  segments; the functions here say what each operation does to the tree and with which code it
  fails, and the locale \<open>storage_backend\<close> collects them as the laws a backend promises. Clients
  (versioning, the sync engine, the note operations) are verified against the locale only.
\<close>

section \<open>Trees\<close>

datatype node = FileN bytes | DirN

type_synonym tree = "string list \<Rightarrow> node option"

definition tree_ok :: "tree \<Rightarrow> bool" where
  "tree_ok t \<longleftrightarrow> finite (dom t) \<and> t [] = Some DirN
     \<and> (\<forall>ss. t ss \<noteq> None \<longrightarrow> segs_ok ss \<and> (ss \<noteq> [] \<longrightarrow> t (butlast ss) = Some DirN))"

definition node_size :: "node \<Rightarrow> nat" where
  "node_size n = (case n of FileN b \<Rightarrow> length b | DirN \<Rightarrow> 0)"

definition entry_for :: "string \<Rightarrow> node \<Rightarrow> dir_entry" where
  "entry_for nm n = \<lparr>de_name = nm, isDirectory = (n = DirN), isFile = (n \<noteq> DirN), isSymlink = False\<rparr>"

definition mkdirs :: "string list \<Rightarrow> tree \<Rightarrow> tree" where
  "mkdirs ss t = (\<lambda>q. if prefix q ss then Some DirN else t q)"

definition remove_tree :: "string list \<Rightarrow> tree \<Rightarrow> tree" where
  "remove_tree ss t = (\<lambda>q. if prefix ss q then None else t q)"

definition move_tree :: "string list \<Rightarrow> string list \<Rightarrow> tree \<Rightarrow> tree" where
  "move_tree a b t = (\<lambda>q. if prefix b q then t (a @ drop (length b) q) else if prefix a q then None else t q)"

lemma apart_prefix: "\<not> prefix ps a \<Longrightarrow> \<not> prefix a ps \<Longrightarrow> \<not> prefix ps (a @ b)"
  using prefix_same_cases [of ps "a @ b" a] by auto

lemma segs_ok_prefix: "segs_ok ss \<Longrightarrow> prefix q ss \<Longrightarrow> segs_ok q"
  by (auto simp: prefix_def)

lemma tree_okD:
  assumes "tree_ok t"
  shows "finite (dom t)" "t [] = Some DirN" "t ss = Some n \<Longrightarrow> segs_ok ss"
    "t ss = Some n \<Longrightarrow> ss \<noteq> [] \<Longrightarrow> t (butlast ss) = Some DirN"
  using assms by (auto simp: tree_ok_def)

lemma tree_ok_prefix:
  assumes "tree_ok t" "t (p @ q) = Some n" "q \<noteq> []"
  shows "t p = Some DirN"
  using assms(2,3)
proof (induction q arbitrary: n rule: rev_induct)
  case (snoc x q)
  then have "t (p @ q) = Some DirN" using tree_okD(4) [OF assms(1), of "p @ q @ [x]"] by (simp add: butlast_append)
  with snoc.IH show ?case by (cases "q = []") auto
qed simp

lemma tree_ok_under_file:
  assumes "tree_ok t" "t p = Some (FileN b)" "strict_prefix p q"
  shows "t q = None"
proof (rule ccontr)
  assume "t q \<noteq> None"
  then obtain n where "t q = Some n" by blast
  moreover obtain z where "q = p @ z" "z \<noteq> []" using assms(3) by (auto simp: strict_prefix_def prefix_def)
  ultimately show False using tree_ok_prefix [OF assms(1)] assms(2) by fastforce
qed

lemma tree_ok_under_none:
  assumes "tree_ok t" "t p = None" "prefix p q"
  shows "t q = None"
proof (rule ccontr)
  assume "t q \<noteq> None"
  then obtain n where "t q = Some n" by blast
  moreover obtain z where "q = p @ z" using assms(3) by (auto simp: prefix_def)
  ultimately show False using tree_ok_prefix [OF assms(1)] assms(2) by (cases "z = []") fastforce+
qed

lemma tree_ok_update:
  assumes "tree_ok t" "segs_ok ss" "ss \<noteq> []" "t (butlast ss) = Some DirN" "n \<noteq> DirN \<longrightarrow> t ss \<noteq> Some DirN"
  shows "tree_ok (t(ss \<mapsto> n))"
  unfolding tree_ok_def
proof (intro conjI allI impI)
  show "finite (dom (t(ss \<mapsto> n)))" using tree_okD(1) [OF assms(1)] by simp
  show "(t(ss \<mapsto> n)) [] = Some DirN" using assms(3) tree_okD(2) [OF assms(1)] by simp
  fix q
  assume q: "(t(ss \<mapsto> n)) q \<noteq> None"
  show "segs_ok q" using q assms(2) tree_okD(3) [OF assms(1)] by (auto split: if_splits)
  assume ne: "q \<noteq> []"
  have "butlast ss \<noteq> ss" using assms(3) by (metis append_butlast_last_id append_self_conv list.distinct(1))
  then show "(t(ss \<mapsto> n)) (butlast q) = Some DirN"
    using q ne assms(4,5) tree_okD(4) [OF assms(1), of q] by (auto split: if_splits)
qed

lemma tree_ok_remove:
  assumes "tree_ok t" "ss \<noteq> []"
  shows "tree_ok (remove_tree ss t)"
  unfolding tree_ok_def
proof (intro conjI allI impI)
  show "finite (dom (remove_tree ss t))"
    by (rule finite_subset [OF _ tree_okD(1) [OF assms(1)]]) (auto simp: remove_tree_def split: if_splits)
  show "remove_tree ss t [] = Some DirN" using assms tree_okD(2) by (simp add: remove_tree_def)
  fix q
  assume q: "remove_tree ss t q \<noteq> None"
  then have np: "\<not> prefix ss q" "t q \<noteq> None" by (auto simp: remove_tree_def split: if_splits)
  then show "segs_ok q" using tree_okD(3) [OF assms(1)] by blast
  assume "q \<noteq> []"
  moreover have "\<not> prefix ss (butlast q)"
    using np(1) by (metis prefix_order.trans prefixeq_butlast)
  ultimately show "remove_tree ss t (butlast q) = Some DirN"
    using np(2) tree_okD(4) [OF assms(1)] by (auto simp: remove_tree_def)
qed

lemma tree_ok_mkdirs:
  assumes "tree_ok t" "segs_ok ss" "\<forall>q. prefix q ss \<longrightarrow> t q = None \<or> t q = Some DirN"
  shows "tree_ok (mkdirs ss t)"
  unfolding tree_ok_def
proof (intro conjI allI impI)
  have "dom (mkdirs ss t) \<subseteq> dom t \<union> set (prefixes ss)"
    by (auto simp: mkdirs_def split: if_splits)
  then show "finite (dom (mkdirs ss t))" using tree_okD(1) [OF assms(1)] finite_subset by blast
  show "mkdirs ss t [] = Some DirN" by (simp add: mkdirs_def)
  fix q
  assume q: "mkdirs ss t q \<noteq> None"
  show "segs_ok q"
    using q assms(2) tree_okD(3) [OF assms(1)]
    by (auto simp: mkdirs_def intro: segs_ok_prefix split: if_splits)
  assume "q \<noteq> []"
  then show "mkdirs ss t (butlast q) = Some DirN"
    using q tree_okD(4) [OF assms(1), of q]
    by (auto simp: mkdirs_def split: if_splits) (meson prefix_order.trans prefixeq_butlast)
qed

lemma mkdirs_step:
  assumes "t q = None" "\<forall>p. strict_prefix p q \<longrightarrow> t p = Some DirN"
  shows "mkdirs q t = t(q \<mapsto> DirN)"
  using assms by (auto simp: mkdirs_def fun_eq_iff strict_prefix_def)

lemma move_tree_eq_self: "tree_ok t \<Longrightarrow> t b = None \<Longrightarrow> \<not> prefix b q \<Longrightarrow> \<not> prefix a q \<Longrightarrow> move_tree a b t q = t q"
  by (simp add: move_tree_def)

lemma tree_ok_move:
  assumes t: "tree_ok t" and a: "a \<noteq> []" and b: "segs_ok b" "b \<noteq> []"
    and ab: "\<not> prefix a b" and src: "t a \<noteq> None" and dst: "t b = None" and parent: "t (butlast b) = Some DirN"
  shows "tree_ok (move_tree a b t)"
  unfolding tree_ok_def
proof (intro conjI allI impI)
  have "dom (move_tree a b t) \<subseteq> dom t \<union> (\<lambda>q. b @ drop (length a) q) ` dom t"
  proof
    fix q assume "q \<in> dom (move_tree a b t)"
    then obtain n where n: "move_tree a b t q = Some n" by blast
    show "q \<in> dom t \<union> (\<lambda>q. b @ drop (length a) q) ` dom t"
    proof (cases "prefix b q")
      case True
      then have "t (a @ drop (length b) q) = Some n" "q = b @ drop (length b) q"
        using n by (auto simp: move_tree_def prefix_def)
      then show ?thesis by (intro UnI2 image_eqI [where x = "a @ drop (length b) q"]) auto
    next
      case False
      then show ?thesis using n by (auto simp: move_tree_def split: if_splits)
    qed
  qed
  then show "finite (dom (move_tree a b t))"
    using tree_okD(1) [OF t] by (meson finite_UnI finite_imageI finite_subset)
  show "move_tree a b t [] = Some DirN"
    using a b tree_okD(2) [OF t] by (simp add: move_tree_def)
  fix q
  assume q: "move_tree a b t q \<noteq> None"
  show "segs_ok q"
  proof (cases "prefix b q")
    case True
    then obtain z where z: "q = b @ z" by (auto simp: prefix_def)
    then have "t (a @ z) \<noteq> None" using q by (simp add: move_tree_def)
    then show ?thesis using tree_okD(3) [OF t] b(1) z by fastforce
  next
    case False
    then show ?thesis using q tree_okD(3) [OF t] by (auto simp: move_tree_def split: if_splits)
  qed
  assume ne: "q \<noteq> []"
  show "move_tree a b t (butlast q) = Some DirN"
  proof (cases "prefix b q")
    case True
    then obtain z where z: "q = b @ z" by (auto simp: prefix_def)
    then have tz: "t (a @ z) \<noteq> None" using q by (simp add: move_tree_def)
    show ?thesis
    proof (cases "z = []")
      case True
      have "\<not> prefix b (butlast b)" using b(2) by (metis append_butlast_last_id not_Cons_self2 prefixI prefix_order.antisym append_self_conv)
      moreover have "\<not> prefix a (butlast b)" using ab by (meson prefix_order.trans prefixeq_butlast)
      ultimately show ?thesis using z True parent by (simp add: move_tree_def)
    next
      case False
      then have "t (a @ butlast z) = Some DirN"
        using tz tree_okD(4) [OF t, of "a @ z"] by (auto simp: butlast_append)
      then show ?thesis using z False by (simp add: move_tree_def butlast_append)
    qed
  next
    case nb: False
    then have na: "\<not> prefix a q" and tq: "t q \<noteq> None" using q by (auto simp: move_tree_def split: if_splits)
    have "\<not> prefix b (butlast q)" "\<not> prefix a (butlast q)"
      using nb na by (meson prefix_order.trans prefixeq_butlast)+
    then show ?thesis using tq ne tree_okD(4) [OF t] by (auto simp: move_tree_def)
  qed
qed

text \<open>A walk that enters a child directory with one unit of fuel less has enough for what is below it.\<close>

lemma deeper_fuel:
  assumes "t (ds @ [n]) = Some DirN" "prefix (ds @ [n]) sub"
    and "\<And>q. t q = Some DirN \<Longrightarrow> prefix ds q \<Longrightarrow> length q < length ds + Suc fuel"
  shows "0 < fuel" "t q = Some DirN \<Longrightarrow> prefix sub q \<Longrightarrow> length q < length sub + fuel"
proof -
  show "0 < fuel" using assms(3) [OF assms(1)] by simp
  have len: "length ds < length sub" using prefix_length_le [OF assms(2)] by simp
  assume q: "t q = Some DirN" "prefix sub q"
  then have "prefix (ds @ [n]) q" using assms(2) prefix_order.trans by blast
  then have "prefix ds q" by (rule append_prefixD)
  then show "length q < length sub + fuel" using assms(3) [OF q(1)] len by simp
qed

section \<open>The contract\<close>

text \<open>The code with which an operation fails on a tree, \<open>None\<close> where it succeeds.\<close>

definition write_error :: "tree \<Rightarrow> string list \<Rightarrow> storage_code option" where
  "write_error t ss =
     (if t (butlast ss) \<noteq> Some DirN then Some Not_found
      else if t ss = Some DirN then Some Is_directory else None)"

definition mkdir_error :: "bool \<Rightarrow> tree \<Rightarrow> string list \<Rightarrow> storage_code option" where
  "mkdir_error rec t ss =
     (if ss = [] then None
      else if \<not> rec \<and> t (butlast ss) \<noteq> Some DirN then Some Not_found
      else if list_ex (\<lambda>q. t q \<noteq> None \<and> t q \<noteq> Some DirN) (prefixes ss) then Some Already_exists else None)"

definition rename_error :: "tree \<Rightarrow> string list \<Rightarrow> string list \<Rightarrow> storage_code option" where
  "rename_error t a b =
     (if a = [] then Some Invalid_path
      else if a = b then None
      else if prefix a b then Some Invalid_path
      else if t a = None then Some Not_found
      else if t b \<noteq> None then Some Already_exists
      else if t (butlast b) \<noteq> Some DirN then Some Not_found else None)"

definition has_children :: "tree \<Rightarrow> string list \<Rightarrow> bool" where
  "has_children t ss \<longleftrightarrow> (\<exists>q. strict_prefix ss q \<and> t q \<noteq> None)"

definition remove_error :: "bool \<Rightarrow> tree \<Rightarrow> string list \<Rightarrow> storage_code option" where
  "remove_error rec t ss =
     (if ss = [] then Some Invalid_path
      else if t ss = None then Some Not_found
      else if has_children t ss \<and> \<not> rec then Some Not_empty else None)"

definition read_error :: "tree \<Rightarrow> string list \<Rightarrow> storage_code option" where
  "read_error t ss =
     (if ss = [] \<or> t ss = None then Some Not_found
      else if t ss = Some DirN then Some Is_directory else None)"

definition list_error :: "tree \<Rightarrow> string list \<Rightarrow> storage_code option" where
  "list_error t ss =
     (if t ss = None then Some Not_found else if t ss \<noteq> Some DirN then Some Not_directory else None)"

text \<open>The tree a successful operation leaves.\<close>

definition mkdir_tree :: "string list \<Rightarrow> tree \<Rightarrow> tree" where
  "mkdir_tree ss t = mkdirs ss t"

definition rename_tree :: "string list \<Rightarrow> string list \<Rightarrow> tree \<Rightarrow> tree" where
  "rename_tree a b t = (if a = b then t else move_tree a b t)"

definition listing_of :: "tree \<Rightarrow> string list \<Rightarrow> dir_entry list \<Rightarrow> bool" where
  "listing_of t ss es \<longleftrightarrow>
     distinct (map de_name es)
     \<and> set es = {entry_for nm n | nm n. t (ss @ [nm]) = Some n}"

definition update_ok :: "storage_code option \<Rightarrow> tree \<Rightarrow> tree \<Rightarrow> unit res \<Rightarrow> tree \<Rightarrow> bool" where
  "update_ok err old new r now \<longleftrightarrow>
     (case err of None \<Rightarrow> r = Inr () \<and> now = new | Some e \<Rightarrow> r = Inl (StorageError e) \<and> now = old)"

lemma update_ok_simps [simp]:
  "update_ok None old new r now \<longleftrightarrow> r = Inr () \<and> now = new"
  "update_ok (Some e) old new r now \<longleftrightarrow> r = Inl (StorageError e) \<and> now = old"
  by (simp_all add: update_ok_def)

lemma listing_of_name: "listing_of t ss es \<Longrightarrow> e \<in> set es \<Longrightarrow> \<exists>n. t (ss @ [de_name e]) = Some n \<and> e = entry_for (de_name e) n"
  by (auto simp: listing_of_def entry_for_def)

lemma entry_child:
  assumes "tree_ok t" "listing_of t ds es" "e \<in> set es"
  shows "seg_ok (de_name e)" "isDirectory e \<longleftrightarrow> t (ds @ [de_name e]) = Some DirN"
    "isFile e \<longleftrightarrow> (\<exists>b. t (ds @ [de_name e]) = Some (FileN b))"
proof -
  obtain n where n: "t (ds @ [de_name e]) = Some n" "e = entry_for (de_name e) n"
    using listing_of_name [OF assms(2,3)] by blast
  show "seg_ok (de_name e)" using tree_okD(3) [OF assms(1) n(1)] by (simp add: segs_ok_def)
  show "isDirectory e \<longleftrightarrow> t (ds @ [de_name e]) = Some DirN"
    by (subst n(2)) (simp add: n(1) entry_for_def)
  show "isFile e \<longleftrightarrow> (\<exists>b. t (ds @ [de_name e]) = Some (FileN b))"
    by (subst n(2)) (cases n; simp add: n(1) entry_for_def)
qed

lemma listing_absent:
  assumes "listing_of t ss es" "nm \<notin> set (map de_name es)"
  shows "t (ss @ [nm]) = None"
proof (rule ccontr)
  assume "t (ss @ [nm]) \<noteq> None"
  then obtain n where "entry_for nm n \<in> set es" using assms(1) by (auto simp: listing_of_def)
  then show False using assms(2) by (force simp: entry_for_def)
qed

text \<open>
  The laws. A path is described by \<open>path_ok\<close> and its segments \<open>norm_segs\<close>; an invalid path makes
  every operation throw \<open>invalid_path\<close> and change nothing. The laws of the operations that put a
  file at a path ask that the path is not the root.
\<close>

locale storage_backend =
  fixes B :: "'s backend"
    and fs :: "'s \<Rightarrow> tree"
    and inv :: "'s \<Rightarrow> bool"
  assumes tree_ok: "inv s \<Longrightarrow> tree_ok (fs s)"
    and exists_law: "inv s \<Longrightarrow> exists_path B p os s =
          (if path_ok p then Inr (fs s (norm_segs p) \<noteq> None) else Inl (StorageError Invalid_path), s)"
    and stat_law: "inv s \<Longrightarrow> path_ok p \<Longrightarrow> \<exists>st. stat B p os s =
          (case fs s (norm_segs p) of None \<Rightarrow> Inl (StorageError Not_found) | Some n \<Rightarrow> Inr st, s)
          \<and> (\<forall>n. fs s (norm_segs p) = Some n \<longrightarrow> st_size st = node_size n)"
    and readFile_law: "inv s \<Longrightarrow> path_ok p \<Longrightarrow> readFile B p os s =
          (case read_error (fs s) (norm_segs p) of Some e \<Rightarrow> Inl (StorageError e)
           | None \<Rightarrow> (case fs s (norm_segs p) of Some (FileN b) \<Rightarrow> Inr b), s)"
    and readText_law: "inv s \<Longrightarrow> path_ok p \<Longrightarrow> readTextFile B p os s =
          (case read_error (fs s) (norm_segs p) of Some e \<Rightarrow> Inl (StorageError e)
           | None \<Rightarrow> (case fs s (norm_segs p) of Some (FileN b) \<Rightarrow> Inr (utf8_decode b)), s)"
    and readDir_law: "inv s \<Longrightarrow> path_ok p \<Longrightarrow> \<exists>es. readDir B p os s =
          (case list_error (fs s) (norm_segs p) of Some e \<Rightarrow> Inl (StorageError e) | None \<Rightarrow> Inr es, s)
          \<and> (list_error (fs s) (norm_segs p) = None \<longrightarrow> listing_of (fs s) (norm_segs p) es)"
    and writeFile_law: "inv s \<Longrightarrow> path_ok p \<Longrightarrow> norm_segs p \<noteq> [] \<Longrightarrow> writeFile B p b os s = (r, s') \<Longrightarrow>
          inv s' \<and> update_ok (write_error (fs s) (norm_segs p)) (fs s) ((fs s)(norm_segs p \<mapsto> FileN b)) r (fs s')"
    and writeText_law: "inv s \<Longrightarrow> path_ok p \<Longrightarrow> norm_segs p \<noteq> [] \<Longrightarrow> writeTextFile B p c os s = (r, s') \<Longrightarrow>
          inv s' \<and> update_ok (write_error (fs s) (norm_segs p)) (fs s)
                      ((fs s)(norm_segs p \<mapsto> FileN (utf8_encode c))) r (fs s')"
    and mkdir_law: "inv s \<Longrightarrow> path_ok p \<Longrightarrow> mkdir B p os s = (r, s') \<Longrightarrow>
          inv s' \<and> update_ok (mkdir_error (is_recursive os) (fs s) (norm_segs p)) (fs s)
                      (mkdir_tree (norm_segs p) (fs s)) r (fs s')"
    and rename_law: "inv s \<Longrightarrow> path_ok p \<Longrightarrow> path_ok q \<Longrightarrow> norm_segs q \<noteq> [] \<Longrightarrow> rename B p q os s = (r, s') \<Longrightarrow>
          inv s' \<and> update_ok (rename_error (fs s) (norm_segs p) (norm_segs q)) (fs s)
                      (rename_tree (norm_segs p) (norm_segs q) (fs s)) r (fs s')"
    and remove_law: "inv s \<Longrightarrow> path_ok p \<Longrightarrow> remove_path B p os s = (r, s') \<Longrightarrow>
          inv s' \<and> update_ok (remove_error (is_recursive os) (fs s) (norm_segs p)) (fs s)
                      (remove_tree (norm_segs p) (fs s)) r (fs s')"
    and invalid_law: "inv s \<Longrightarrow> \<not> path_ok p \<Longrightarrow>
          stat B p os s = (Inl (StorageError Invalid_path), s)
          \<and> readFile B p os s = (Inl (StorageError Invalid_path), s)
          \<and> readTextFile B p os s = (Inl (StorageError Invalid_path), s)
          \<and> readDir B p os s = (Inl (StorageError Invalid_path), s)
          \<and> writeFile B p b os s = (Inl (StorageError Invalid_path), s)
          \<and> writeTextFile B p c os s = (Inl (StorageError Invalid_path), s)
          \<and> mkdir B p os s = (Inl (StorageError Invalid_path), s)
          \<and> remove_path B p os s = (Inl (StorageError Invalid_path), s)"
    and rename_invalid_law: "inv s \<Longrightarrow> \<not> path_ok p \<or> \<not> path_ok q \<Longrightarrow>
          rename B p q os s = (Inl (StorageError Invalid_path), s)"

section \<open>Sequences of mutations\<close>

text \<open>
  The mutating calls of a client as data: \<open>run_call\<close> makes the call on a backend and \<open>spec_call\<close> is
  what it does to the tree. A throw does not stop the sequence, the client makes its next call.
\<close>

datatype fs_call =
    Put_file string bytes backend_options
  | Put_text string string backend_options
  | Make_dir string backend_options
  | Move_path string string backend_options
  | Remove_path string backend_options

fun run_call :: "'s backend \<Rightarrow> fs_call \<Rightarrow> ('s, unit) act" where
  "run_call B (Put_file p b os) = writeFile B p b os"
| "run_call B (Put_text p c os) = writeTextFile B p c os"
| "run_call B (Make_dir p os) = mkdir B p os"
| "run_call B (Move_path p q os) = rename B p q os"
| "run_call B (Remove_path p os) = remove_path B p os"

text \<open>No file is put at the root.\<close>

definition not_root :: "string \<Rightarrow> bool" where
  "not_root p \<longleftrightarrow> path_ok p \<longrightarrow> norm_segs p \<noteq> []"

fun call_ok :: "fs_call \<Rightarrow> bool" where
  "call_ok (Put_file p b os) = not_root p"
| "call_ok (Put_text p c os) = not_root p"
| "call_ok (Make_dir p os) = True"
| "call_ok (Move_path p q os) = not_root q"
| "call_ok (Remove_path p os) = True"

fun call_error :: "tree \<Rightarrow> fs_call \<Rightarrow> storage_code option" where
  "call_error t (Put_file p b os) = (if path_ok p then write_error t (norm_segs p) else Some Invalid_path)"
| "call_error t (Put_text p c os) = (if path_ok p then write_error t (norm_segs p) else Some Invalid_path)"
| "call_error t (Make_dir p os) =
     (if path_ok p then mkdir_error (is_recursive os) t (norm_segs p) else Some Invalid_path)"
| "call_error t (Move_path p q os) =
     (if path_ok p \<and> path_ok q then rename_error t (norm_segs p) (norm_segs q) else Some Invalid_path)"
| "call_error t (Remove_path p os) =
     (if path_ok p then remove_error (is_recursive os) t (norm_segs p) else Some Invalid_path)"

fun call_tree :: "fs_call \<Rightarrow> tree \<Rightarrow> tree" where
  "call_tree (Put_file p b os) t = t(norm_segs p \<mapsto> FileN b)"
| "call_tree (Put_text p c os) t = t(norm_segs p \<mapsto> FileN (utf8_encode c))"
| "call_tree (Make_dir p os) t = mkdir_tree (norm_segs p) t"
| "call_tree (Move_path p q os) t = rename_tree (norm_segs p) (norm_segs q) t"
| "call_tree (Remove_path p os) t = remove_tree (norm_segs p) t"

definition spec_call :: "fs_call \<Rightarrow> tree \<Rightarrow> tree" where
  "spec_call c t = (if call_error t c = None then call_tree c t else t)"

fun run_calls :: "'s backend \<Rightarrow> fs_call list \<Rightarrow> 's \<Rightarrow> 's" where
  "run_calls B [] s = s"
| "run_calls B (c # cs) s = run_calls B cs (snd (run_call B c s))"

text \<open>The files outside a set of places keep their bytes.\<close>

definition files_kept :: "string list set \<Rightarrow> tree \<Rightarrow> tree \<Rightarrow> bool" where
  "files_kept P t t' \<longleftrightarrow> (\<forall>q b. t q = Some (FileN b) \<longrightarrow> q \<notin> P \<longrightarrow> t' q = Some (FileN b))"

lemma files_kept_refl [simp]: "files_kept P t t"
  by (simp add: files_kept_def)

lemma files_kept_trans: "files_kept P t t' \<Longrightarrow> files_kept Q t' t'' \<Longrightarrow> files_kept (P \<union> Q) t t''"
  by (auto simp: files_kept_def)

lemma files_kept_mono: "files_kept P t t' \<Longrightarrow> P \<subseteq> Q \<Longrightarrow> files_kept Q t t'"
  by (auto simp: files_kept_def)

context storage_backend
begin

lemma run_call_law:
  assumes "inv s" "call_ok c" "run_call B c s = (r, s')"
  shows "inv s' \<and> update_ok (call_error (fs s) c) (fs s) (call_tree c (fs s)) r (fs s')"
proof (cases c)
  case (Put_file p b os)
  then show ?thesis
    using assms writeFile_law [of s p b os r s'] invalid_law [of s p os b] by (auto simp: not_root_def)
next
  case (Put_text p b os)
  then show ?thesis
    using assms writeText_law [of s p b os r s'] invalid_law [of s p os _ b] by (auto simp: not_root_def)
next
  case (Make_dir p os)
  then show ?thesis using assms mkdir_law [of s p os r s'] invalid_law [of s p os] by auto
next
  case (Move_path p q os)
  then show ?thesis
    using assms rename_law [of s p q os r s'] rename_invalid_law [of s p q os] by (auto simp: not_root_def)
next
  case (Remove_path p os)
  then show ?thesis using assms remove_law [of s p os r s'] invalid_law [of s p os] by auto
qed

lemma run_call_tree:
  assumes "inv s" "call_ok c"
  shows "inv (snd (run_call B c s)) \<and> fs (snd (run_call B c s)) = spec_call c (fs s)"
  using run_call_law [OF assms, of "fst (run_call B c s)" "snd (run_call B c s)"]
  by (auto simp: spec_call_def update_ok_def split: option.splits)

lemma run_calls_tree:
  "inv s \<Longrightarrow> \<forall>c \<in> set cs. call_ok c \<Longrightarrow>
     inv (run_calls B cs s) \<and> fs (run_calls B cs s) = fold spec_call cs (fs s)"
proof (induction cs arbitrary: s)
  case (Cons c cs)
  then show ?case using run_call_tree [of s c] by simp
qed simp

text \<open>Reading back what was written, and what a call leaves alone.\<close>

lemma read_after_write:
  assumes "inv s" "path_ok p" "norm_segs p \<noteq> []" "writeTextFile B p c os s = (Inr (), s')"
  shows "readTextFile B p os' s' = (Inr c, s')"
    and "path_ok q \<Longrightarrow> norm_segs q \<noteq> norm_segs p \<Longrightarrow> fst (readTextFile B q os' s') = fst (readTextFile B q os' s)"
proof -
  have s': "inv s'" "fs s' = (fs s)(norm_segs p \<mapsto> FileN (utf8_encode c))"
    using writeText_law [OF assms] by (auto simp: update_ok_def split: option.splits)
  then show "readTextFile B p os' s' = (Inr c, s')"
    using readText_law [OF s'(1) assms(2)] assms(3) by (simp add: read_error_def)
  show "fst (readTextFile B q os' s') = fst (readTextFile B q os' s)"
    if "path_ok q" "norm_segs q \<noteq> norm_segs p"
    using readText_law [OF s'(1) that(1)] readText_law [OF assms(1) that(1)] s'(2) that(2)
    by (simp add: read_error_def)
qed

lemma failed_write_unchanged:
  assumes "inv s" "call_ok c" "run_call B c s = (Inl e, s')"
  shows "fs s' = fs s"
  using run_call_law [OF assms] by (auto simp: update_ok_def split: option.splits)

text \<open>The laws for a call that succeeds, with the state it leaves.\<close>

lemma read_text_ok:
  "inv s \<Longrightarrow> path_ok p \<Longrightarrow> fs s (norm_segs p) = Some (FileN b) \<Longrightarrow> norm_segs p \<noteq> []
     \<Longrightarrow> readTextFile B p os s = (Inr (utf8_decode b), s)"
  by (simp add: readText_law read_error_def)

lemma read_file_ok:
  "inv s \<Longrightarrow> path_ok p \<Longrightarrow> fs s (norm_segs p) = Some (FileN b) \<Longrightarrow> norm_segs p \<noteq> []
     \<Longrightarrow> readFile B p os s = (Inr b, s)"
  by (simp add: readFile_law read_error_def)

lemma read_missing:
  assumes "inv s" "path_ok p" "fs s (norm_segs p) = None"
  shows "readTextFile B p os s = (Inl (StorageError Not_found), s)" "readFile B p os s = (Inl (StorageError Not_found), s)"
  using assms by (simp_all add: readText_law readFile_law read_error_def)

lemma write_text_ok:
  assumes "inv s" "path_ok p" "norm_segs p \<noteq> []" "write_error (fs s) (norm_segs p) = None"
  obtains s' where "writeTextFile B p c os s = (Inr (), s')" "inv s'" "fs s' = (fs s)(norm_segs p \<mapsto> FileN (utf8_encode c))"
  using writeText_law [OF assms(1-3), of c os "fst (writeTextFile B p c os s)" "snd (writeTextFile B p c os s)"] assms(4)
  by (cases "writeTextFile B p c os s") auto

lemma write_file_ok:
  assumes "inv s" "path_ok p" "norm_segs p \<noteq> []" "write_error (fs s) (norm_segs p) = None"
  obtains s' where "writeFile B p b os s = (Inr (), s')" "inv s'" "fs s' = (fs s)(norm_segs p \<mapsto> FileN b)"
  using writeFile_law [OF assms(1-3), of b os "fst (writeFile B p b os s)" "snd (writeFile B p b os s)"] assms(4)
  by (cases "writeFile B p b os s") auto

lemma mkdir_ok:
  assumes "inv s" "path_ok p" "mkdir_error (is_recursive os) (fs s) (norm_segs p) = None"
  obtains s' where "mkdir B p os s = (Inr (), s')" "inv s'" "fs s' = mkdirs (norm_segs p) (fs s)"
  using mkdir_law [OF assms(1,2), of os "fst (mkdir B p os s)" "snd (mkdir B p os s)"] assms(3)
  by (cases "mkdir B p os s") (auto simp: mkdir_tree_def)

lemma remove_ok:
  assumes "inv s" "path_ok p" "remove_error (is_recursive os) (fs s) (norm_segs p) = None"
  obtains s' where "remove_path B p os s = (Inr (), s')" "inv s'" "fs s' = remove_tree (norm_segs p) (fs s)"
  using remove_law [OF assms(1,2), of os "fst (remove_path B p os s)" "snd (remove_path B p os s)"] assms(3)
  by (cases "remove_path B p os s") auto

lemma rename_ok:
  assumes "inv s" "path_ok p" "path_ok q" "norm_segs q \<noteq> []" "norm_segs p \<noteq> norm_segs q"
    and "rename_error (fs s) (norm_segs p) (norm_segs q) = None"
  obtains s' where "rename B p q os s = (Inr (), s')" "inv s'" "fs s' = move_tree (norm_segs p) (norm_segs q) (fs s)"
  using rename_law [OF assms(1-4), of os "fst (rename B p q os s)" "snd (rename B p q os s)"] assms(5,6)
  by (cases "rename B p q os s") (auto simp: rename_tree_def)

lemma read_dir_result:
  assumes "inv s" "path_ok p"
  obtains r where "readDir B p os s = (r, s)"
    "\<forall>e. r = Inl e \<longrightarrow> list_error (fs s) (norm_segs p) \<noteq> None \<and> e = StorageError (the (list_error (fs s) (norm_segs p)))"
    "\<forall>es. r = Inr es \<longrightarrow> list_error (fs s) (norm_segs p) = None \<and> listing_of (fs s) (norm_segs p) es"
proof -
  let ?le = "list_error (fs s) (norm_segs p)"
  from readDir_law [OF assms, of os] obtain es where es: "readDir B p os s =
      (case ?le of Some e \<Rightarrow> Inl (StorageError e) | None \<Rightarrow> Inr es, s)
      \<and> (?le = None \<longrightarrow> listing_of (fs s) (norm_segs p) es)" ..
  show ?thesis
  proof (rule that)
    show "readDir B p os s = (case ?le of Some e \<Rightarrow> Inl (StorageError e) | None \<Rightarrow> Inr es, s)" using es by (rule conjunct1)
  qed (use es in \<open>simp_all split: option.splits\<close>)
qed

lemma exists_iff: "inv s \<Longrightarrow> path_ok p \<Longrightarrow> exists_path B p os s = (Inr (fs s (norm_segs p) \<noteq> None), s)"
  by (simp add: exists_law)

text \<open>What any outcome of a call leaves in place.\<close>

lemma mkdir_files:
  assumes "inv s" "mkdir B p os s = (x, s')"
  shows "inv s' \<and> files_kept {} (fs s) (fs s')"
proof (cases "path_ok p")
  case True
  have "fs s [] = Some DirN" using tree_ok [OF assms(1)] by (rule tree_okD(2))
  then show ?thesis
    using mkdir_law [OF assms(1) True assms(2)]
    by (auto simp: update_ok_def files_kept_def mkdir_tree_def mkdirs_def mkdir_error_def list_ex_iff split: option.splits if_splits)
      (metis in_set_prefixes node.distinct(1) option.distinct(1) option.inject)+
next
  case False
  then show ?thesis using invalid_law [OF assms(1), of p os] assms by (simp add: files_kept_def)
qed

lemma write_files:
  assumes "inv s" "path_ok p" "norm_segs p \<noteq> []" "writeFile B p b os s = (x, s')"
  shows "inv s' \<and> files_kept {norm_segs p} (fs s) (fs s') \<and> (x = Inr () \<longrightarrow> fs s' (norm_segs p) = Some (FileN b))
    \<and> (\<forall>e. x = Inl e \<longrightarrow> fs s' = fs s)"
  using writeFile_law [OF assms] by (auto simp: update_ok_def files_kept_def split: option.splits)

end

end
