(* ===== verification/IdbFs.thy ===== *)
theory IdbFs
  imports Backend_Spec
begin

text \<open>
  The IndexedDB backend (\<open>packages/storage/src/idbfs.ts\<close>). The object store \<open>entries\<close> is a list
  of records in the order of their key \<open>path\<close>, as \<open>getAll\<close> returns them; the successive values of
  \<open>Date.now()\<close> are a sequence the state carries, and emitted change events are logged in order.
  Each method runs under its mutex, so it is one atomic action. The failures of IndexedDB itself
  (a request that errors, an aborted transaction) are not modelled.
\<close>

section \<open>The object store\<close>

datatype entry_kind = File | Dir

datatype file_data = Text string | Bytes bytes

record entry_record =
  er_path :: string
  er_parent :: string
  er_kind :: entry_kind
  er_data :: file_data
  er_size :: nat
  er_mtime :: nat
  er_ctime :: nat

record idb =
  entries :: "entry_record list"
  times :: "nat \<Rightarrow> nat"
  changes :: "change_event list"

definition empty_idb :: "(nat \<Rightarrow> nat) \<Rightarrow> idb" where
  "empty_idb ts = \<lparr>entries = [], times = ts, changes = []\<rparr>"

text \<open>\<open>store.get\<close>, \<open>store.put\<close> and \<open>store.delete\<close> on a store keyed by \<open>path\<close>.\<close>

definition store_get :: "string \<Rightarrow> entry_record list \<Rightarrow> entry_record option" where
  "store_get path es = find (\<lambda>r. er_path r = path) es"

definition store_delete :: "string \<Rightarrow> entry_record list \<Rightarrow> entry_record list" where
  "store_delete path es = filter (\<lambda>r. er_path r \<noteq> path) es"

definition store_put :: "entry_record \<Rightarrow> entry_record list \<Rightarrow> entry_record list" where
  "store_put r es = insort_key er_path r (store_delete (er_path r) es)"

definition date_now :: "(idb, nat) act" where
  "date_now = (\<lambda>s. (Inr (times s 0), s\<lparr>times := \<lambda>n. times s (Suc n)\<rparr>))"

definition emitChange :: "change_event \<Rightarrow> (idb, unit) act" where
  "emitChange ev = amodify (\<lambda>s. s\<lparr>changes := changes s @ [ev]\<rparr>)"

definition put_entry :: "entry_record \<Rightarrow> (idb, unit) act" where
  "put_entry r = amodify (\<lambda>s. s\<lparr>entries := store_put r (entries s)\<rparr>)"

definition delete_entry :: "string \<Rightarrow> (idb, unit) act" where
  "delete_entry path = amodify (\<lambda>s. s\<lparr>entries := store_delete path (entries s)\<rparr>)"

section \<open>The methods\<close>

definition getRecord :: "string \<Rightarrow> (idb, entry_record option) act" where
  "getRecord path = aread (\<lambda>s. store_get path (entries s))"

definition listChildren :: "string \<Rightarrow> (idb, entry_record list) act" where
  "listChildren path = aread (\<lambda>s. filter (\<lambda>r. er_parent r = path) (entries s))"

definition dir_entry_of :: "entry_record \<Rightarrow> dir_entry res" where
  "dir_entry_of record =
     res_bind (baseName (er_path record)) (\<lambda>nm.
       Inr \<lparr>de_name = nm, isDirectory = (er_kind record = Dir), isFile = (er_kind record = File),
            isSymlink = False\<rparr>)"

definition require_dir :: "string \<Rightarrow> (idb, unit) act" where
  "require_dir parent =
     abind (alift (isRoot parent)) (\<lambda>root.
       if root then aret ()
       else abind (getRecord parent) (\<lambda>parentRecord.
         case parentRecord of
           None \<Rightarrow> athrow (StorageError Not_found)
         | Some r \<Rightarrow> if er_kind r \<noteq> Dir then athrow (StorageError Not_found) else aret ()))"

definition idb_readDir :: "string \<Rightarrow> backend_options \<Rightarrow> (idb, dir_entry list) act" where
  "idb_readDir path options =
     abind (alift (normalizePath path)) (\<lambda>normalized.
     abind (alift (isRoot normalized)) (\<lambda>root.
     athen (if root then aret ()
            else abind (getRecord normalized) (\<lambda>record.
              case record of
                None \<Rightarrow> athrow (StorageError Not_found)
              | Some r \<Rightarrow> if er_kind r \<noteq> Dir then athrow (StorageError Not_directory) else aret ()))
     (abind (listChildren normalized) (\<lambda>children. alift (map_res dir_entry_of children)))))"

definition getFileRecord :: "string \<Rightarrow> (idb, entry_record) act" where
  "getFileRecord path =
     abind (alift (normalizePath path)) (\<lambda>normalized.
     abind (getRecord normalized) (\<lambda>record.
       case record of
         None \<Rightarrow> athrow (StorageError Not_found)
       | Some r \<Rightarrow> if er_kind r \<noteq> File then athrow (StorageError Is_directory) else aret r))"

definition data_bytes :: "file_data \<Rightarrow> bytes" where
  "data_bytes d = (case d of Text t \<Rightarrow> utf8_encode t | Bytes b \<Rightarrow> b)"

definition data_text :: "file_data \<Rightarrow> string" where
  "data_text d = (case d of Text t \<Rightarrow> t | Bytes b \<Rightarrow> utf8_decode b)"

definition idb_readFile :: "string \<Rightarrow> backend_options \<Rightarrow> (idb, bytes) act" where
  "idb_readFile path options = abind (getFileRecord path) (\<lambda>record. aret (data_bytes (er_data record)))"

definition idb_readTextFile :: "string \<Rightarrow> backend_options \<Rightarrow> (idb, string) act" where
  "idb_readTextFile path options = abind (getFileRecord path) (\<lambda>record. aret (data_text (er_data record)))"

definition writeRecord :: "string \<Rightarrow> file_data \<Rightarrow> nat \<Rightarrow> backend_options \<Rightarrow> (idb, unit) act" where
  "writeRecord path data sz options =
     abind (alift (normalizePath path)) (\<lambda>normalized.
     athen
       (abind (alift (parentPath normalized)) (\<lambda>parent.
        athen (require_dir parent)
        (abind (getRecord normalized) (\<lambda>existing.
         case existing of
           Some r \<Rightarrow>
             if er_kind r = Dir then athrow (StorageError Is_directory)
             else abind date_now (\<lambda>now.
               put_entry \<lparr>er_path = normalized, er_parent = parent, er_kind = File, er_data = data,
                          er_size = sz, er_mtime = now, er_ctime = er_ctime r\<rparr>)
         | None \<Rightarrow>
             abind date_now (\<lambda>now.
               put_entry \<lparr>er_path = normalized, er_parent = parent, er_kind = File, er_data = data,
                          er_size = sz, er_mtime = now, er_ctime = now\<rparr>)))))
     (emitChange \<lparr>ev_path = normalized, ev_kind = Written, ev_origin = origin_of options, oldPath = None\<rparr>))"

definition idb_writeTextFile :: "string \<Rightarrow> string \<Rightarrow> backend_options \<Rightarrow> (idb, unit) act" where
  "idb_writeTextFile path contents options =
     writeRecord path (Text contents) (length (utf8_encode contents)) options"

definition idb_writeFile :: "string \<Rightarrow> bytes \<Rightarrow> backend_options \<Rightarrow> (idb, unit) act" where
  "idb_writeFile path contents options = writeRecord path (Bytes contents) (length contents) options"

definition makeDir :: "nat \<Rightarrow> string \<Rightarrow> (idb, unit) act" where
  "makeDir now dirPath =
     abind (getRecord dirPath) (\<lambda>existing.
       case existing of
         Some r \<Rightarrow> if er_kind r \<noteq> Dir then athrow (StorageError Already_exists) else aret ()
       | None \<Rightarrow>
           abind (alift (parentPath dirPath)) (\<lambda>parent.
             put_entry \<lparr>er_path = dirPath, er_parent = parent, er_kind = Dir, er_data = Text [],
                        er_size = 0, er_mtime = now, er_ctime = now\<rparr>))"

fun mkdir_loop :: "nat \<Rightarrow> string \<Rightarrow> string list \<Rightarrow> (idb, unit) act" where
  "mkdir_loop now current [] = aret ()"
| "mkdir_loop now current (segment # rest) =
     athen (makeDir now (current @ ''/'' @ segment)) (mkdir_loop now (current @ ''/'' @ segment) rest)"

definition idb_mkdir :: "string \<Rightarrow> backend_options \<Rightarrow> (idb, unit) act" where
  "idb_mkdir path options =
     abind (alift (normalizePath path)) (\<lambda>normalized.
     abind (alift (isRoot normalized)) (\<lambda>root.
       if root then aret ()
       else abind date_now (\<lambda>now.
         athen
           (if is_recursive options
            then abind (alift (pathSegments normalized)) (mkdir_loop now [])
            else abind (alift (parentPath normalized)) (\<lambda>parent.
                   athen (require_dir parent) (makeDir now normalized)))
           (emitChange \<lparr>ev_path = normalized, ev_kind = Created, ev_origin = origin_of options,
                        oldPath = None\<rparr>))))"

definition move_entry :: "nat \<Rightarrow> string \<Rightarrow> string \<Rightarrow> entry_record \<Rightarrow> (idb, unit) act" where
  "move_entry now src dst record =
     (let target = dst @ drop (length src) (er_path record) in
      abind (alift (parentPath target)) (\<lambda>parent.
        athen (delete_entry (er_path record))
              (put_entry (record\<lparr>er_path := target, er_parent := parent, er_mtime := now\<rparr>))))"

definition idb_rename :: "string \<Rightarrow> string \<Rightarrow> backend_options \<Rightarrow> (idb, unit) act" where
  "idb_rename from_path to_path options =
     abind (alift (normalizePath from_path)) (\<lambda>src.
     abind (alift (normalizePath to_path)) (\<lambda>dst.
     abind (alift (isRoot src)) (\<lambda>root.
       if root then athrow (StorageError Invalid_path)
       else if src = dst then aret ()
       else abind (alift (isUnder dst src)) (\<lambda>under.
         if under then athrow (StorageError Invalid_path)
         else athen
           (abind (getRecord src) (\<lambda>srcRecord.
              case srcRecord of None \<Rightarrow> athrow (StorageError Not_found)
              | Some _ \<Rightarrow> abind (getRecord dst) (\<lambda>dstRecord.
                  case dstRecord of Some _ \<Rightarrow> athrow (StorageError Already_exists)
                  | None \<Rightarrow> abind (alift (parentPath dst)) (\<lambda>dstParent.
                      athen (require_dir dstParent)
                      (abind (aread entries) (\<lambda>all.
                       abind (alift (filter_res (\<lambda>r. if er_path r = src then Inr True else isUnder (er_path r) src) all))
                         (\<lambda>affected. abind date_now (\<lambda>now. afor (move_entry now src dst) affected))))))))
           (emitChange \<lparr>ev_path = dst, ev_kind = Renamed, ev_origin = origin_of options,
                        oldPath = Some src\<rparr>)))))"

definition idb_remove :: "string \<Rightarrow> backend_options \<Rightarrow> (idb, unit) act" where
  "idb_remove path options =
     abind (alift (normalizePath path)) (\<lambda>normalized.
     abind (alift (isRoot normalized)) (\<lambda>root.
       if root then athrow (StorageError Invalid_path)
       else athen
         (abind (getRecord normalized) (\<lambda>record.
            case record of None \<Rightarrow> athrow (StorageError Not_found)
            | Some r \<Rightarrow>
                athen
                  (if er_kind r = Dir
                   then abind (aread entries) (\<lambda>all.
                     abind (alift (filter_res (\<lambda>x. if er_path x = normalized then Inr False
                                                  else isUnder (er_path x) normalized) all))
                       (\<lambda>descendants.
                          if descendants \<noteq> [] \<and> \<not> is_recursive options
                          then athrow (StorageError Not_empty)
                          else afor (\<lambda>child. delete_entry (er_path child)) descendants))
                   else aret ())
                  (delete_entry normalized)))
         (emitChange \<lparr>ev_path = normalized, ev_kind = Deleted, ev_origin = origin_of options,
                      oldPath = None\<rparr>)))"

definition idb_stat :: "string \<Rightarrow> backend_options \<Rightarrow> (idb, file_stat) act" where
  "idb_stat path options =
     abind (alift (normalizePath path)) (\<lambda>normalized.
     abind (alift (isRoot normalized)) (\<lambda>root.
       if root then aret \<lparr>st_size = 0, st_mtime = None, st_birthtime = None\<rparr>
       else abind (getRecord normalized) (\<lambda>record.
         case record of None \<Rightarrow> athrow (StorageError Not_found)
         | Some r \<Rightarrow> aret \<lparr>st_size = er_size r, st_mtime = Some (er_mtime r),
                           st_birthtime = Some (er_ctime r)\<rparr>)))"

definition idb_exists :: "string \<Rightarrow> backend_options \<Rightarrow> (idb, bool) act" where
  "idb_exists path options =
     abind (alift (normalizePath path)) (\<lambda>normalized.
     abind (alift (isRoot normalized)) (\<lambda>root.
       if root then aret True
       else abind (getRecord normalized) (\<lambda>record. aret (record \<noteq> None))))"

definition idb_backend :: "idb backend" where
  "idb_backend = \<lparr>be_name = ''idbfs'', readDir = idb_readDir, readTextFile = idb_readTextFile,
     readFile = idb_readFile, writeTextFile = idb_writeTextFile, writeFile = idb_writeFile,
     mkdir = idb_mkdir, rename = idb_rename, remove_path = idb_remove, stat = idb_stat,
     exists_path = idb_exists\<rparr>"

section \<open>The object store as a keyed map\<close>

definition keys_ok :: "entry_record list \<Rightarrow> bool" where
  "keys_ok es \<longleftrightarrow> sorted (map er_path es) \<and> distinct (map er_path es)"

lemma keys_ok_Nil [simp]: "keys_ok []"
  by (simp add: keys_ok_def)

lemma store_get_Some: "store_get p es = Some r \<Longrightarrow> r \<in> set es \<and> er_path r = p"
  by (auto simp: store_get_def find_Some_iff)

lemma store_get_None: "store_get p es = None \<longleftrightarrow> p \<notin> er_path ` set es"
  by (auto simp: store_get_def find_None_iff)

lemma store_get_in: "keys_ok es \<Longrightarrow> r \<in> set es \<Longrightarrow> store_get (er_path r) es = Some r"
proof (induction es)
  case (Cons x es)
  then show ?case by (cases "r = x") (auto simp: store_get_def keys_ok_def)
qed simp

lemma find_filter: "find P (filter Q xs) = find (\<lambda>x. Q x \<and> P x) xs"
  by (induction xs) auto

lemma store_get_delete [simp]: "store_get p (store_delete q es) = (if p = q then None else store_get p es)"
proof (cases "p = q")
  case True
  then show ?thesis by (simp add: store_get_def store_delete_def find_filter find_None_iff)
next
  case False
  then have "(\<lambda>r. er_path r \<noteq> q \<and> er_path r = p) = (\<lambda>r. er_path r = p)" by auto
  then have "find (\<lambda>r. er_path r \<noteq> q \<and> er_path r = p) es = find (\<lambda>r. er_path r = p) es"
    by (rule arg_cong)
  then show ?thesis using False by (simp add: store_get_def store_delete_def find_filter)
qed

lemma keys_ok_delete [simp]: "keys_ok es \<Longrightarrow> keys_ok (store_delete q es)"
  by (simp add: keys_ok_def store_delete_def sorted_filter distinct_map_filter)

lemma set_delete [simp]: "set (store_delete q es) = {r \<in> set es. er_path r \<noteq> q}"
  by (auto simp: store_delete_def)

lemma keys_ok_put [simp]:
  assumes "keys_ok es"
  shows "keys_ok (store_put r es)"
proof -
  have "distinct (map er_path (insort_key er_path r (store_delete (er_path r) es)))"
    using assms by (auto simp: distinct_map set_insort_key keys_ok_def distinct_insort store_delete_def inj_on_def)
  then show ?thesis
    using keys_ok_delete [OF assms] by (simp add: keys_ok_def store_put_def sorted_insort_key)
qed

lemma set_put [simp]: "set (store_put r es) = insert r {x \<in> set es. er_path x \<noteq> er_path r}"
  by (simp add: store_put_def set_insort_key)

lemma store_get_put [simp]:
  assumes "keys_ok es"
  shows "store_get p (store_put r es) = (if p = er_path r then Some r else store_get p es)"
proof (cases "store_get p (store_put r es)")
  case None
  then have "p \<notin> er_path ` set (store_put r es)" by (simp add: store_get_None)
  then have "p \<noteq> er_path r" "p \<notin> er_path ` set es" by auto
  then show ?thesis using None store_get_None [of p es] by simp
next
  case (Some x)
  then have x: "x \<in> set (store_put r es)" "er_path x = p" using store_get_Some by blast+
  then have "x = r \<or> x \<in> set es \<and> p \<noteq> er_path r" by auto
  then show ?thesis using Some x(2) store_get_in [OF assms] by auto
qed

section \<open>The tree of a store\<close>

definition node_of :: "entry_record \<Rightarrow> node" where
  "node_of r = (if er_kind r = Dir then DirN else FileN (data_bytes (er_data r)))"

definition tree_of :: "entry_record list \<Rightarrow> tree" where
  "tree_of es ss =
     (if ss = [] then Some DirN
      else if segs_ok ss then map_option node_of (store_get (render ss) es) else None)"

definition record_at :: "string list \<Rightarrow> entry_record \<Rightarrow> bool" where
  "record_at ss r \<longleftrightarrow> segs_ok ss \<and> ss \<noteq> [] \<and> er_path r = render ss \<and> er_parent r = render (butlast ss)
     \<and> er_size r = node_size (node_of r)"

definition store_inv :: "entry_record list \<Rightarrow> bool" where
  "store_inv es \<longleftrightarrow> keys_ok es \<and> (\<forall>r \<in> set es. \<exists>ss. record_at ss r) \<and> tree_ok (tree_of es)"

definition idb_inv :: "idb \<Rightarrow> bool" where
  "idb_inv s \<longleftrightarrow> store_inv (entries s)"

definition idb_fs :: "idb \<Rightarrow> tree" where
  "idb_fs s = tree_of (entries s)"

lemma node_of_simps [simp]:
  "node_of r = DirN \<longleftrightarrow> er_kind r = Dir"
  "er_kind r = Dir \<Longrightarrow> node_of r = DirN"
  by (simp_all add: node_of_def)

lemma kind_not_dir [simp]: "er_kind r \<noteq> Dir \<longleftrightarrow> er_kind r = File" "er_kind r \<noteq> File \<longleftrightarrow> er_kind r = Dir"
  by (cases "er_kind r"; simp)+

lemma store_invD:
  assumes "store_inv es"
  shows "keys_ok es" "tree_ok (tree_of es)" "r \<in> set es \<Longrightarrow> \<exists>ss. record_at ss r"
  using assms by (auto simp: store_inv_def)

lemma record_path_inj: "record_at xs r \<Longrightarrow> record_at ys r \<Longrightarrow> xs = ys"
  by (auto simp: record_at_def render_inj)

lemma tree_of_get:
  "segs_ok ss \<Longrightarrow> ss \<noteq> [] \<Longrightarrow> tree_of es ss = map_option node_of (store_get (render ss) es)"
  by (simp add: tree_of_def)

lemma tree_of_root [simp]: "tree_of es [] = Some DirN"
  by (simp add: tree_of_def)

lemma store_get_root: "store_inv es \<Longrightarrow> store_get ''/'' es = None"
  by (simp add: store_get_None image_iff) (metis record_at_def render_eq_root store_invD(3))

lemma tree_of_put:
  "keys_ok es \<Longrightarrow> record_at ss r \<Longrightarrow> tree_of (store_put r es) = (tree_of es)(ss \<mapsto> node_of r)"
  by (auto simp: tree_of_def record_at_def fun_eq_iff render_inj)

lemma tree_of_delete:
  "segs_ok ss \<Longrightarrow> ss \<noteq> [] \<Longrightarrow> tree_of (store_delete (render ss) es) = (tree_of es)(ss := None)"
  by (auto simp: tree_of_def fun_eq_iff render_inj)

lemma finite_tree_of:
  assumes "\<forall>r \<in> set es. \<exists>ss. record_at ss r"
  shows "finite (dom (tree_of es))"
proof (rule finite_subset)
  show "dom (tree_of es) \<subseteq> insert [] ((\<lambda>r. norm_segs (er_path r)) ` set es)"
    by (auto simp: tree_of_def image_iff dest!: store_get_Some split: if_splits)
      (metis norm_segs_render)
qed simp

lemma store_inv_put:
  assumes "store_inv es" "record_at ss r" "tree_of es (butlast ss) = Some DirN"
    "er_kind r = File \<longrightarrow> tree_of es ss \<noteq> Some DirN"
  shows "store_inv (store_put r es)"
proof -
  have "tree_ok ((tree_of es)(ss \<mapsto> node_of r))"
    using assms by (intro tree_ok_update store_invD) (auto simp: record_at_def)
  then show ?thesis
    using assms(1,2) store_invD(1,3) [OF assms(1)] by (auto simp: store_inv_def tree_of_put)
qed

section \<open>Reading\<close>

lemma norm_render [simp]: "path_ok p \<Longrightarrow> normalizePath p = Inr (render (norm_segs p))"
  by (simp add: normalizePath_eq)

lemma norm_invalid [simp]: "\<not> path_ok p \<Longrightarrow> normalizePath p = Inl (StorageError Invalid_path)"
  by (simp add: normalizePath_eq)

lemma path_root [simp]: "isRoot ''/'' = Inr True" "parentPath ''/'' = Inr ''/''"
  using isRoot_render [of "[]"] parentPath_render [of "[]"] by simp_all

lemmas path_facts = segs_ok_norm_segs segs_ok_butlast isRoot_render parentPath_render isUnder_render pathSegments_render

lemma get_of_tree:
  assumes "idb_inv s" "segs_ok ss"
  shows "store_get (render ss) (entries s) = None \<longleftrightarrow> ss = [] \<or> idb_fs s ss = None"
    "store_get (render ss) (entries s) = Some r \<Longrightarrow> ss \<noteq> [] \<and> idb_fs s ss = Some (node_of r)"
  using assms store_get_root [of "entries s"]
  by (auto simp: idb_inv_def idb_fs_def tree_of_def split: if_splits)

lemma record_of_get:
  assumes "idb_inv s" "segs_ok ss" "store_get (render ss) (entries s) = Some r"
  shows "record_at ss r"
proof -
  obtain ys where "record_at ys r"
    using store_get_Some [OF assms(3)] assms(1) store_invD(3) by (auto simp: idb_inv_def)
  moreover have "ys = ss"
    using calculation store_get_Some [OF assms(3)] assms(2) by (auto simp: record_at_def render_inj)
  ultimately show ?thesis by simp
qed

lemma require_dir_eval [act_simps]:
  assumes "idb_inv s" "segs_ok ss"
  shows "require_dir (render ss) s =
    (if idb_fs s ss = Some DirN then Inr () else Inl (StorageError Not_found), s)"
proof (cases "ss = []")
  case True
  then show ?thesis using assms by (simp add: require_dir_def act_simps path_facts idb_fs_def del: render_Nil)
next
  case False
  then show ?thesis
    using assms get_of_tree [OF assms]
    by (cases "store_get (render ss) (entries s)")
      (auto simp: require_dir_def act_simps path_facts getRecord_def)
qed

lemma idb_exists_eval:
  assumes "idb_inv s"
  shows "idb_exists p os s =
    (if path_ok p then Inr (idb_fs s (norm_segs p) \<noteq> None) else Inl (StorageError Invalid_path), s)"
  using assms get_of_tree(1) [OF assms, of "norm_segs p"]
  by (auto simp: idb_exists_def act_simps path_facts getRecord_def idb_fs_def)

lemma idb_stat_eval:
  assumes "idb_inv s" "path_ok p"
  shows "\<exists>st. idb_stat p os s =
      (case idb_fs s (norm_segs p) of None \<Rightarrow> Inl (StorageError Not_found) | Some n \<Rightarrow> Inr st, s)
      \<and> (\<forall>n. idb_fs s (norm_segs p) = Some n \<longrightarrow> st_size st = node_size n)"
proof (cases "norm_segs p = []")
  case True
  then have "idb_fs s (norm_segs p) = Some DirN" by (simp add: idb_fs_def)
  then show ?thesis
    using True assms by (simp add: idb_stat_def act_simps path_facts node_size_def)
next
  case False
  note ok = segs_ok_norm_segs [OF assms(2)]
  show ?thesis
  proof (cases "store_get (render (norm_segs p)) (entries s)")
    case None
    then show ?thesis
      using False assms ok get_of_tree(1) [OF assms(1) ok]
      by (simp add: idb_stat_def act_simps path_facts getRecord_def)
  next
    case (Some r)
    then have "idb_fs s (norm_segs p) = Some (node_of r)" "er_size r = node_size (node_of r)"
      using get_of_tree(2) [OF assms(1) ok] record_of_get [OF assms(1) ok] by (auto simp: record_at_def)
    then show ?thesis
      using False assms ok Some by (simp add: idb_stat_def act_simps path_facts getRecord_def)
  qed
qed

lemma getFileRecord_eval:
  assumes "idb_inv s" "path_ok p"
  shows "(case read_error (idb_fs s) (norm_segs p) of
            Some e \<Rightarrow> getFileRecord p s = (Inl (StorageError e), s)
          | None \<Rightarrow> \<exists>r. getFileRecord p s = (Inr r, s)
                      \<and> idb_fs s (norm_segs p) = Some (FileN (data_bytes (er_data r))))"
proof -
  note ok = segs_ok_norm_segs [OF assms(2)]
  show ?thesis
  proof (cases "store_get (render (norm_segs p)) (entries s)")
    case None
    then show ?thesis
      using assms get_of_tree(1) [OF assms(1) ok]
      by (auto simp: getFileRecord_def act_simps getRecord_def read_error_def)
  next
    case (Some r)
    then show ?thesis
      using assms get_of_tree(2) [OF assms(1) ok]
      by (auto simp: getFileRecord_def act_simps getRecord_def read_error_def node_of_def)
  qed
qed

lemma data_text_bytes [simp]: "utf8_decode (data_bytes d) = data_text d"
  by (simp add: data_bytes_def data_text_def split: file_data.split)

lemma idb_readFile_eval:
  assumes "idb_inv s" "path_ok p"
  shows "idb_readFile p os s =
    (case read_error (idb_fs s) (norm_segs p) of Some e \<Rightarrow> Inl (StorageError e)
     | None \<Rightarrow> (case idb_fs s (norm_segs p) of Some (FileN b) \<Rightarrow> Inr b), s)"
  using getFileRecord_eval [OF assms] by (auto simp: idb_readFile_def act_simps split: option.splits)

lemma idb_readTextFile_eval:
  assumes "idb_inv s" "path_ok p"
  shows "idb_readTextFile p os s =
    (case read_error (idb_fs s) (norm_segs p) of Some e \<Rightarrow> Inl (StorageError e)
     | None \<Rightarrow> (case idb_fs s (norm_segs p) of Some (FileN b) \<Rightarrow> Inr (utf8_decode b)), s)"
  using getFileRecord_eval [OF assms] by (auto simp: idb_readTextFile_def act_simps split: option.splits)

definition entry_of_record :: "entry_record \<Rightarrow> dir_entry" where
  "entry_of_record r = entry_for (last (norm_segs (er_path r))) (node_of r)"

lemma dir_entry_of_record:
  assumes "record_at ss r"
  shows "dir_entry_of r = Inr (entry_for (last ss) (node_of r))"
proof -
  have "baseName (render (butlast ss @ [last ss])) = Inr (last ss)"
    using assms by (intro baseName_render_snoc) (simp add: record_at_def)
  then show ?thesis
    using assms by (auto simp: dir_entry_of_def record_at_def entry_for_def)
qed

lemma children_listing:
  assumes s: "store_inv es" and ss: "segs_ok ss"
  shows "\<exists>ds. map_res dir_entry_of (filter (\<lambda>r. er_parent r = render ss) es) = Inr ds
           \<and> listing_of (tree_of es) ss ds"
proof -
  let ?cs = "filter (\<lambda>r. er_parent r = render ss) es"
  have rec: "\<exists>nm. record_at (ss @ [nm]) r" if r: "r \<in> set ?cs" for r
  proof -
    obtain ys where ys: "record_at ys r" using r store_invD(3) [OF s] by auto
    then have "butlast ys = ss" using r ss by (auto simp: record_at_def render_inj)
    then have "ys = ss @ [last ys]" using ys by (metis append_butlast_last_id record_at_def)
    then show ?thesis using ys by metis
  qed
  have nm: "norm_segs (er_path r) = ss @ [nm]" if "record_at (ss @ [nm]) r" for r nm
    using that by (simp add: record_at_def)
  have eq: "dir_entry_of r = Inr (entry_of_record r)" if "r \<in> set ?cs" for r
    using rec [OF that] by (auto simp: dir_entry_of_record entry_of_record_def nm)
  have "distinct (map (de_name \<circ> entry_of_record) ?cs)"
  proof -
    have "inj_on (de_name \<circ> entry_of_record) (set ?cs)"
    proof (rule inj_onI)
      fix x y assume xy: "x \<in> set ?cs" "y \<in> set ?cs" "(de_name \<circ> entry_of_record) x = (de_name \<circ> entry_of_record) y"
      then obtain a b where "record_at (ss @ [a]) x" "record_at (ss @ [b]) y" using rec by meson
      moreover from this have "a = b" using xy(3) by (simp add: entry_of_record_def entry_for_def nm)
      ultimately have "er_path x = er_path y" by (simp add: record_at_def)
      moreover have "x \<in> set es" "y \<in> set es" using xy(1,2) by auto
      ultimately show "x = y" using store_get_in [OF store_invD(1) [OF s]] by (metis option.inject)
    qed
    moreover have "distinct ?cs"
      using store_invD(1) [OF s] by (auto simp: keys_ok_def distinct_map)
    ultimately show ?thesis by (simp add: distinct_map)
  qed
  moreover have "entry_of_record ` set ?cs = {entry_for nm n | nm n. tree_of es (ss @ [nm]) = Some n}"
  proof (intro equalityI subsetI)
    fix e assume "e \<in> entry_of_record ` set ?cs"
    then obtain r where r: "r \<in> set ?cs" "e = entry_of_record r" by blast
    then obtain a where a: "record_at (ss @ [a]) r" using rec by blast
    then have "store_get (render (ss @ [a])) es = Some r"
      using store_get_in [OF store_invD(1) [OF s], of r] r(1) by (simp add: record_at_def)
    then have "tree_of es (ss @ [a]) = Some (node_of r)" using a by (simp add: tree_of_def record_at_def)
    then show "e \<in> {entry_for nm n | nm n. tree_of es (ss @ [nm]) = Some n}"
      using r(2) nm [OF a] by (auto simp: entry_of_record_def)
  next
    fix e assume "e \<in> {entry_for nm n | nm n. tree_of es (ss @ [nm]) = Some n}"
    then obtain a n where e: "e = entry_for a n" and t: "tree_of es (ss @ [a]) = Some n" by blast
    then obtain r where r: "store_get (render (ss @ [a])) es = Some r" "n = node_of r" and ok: "segs_ok (ss @ [a])"
      by (auto simp: tree_of_def split: if_splits)
    have "idb_inv \<lparr>entries = es, times = (\<lambda>_. 0), changes = []\<rparr>" using s by (simp add: idb_inv_def)
    from record_of_get [OF this ok] have ra: "record_at (ss @ [a]) r" using r(1) by simp
    then have "r \<in> set ?cs" using store_get_Some [OF r(1)] by (simp add: record_at_def)
    moreover have "e = entry_of_record r" using e r(2) nm [OF ra] by (simp add: entry_of_record_def)
    ultimately show "e \<in> entry_of_record ` set ?cs" by blast
  qed
  moreover have "map_res dir_entry_of ?cs = Inr (map entry_of_record ?cs)"
    by (rule map_res_total) (rule eq)
  ultimately show ?thesis
    by (intro exI [of _ "map entry_of_record ?cs"]) (simp add: listing_of_def)
qed

lemma idb_readDir_eval:
  assumes "idb_inv s" "path_ok p"
  shows "\<exists>es. idb_readDir p os s =
      (case list_error (idb_fs s) (norm_segs p) of Some e \<Rightarrow> Inl (StorageError e) | None \<Rightarrow> Inr es, s)
      \<and> (list_error (idb_fs s) (norm_segs p) = None \<longrightarrow> listing_of (idb_fs s) (norm_segs p) es)"
proof -
  note ok = segs_ok_norm_segs [OF assms(2)]
  obtain ds where ds: "map_res dir_entry_of (filter (\<lambda>r. er_parent r = render (norm_segs p)) (entries s)) = Inr ds"
    "listing_of (idb_fs s) (norm_segs p) ds"
    using children_listing [OF _ ok] assms(1) by (auto simp: idb_inv_def idb_fs_def)
  show ?thesis
  proof (cases "norm_segs p = []")
    case True
    then have "idb_fs s (norm_segs p) = Some DirN" by (simp add: idb_fs_def)
    then show ?thesis using True ds assms ok
      by (auto simp: idb_readDir_def act_simps path_facts list_error_def listChildren_def)
  next
    case False
    then show ?thesis
      using ds assms ok get_of_tree [OF assms(1) ok]
      by (cases "store_get (render (norm_segs p)) (entries s)")
        (auto simp: idb_readDir_def act_simps path_facts list_error_def listChildren_def getRecord_def node_of_def)
  qed
qed

section \<open>Writing\<close>

definition tick :: "idb \<Rightarrow> idb" where
  "tick s = s\<lparr>times := \<lambda>n. times s (Suc n)\<rparr>"

definition emitted :: "string list \<Rightarrow> change_kind \<Rightarrow> backend_options \<Rightarrow> string option \<Rightarrow> change_event" where
  "emitted ss k os old = \<lparr>ev_path = render ss, ev_kind = k, ev_origin = origin_of os, oldPath = old\<rparr>"

lemma tick_simps [simp]:
  "entries (tick s) = entries s" "changes (tick s) = changes s" "idb_fs (tick s) = idb_fs s"
  "idb_inv (tick s) = idb_inv s"
  by (simp_all add: tick_def idb_fs_def idb_inv_def)

lemma idb_fs_changes [simp]:
  "idb_fs (s\<lparr>changes := cs\<rparr>) = idb_fs s" "idb_inv (s\<lparr>changes := cs\<rparr>) = idb_inv s"
  by (simp_all add: idb_fs_def idb_inv_def)

lemma date_now_eval [act_simps]: "date_now s = (Inr (times s 0), tick s)"
  by (simp add: date_now_def tick_def)

lemma writeRecord_error:
  assumes "idb_inv s" "path_ok p" "norm_segs p \<noteq> []" "write_error (idb_fs s) (norm_segs p) = Some e"
  shows "writeRecord p d n os s = (Inl (StorageError e), s)"
proof -
  note ok = segs_ok_norm_segs [OF assms(2)]
  show ?thesis
  proof (cases "idb_fs s (butlast (norm_segs p)) = Some DirN")
    case True
    then have "idb_fs s (norm_segs p) = Some DirN" "e = Is_directory"
      using assms(4) by (auto simp: write_error_def split: if_splits)
    then obtain r where "store_get (render (norm_segs p)) (entries s) = Some r" "er_kind r = Dir"
      using get_of_tree [OF assms(1) ok] assms(3)
      by (cases "store_get (render (norm_segs p)) (entries s)") auto
    then show ?thesis
      using True assms(1,2) ok \<open>e = Is_directory\<close>
      by (simp add: writeRecord_def act_simps path_facts getRecord_def)
  next
    case False
    then show ?thesis
      using assms ok by (simp add: writeRecord_def act_simps path_facts write_error_def)
  qed
qed

lemma writeRecord_ok:
  assumes "idb_inv s" "path_ok p" "norm_segs p \<noteq> []" "write_error (idb_fs s) (norm_segs p) = None"
    and "n = length (data_bytes d)"
  shows "\<exists>r. record_at (norm_segs p) r \<and> node_of r = FileN (data_bytes d) \<and>
    writeRecord p d n os s = (Inr (), (tick s)\<lparr>entries := store_put r (entries s),
      changes := changes s @ [emitted (norm_segs p) Written os None]\<rparr>)"
proof -
  note ok = segs_ok_norm_segs [OF assms(2)]
  have par: "idb_fs s (butlast (norm_segs p)) = Some DirN" and nd: "idb_fs s (norm_segs p) \<noteq> Some DirN"
    using assms(4) by (auto simp: write_error_def split: if_splits)
  define c where "c = (case store_get (render (norm_segs p)) (entries s) of
      Some x \<Rightarrow> er_ctime x | None \<Rightarrow> times s 0)"
  define r where "r = \<lparr>er_path = render (norm_segs p), er_parent = render (butlast (norm_segs p)),
      er_kind = File, er_data = d, er_size = n, er_mtime = times s 0, er_ctime = c\<rparr>"
  have "record_at (norm_segs p) r" "node_of r = FileN (data_bytes d)"
    using ok assms(3,5) by (simp_all add: record_at_def r_def node_of_def node_size_def)
  moreover have "er_kind x = File" if "store_get (render (norm_segs p)) (entries s) = Some x" for x
    using get_of_tree(2) [OF assms(1) ok that] nd by (cases "er_kind x") auto
  then have "writeRecord p d n os s = (Inr (), (tick s)\<lparr>entries := store_put r (entries s),
      changes := changes s @ [emitted (norm_segs p) Written os None]\<rparr>)"
    using assms(1,2) ok par
    by (auto simp: writeRecord_def act_simps path_facts getRecord_def put_entry_def emitChange_def
        emitted_def r_def c_def split: option.split)
  ultimately show ?thesis by blast
qed

lemma idb_put_ok:
  assumes "idb_inv s" "record_at ss r" "idb_fs s (butlast ss) = Some DirN"
    "er_kind r = File \<longrightarrow> idb_fs s ss \<noteq> Some DirN"
    and "entries s' = store_put r (entries s)"
  shows "idb_inv s' \<and> idb_fs s' = (idb_fs s)(ss \<mapsto> node_of r)"
  using assms store_inv_put [of "entries s" ss r] tree_of_put [of "entries s" ss r]
  by (simp add: idb_inv_def idb_fs_def store_invD(1))

lemma writeRecord_law:
  assumes "idb_inv s" "path_ok p" "norm_segs p \<noteq> []" "n = length (data_bytes d)"
    and "writeRecord p d n os s = (r, s')"
  shows "idb_inv s' \<and> update_ok (write_error (idb_fs s) (norm_segs p)) (idb_fs s)
           ((idb_fs s)(norm_segs p \<mapsto> FileN (data_bytes d))) r (idb_fs s')"
proof (cases "write_error (idb_fs s) (norm_segs p)")
  case None
  then obtain x where x: "record_at (norm_segs p) x" "node_of x = FileN (data_bytes d)"
    "writeRecord p d n os s = (Inr (), (tick s)\<lparr>entries := store_put x (entries s),
      changes := changes s @ [emitted (norm_segs p) Written os None]\<rparr>)"
    using writeRecord_ok [OF assms(1-3) _ assms(4)] by blast
  then have "idb_inv s' \<and> idb_fs s' = (idb_fs s)(norm_segs p \<mapsto> node_of x)"
    using None assms(5) by (intro idb_put_ok [OF assms(1)]) (auto simp: write_error_def split: if_splits)
  then show ?thesis using None x assms(5) by simp
next
  case (Some e)
  then show ?thesis using writeRecord_error [OF assms(1-3) Some] assms(1,5) by simp
qed

section \<open>Making directories\<close>

lemma makeDir_law:
  assumes "idb_inv s" "segs_ok ss" "ss \<noteq> []" "idb_fs s (butlast ss) = Some DirN"
    and "makeDir now (render ss) s = (r, s')"
  shows "idb_inv s' \<and> changes s' = changes s \<and>
    (case idb_fs s ss of
       Some (FileN b) \<Rightarrow> r = Inl (StorageError Already_exists) \<and> s' = s
     | _ \<Rightarrow> r = Inr () \<and> idb_fs s' = (idb_fs s)(ss \<mapsto> DirN))"
proof (cases "store_get (render ss) (entries s)")
  case None
  let ?x = "\<lparr>er_path = render ss, er_parent = render (butlast ss), er_kind = Dir, er_data = Text [],
      er_size = 0, er_mtime = now, er_ctime = now\<rparr>"
  have s': "r = Inr ()" "s' = s\<lparr>entries := store_put ?x (entries s)\<rparr>"
    using assms(2,5) None by (auto simp: makeDir_def act_simps getRecord_def path_facts put_entry_def)
  have "idb_inv s' \<and> idb_fs s' = (idb_fs s)(ss \<mapsto> node_of ?x)"
    using assms s'(2) by (intro idb_put_ok) (auto simp: record_at_def node_size_def)
  then show ?thesis
    using s' None get_of_tree(1) [OF assms(1,2)] assms(3) by (simp add: node_of_def)
next
  case (Some x)
  then have "idb_fs s ss = Some (node_of x)" using get_of_tree(2) [OF assms(1,2)] by simp
  then show ?thesis
    using assms(1,5) Some
    by (auto simp: makeDir_def act_simps getRecord_def node_of_def split: if_splits)
qed

lemma render_append:
  "ss \<noteq> [] \<Longrightarrow> render (ss @ ts) = render ss @ (if ts = [] then [] else ''/'' @ join_with ''/'' ts)"
proof (induction ts rule: rev_induct)
  case (snoc t ts)
  have "join_with ''/'' (ts @ [t]) = (if ts = [] then t else join_with ''/'' ts @ ''/'' @ t)"
    by (induction ts) (auto simp: join_with_Cons)
  with snoc show ?case using render_snoc [of "ss @ ts" t] by simp
qed simp

lemma mkdirs_whole: "tree_ok t \<Longrightarrow> t ss = Some DirN \<Longrightarrow> mkdirs ss t = t"
proof
  fix q assume t: "tree_ok t" "t ss = Some DirN"
  show "mkdirs ss t q = t q"
  proof (cases "prefix q ss")
    case True
    then obtain z where "ss = q @ z" by (auto simp: prefix_def)
    then show ?thesis using t tree_ok_prefix [OF t(1), of q z] True by (cases "z = []") (auto simp: mkdirs_def)
  qed (simp add: mkdirs_def)
qed

lemma mkdirs_upd:
  assumes "tree_ok t" "t (butlast q) = Some DirN" "q \<noteq> []"
  shows "t(q \<mapsto> DirN) = mkdirs q t"
proof
  fix x
  have "t x = Some DirN" if "prefix x q" "x \<noteq> q"
  proof -
    obtain y ys where "q = ys @ [y]" using assms(3) by (cases q rule: rev_cases) auto
    moreover from this have "prefix x ys" using that by simp
    ultimately obtain z where "butlast q = x @ z" by (auto simp: prefix_def)
    then show ?thesis using assms(1,2) tree_ok_prefix [OF assms(1), of x z] by (cases "z = []") auto
  qed
  then show "(t(q \<mapsto> DirN)) x = mkdirs q t x" by (simp add: mkdirs_def)
qed

lemma mkdirs_mkdirs: "prefix a b \<Longrightarrow> mkdirs b (mkdirs a t) = mkdirs b t"
  by (auto simp: mkdirs_def fun_eq_iff)


definition file_on_way :: "tree \<Rightarrow> string list \<Rightarrow> bool" where
  "file_on_way t ss \<longleftrightarrow> (\<exists>q. prefix q ss \<and> t q \<noteq> None \<and> t q \<noteq> Some DirN)"

lemma mkdir_error_eq:
  "mkdir_error rec t ss =
     (if ss = [] then None
      else if \<not> rec \<and> t (butlast ss) \<noteq> Some DirN then Some Not_found
      else if file_on_way t ss then Some Already_exists else None)"
  by (simp add: mkdir_error_def file_on_way_def list_ex_iff Bex_def)

lemma file_on_way_mkdirs:
  assumes "prefix a w" "\<forall>q. prefix q a \<longrightarrow> t q = None \<or> t q = Some DirN"
  shows "file_on_way (mkdirs a t) w = file_on_way t w"
proof -
  have "(mkdirs a t q \<noteq> None \<and> mkdirs a t q \<noteq> Some DirN) = (t q \<noteq> None \<and> t q \<noteq> Some DirN)" for q
    using assms(2) by (auto simp: mkdirs_def)
  then show ?thesis unfolding file_on_way_def by blast
qed

lemma file_on_way_none:
  assumes "tree_ok t" "prefix a w" "t a = None"
  shows "\<not> file_on_way (mkdirs a t) w"
proof
  assume "file_on_way (mkdirs a t) w"
  then obtain q where q: "prefix q w" "mkdirs a t q \<noteq> None" "mkdirs a t q \<noteq> Some DirN"
    unfolding file_on_way_def by blast
  then have "\<not> prefix q a" "t q \<noteq> None" by (simp_all add: mkdirs_def split: if_splits)
  moreover from this have "prefix a q" using prefix_same_cases [OF assms(2) q(1)] by simp
  ultimately show False using tree_ok_under_none [OF assms(1,3), of q] by simp
qed

lemma dirs_on_way: "tree_ok t \<Longrightarrow> t a = Some DirN \<Longrightarrow> prefix q a \<Longrightarrow> t q = Some DirN"
  using fun_cong [OF mkdirs_whole [of t a], of q] by (simp add: mkdirs_def)

lemma mkdir_loop_law:
  assumes "idb_inv s" "segs_ok (pre @ rest)" "idb_fs s pre = Some DirN"
    and "mkdir_loop now (if pre = [] then [] else render pre) rest s = (r, s')"
  shows "idb_inv s' \<and> changes s' = changes s \<and>
     (if file_on_way (idb_fs s) (pre @ rest) then r = Inl (StorageError Already_exists) \<and> idb_fs s' = idb_fs s
      else r = Inr () \<and> idb_fs s' = mkdirs (pre @ rest) (idb_fs s))"
  using assms
proof (induction rest arbitrary: pre s)
  case Nil
  then have "tree_ok (idb_fs s)" by (simp add: idb_inv_def idb_fs_def store_invD(2))
  with Nil show ?case
    using dirs_on_way [of "idb_fs s" pre] mkdirs_whole [of "idb_fs s" pre]
    by (auto simp: act_simps file_on_way_def)
next
  case (Cons g rest)
  let ?a = "pre @ [g]"
  have t: "tree_ok (idb_fs s)" using Cons.prems(1) by (simp add: idb_inv_def idb_fs_def store_invD(2))
  have cur: "(if pre = [] then [] else render pre) @ ''/'' @ g = render ?a"
    by (simp add: render_snoc)
  have ok: "segs_ok ?a" "?a \<noteq> []" "idb_fs s (butlast ?a) = Some DirN" using Cons.prems(2,3) by auto
  obtain r1 s1 where s1: "makeDir now (render ?a) s = (r1, s1)" by fastforce
  note step = makeDir_law [OF Cons.prems(1) ok s1]
  have pa: "prefix ?a (pre @ g # rest)" by simp
  show ?case
  proof (cases "\<exists>b. idb_fs s ?a = Some (FileN b)")
    case True
    then have "file_on_way (idb_fs s) (pre @ g # rest)"
      unfolding file_on_way_def using pa by (intro exI [of _ ?a]) auto
    then show ?thesis
      using True step Cons.prems(1,4) s1 cur by (auto simp: athen_apply)
  next
    case False
    then have d: "idb_fs s ?a = None \<or> idb_fs s ?a = Some DirN" using node.exhaust by (metis option.exhaust)
    then have fs1: "idb_inv s1" "changes s1 = changes s" "r1 = Inr ()" "idb_fs s1 = mkdirs ?a (idb_fs s)"
      using step mkdirs_upd [OF t ok(3,2)] by auto
    have way: "\<forall>q. prefix q ?a \<longrightarrow> idb_fs s q = None \<or> idb_fs s q = Some DirN"
      using d dirs_on_way [OF t Cons.prems(3)] by auto
    have "mkdir_loop now (if ?a = [] then [] else render ?a) rest s1 = (r, s')"
      using Cons.prems(4) s1 fs1(3) cur by (simp add: athen_apply)
    moreover have "idb_fs s1 ?a = Some DirN" using fs1(4) by (simp add: mkdirs_def)
    ultimately have IH: "idb_inv s' \<and> changes s' = changes s1 \<and>
       (if file_on_way (idb_fs s1) (pre @ g # rest) then r = Inl (StorageError Already_exists) \<and> idb_fs s' = idb_fs s1
        else r = Inr () \<and> idb_fs s' = mkdirs (pre @ g # rest) (idb_fs s1))"
      using Cons.IH [OF fs1(1), of ?a] Cons.prems(2) by simp
    have "idb_fs s1 = idb_fs s" if "file_on_way (idb_fs s1) (pre @ g # rest)"
      using that d fs1(4) file_on_way_none [OF t pa] mkdirs_whole [OF t] by auto
    then show ?thesis
      using IH fs1 file_on_way_mkdirs [OF pa way] mkdirs_mkdirs [OF pa, of "idb_fs s"] by auto
  qed
qed

lemma mkdir_body_law:
  assumes "idb_inv s" "segs_ok ss" "ss \<noteq> []"
    and "(if is_recursive os then abind (alift (pathSegments (render ss))) (mkdir_loop now [])
          else abind (alift (parentPath (render ss))) (\<lambda>parent.
                 athen (require_dir parent) (makeDir now (render ss)))) s = (r, s')"
  shows "idb_inv s' \<and> changes s' = changes s \<and> update_ok (mkdir_error (is_recursive os) (idb_fs s) ss)
      (idb_fs s) (mkdir_tree ss (idb_fs s)) r (idb_fs s')"
proof (cases "is_recursive os")
  case True
  then have "mkdir_loop now [] ss s = (r, s')" using assms(2,4) by (simp add: act_simps)
  then show ?thesis
    using True mkdir_loop_law [OF assms(1), of "[]" ss] assms(2,3)
    by (auto simp: mkdir_error_eq mkdir_tree_def idb_fs_def split: if_splits)
next
  case False
  note t = store_invD(2) [OF assms(1) [unfolded idb_inv_def], folded idb_fs_def]
  show ?thesis
  proof (cases "idb_fs s (butlast ss) = Some DirN")
    case par: True
    then have "makeDir now (render ss) s = (r, s')"
      using assms False by (simp add: act_simps path_facts)
    note step = makeDir_law [OF assms(1-3) par this]
    have "file_on_way (idb_fs s) ss \<longleftrightarrow> (\<exists>b. idb_fs s ss = Some (FileN b))"
      using dirs_on_way [OF t par] assms(3)
      by (cases ss rule: rev_cases) (auto simp: file_on_way_def, metis node.exhaust)
    then show ?thesis
      using step False par assms(3) mkdirs_upd [OF t par assms(3)]
      by (auto simp: mkdir_error_eq mkdir_tree_def split: option.splits node.splits)
  next
    case nopar: False
    then show ?thesis using assms False by (simp add: act_simps path_facts mkdir_error_eq)
  qed
qed

lemma idb_mkdir_law:
  assumes "idb_inv s" "path_ok p" "idb_mkdir p os s = (r, s')"
  shows "idb_inv s' \<and> update_ok (mkdir_error (is_recursive os) (idb_fs s) (norm_segs p)) (idb_fs s)
           (mkdir_tree (norm_segs p) (idb_fs s)) r (idb_fs s')
       \<and> changes s' = changes s @
           (if r = Inr () \<and> norm_segs p \<noteq> [] then [emitted (norm_segs p) Created os None] else [])"
proof -
  note ok = segs_ok_norm_segs [OF assms(2)]
  show ?thesis
  proof (cases "norm_segs p = []")
    case True
    have "mkdirs [] (idb_fs s) = idb_fs s" by (auto simp: mkdirs_def fun_eq_iff idb_fs_def)
    then show ?thesis
      using True assms by (simp add: idb_mkdir_def act_simps mkdir_error_def mkdir_tree_def)
  next
    case False
    define body where "body = (if is_recursive os then abind (alift (pathSegments (render (norm_segs p)))) (mkdir_loop (times s 0) [])
          else abind (alift (parentPath (render (norm_segs p)))) (\<lambda>parent.
                 athen (require_dir parent) (makeDir (times s 0) (render (norm_segs p)))))"
    obtain r1 s1 where b: "body (tick s) = (r1, s1)" by fastforce
    have "idb_inv (tick s)" using assms(1) by simp
    note law = mkdir_body_law [OF this ok False b [unfolded body_def]]
    have "idb_mkdir p os s = (case r1 of Inl e \<Rightarrow> (Inl e, s1)
        | Inr _ \<Rightarrow> (Inr (), s1\<lparr>changes := changes s1 @ [emitted (norm_segs p) Created os None]\<rparr>))"
      using assms(2) ok False b
      by (auto simp: idb_mkdir_def act_simps body_def [symmetric] emitChange_def emitted_def split: sum.split)
    then show ?thesis
      using law assms(3) False
      by (cases r1) (auto split: option.splits simp: update_ok_def)
  qed
qed

section \<open>Removing and renaming\<close>

lemma idb_tree_ok: "idb_inv s \<Longrightarrow> tree_ok (idb_fs s)"
  by (simp add: idb_inv_def idb_fs_def store_invD(2))

lemma store_get_filter: "store_get p (filter (\<lambda>r. P (er_path r)) es) = (if P p then store_get p es else None)"
proof (cases "P p")
  case True
  then have "(\<lambda>r. P (er_path r) \<and> er_path r = p) = (\<lambda>r. er_path r = p)" by auto
  then have "find (\<lambda>r. P (er_path r) \<and> er_path r = p) es = find (\<lambda>r. er_path r = p) es" by (rule arg_cong)
  then show ?thesis using True by (simp add: store_get_def find_filter)
next
  case False
  then show ?thesis by (auto simp: store_get_def find_filter find_None_iff)
qed

lemma tree_of_filter:
  "tree_of (filter (\<lambda>r. P (er_path r)) es) q =
     (if q = [] then Some DirN else if P (render q) then tree_of es q else None)"
  by (simp add: tree_of_def store_get_filter)

lemma keys_ok_filter: "keys_ok es \<Longrightarrow> keys_ok (filter P es)"
  by (simp add: keys_ok_def sorted_filter distinct_map_filter)

lemma under_record:
  "record_at ss r \<Longrightarrow> segs_ok a \<Longrightarrow> isUnder (er_path r) (render a) = Inr (prefix a ss)"
  by (simp add: record_at_def)

lemma delete_entry_eval: "delete_entry p s = (Inr (), s\<lparr>entries := store_delete p (entries s)\<rparr>)"
  by (simp add: delete_entry_def act_simps)

lemma delete_all_eval:
  "afor (\<lambda>c. delete_entry (er_path c)) cs s =
     (Inr (), s\<lparr>entries := filter (\<lambda>r. er_path r \<notin> er_path ` set cs) (entries s)\<rparr>)"
  by (induction cs arbitrary: s)
    (auto simp: act_simps delete_entry_def store_delete_def intro!: arg_cong [where f = "\<lambda>x. _\<lparr>entries := x\<rparr>"] filter_cong)

lemma filter_res_records:
  assumes "store_inv es" "segs_ok a"
    and "\<And>ss r. r \<in> set es \<Longrightarrow> record_at ss r \<Longrightarrow> p r = Inr (q ss)"
  shows "filter_res p es = Inr (filter (\<lambda>r. q (norm_segs (er_path r))) es)"
proof (rule filter_res_total)
  fix r assume r: "r \<in> set es"
  then obtain ss where "record_at ss r" using store_invD(3) [OF assms(1)] by blast
  with assms(3) [OF r this] show "p r = Inr (q (norm_segs (er_path r)))" by (simp add: record_at_def)
qed

definition remove_body :: "string \<Rightarrow> backend_options \<Rightarrow> (idb, unit) act" where
  "remove_body normalized options =
     abind (getRecord normalized) (\<lambda>record.
       case record of None \<Rightarrow> athrow (StorageError Not_found)
       | Some r \<Rightarrow>
           athen
             (if er_kind r = Dir
              then abind (aread entries) (\<lambda>all.
                abind (alift (filter_res (\<lambda>x. if er_path x = normalized then Inr False
                                             else isUnder (er_path x) normalized) all))
                  (\<lambda>descendants.
                     if descendants \<noteq> [] \<and> \<not> is_recursive options
                     then athrow (StorageError Not_empty)
                     else afor (\<lambda>child. delete_entry (er_path child)) descendants))
              else aret ())
             (delete_entry normalized))"

lemma has_children_records:
  assumes "store_inv es" "segs_ok a"
  shows "has_children (tree_of es) a \<longleftrightarrow> filter (\<lambda>r. strict_prefix a (norm_segs (er_path r))) es \<noteq> []"
proof
  assume "has_children (tree_of es) a"
  then obtain q n where q: "strict_prefix a q" "tree_of es q = Some n" by (auto simp: has_children_def)
  then have "q \<noteq> []" by auto
  then obtain r where "store_get (render q) es = Some r" "segs_ok q" using q(2) by (auto simp: tree_of_def split: if_splits)
  then have "r \<in> set es" "norm_segs (er_path r) = q" using store_get_Some by fastforce+
  with q(1) show "filter (\<lambda>r. strict_prefix a (norm_segs (er_path r))) es \<noteq> []"
    by (auto simp: filter_empty_conv)
next
  assume "filter (\<lambda>r. strict_prefix a (norm_segs (er_path r))) es \<noteq> []"
  then obtain r where r: "r \<in> set es" "strict_prefix a (norm_segs (er_path r))" by (auto simp: filter_empty_conv)
  then obtain ss where ss: "record_at ss r" using store_invD(3) [OF assms(1)] by blast
  then have "tree_of es ss = Some (node_of r)"
    using r(1) store_get_in [OF store_invD(1) [OF assms(1)] r(1)] by (simp add: tree_of_def record_at_def)
  then show "has_children (tree_of es) a"
    using r(2) ss by (auto simp: has_children_def record_at_def)
qed

lemma remove_whole:
  assumes "store_inv es" "segs_ok a" "a \<noteq> []"
  shows "store_inv (filter (\<lambda>r. \<not> prefix a (norm_segs (er_path r))) es)"
    "tree_of (filter (\<lambda>r. \<not> prefix a (norm_segs (er_path r))) es) = remove_tree a (tree_of es)"
proof -
  show *: "tree_of (filter (\<lambda>r. \<not> prefix a (norm_segs (er_path r))) es) = remove_tree a (tree_of es)"
  proof
    fix q
    show "tree_of (filter (\<lambda>r. \<not> prefix a (norm_segs (er_path r))) es) q = remove_tree a (tree_of es) q"
      using tree_of_filter [of "\<lambda>p. \<not> prefix a (norm_segs p)" es q] assms(3)
      by (cases "segs_ok q") (auto simp: remove_tree_def, auto simp: tree_of_def)
  qed
  show "store_inv (filter (\<lambda>r. \<not> prefix a (norm_segs (er_path r))) es)"
    using store_invD [OF assms(1)] tree_ok_remove [of "tree_of es" a] assms(3)
    by (simp add: store_inv_def * keys_ok_filter)
qed

lemma remove_body_eval:
  assumes s: "idb_inv s" and a: "segs_ok a" "a \<noteq> []"
  shows "remove_body (render a) os s =
     (case remove_error (is_recursive os) (idb_fs s) a of
        Some e \<Rightarrow> (Inl (StorageError e), s)
      | None \<Rightarrow> (Inr (), s\<lparr>entries := filter (\<lambda>r. \<not> prefix a (norm_segs (er_path r))) (entries s)\<rparr>))"
proof -
  have inv: "store_inv (entries s)" using s by (simp add: idb_inv_def)
  let ?cs = "filter (\<lambda>r. strict_prefix a (norm_segs (er_path r))) (entries s)"
  have children: "has_children (idb_fs s) a \<longleftrightarrow> ?cs \<noteq> []"
    using has_children_records [OF inv a(1)] by (simp add: idb_fs_def)
  have fr: "filter_res (\<lambda>x. if er_path x = render a then Inr False else isUnder (er_path x) (render a)) (entries s)
      = Inr ?cs"
    by (rule filter_res_records [OF inv a(1)])
      (auto simp: under_record [OF _ a(1)] strict_prefix_def, auto simp: record_at_def render_inj a)
  have path: "norm_segs (er_path r) = ss" if "record_at ss r" for r ss using that by (simp add: record_at_def)
  have rest: "filter (\<lambda>r. er_path r \<noteq> render a) (filter (\<lambda>r. er_path r \<notin> er_path ` set ?cs) (entries s))
      = filter (\<lambda>r. \<not> prefix a (norm_segs (er_path r))) (entries s)"
    unfolding filter_filter
  proof (rule filter_cong [OF refl])
    fix r assume r: "r \<in> set (entries s)"
    then obtain ss where ss: "record_at ss r" using store_invD(3) [OF inv] by blast
    have "er_path r = render a \<longleftrightarrow> ss = a" using ss a by (auto simp: record_at_def render_inj)
    moreover have "er_path r \<in> er_path ` set ?cs \<longleftrightarrow> strict_prefix a ss"
      using r path [OF ss] by (auto simp: image_iff)
    ultimately show "(er_path r \<notin> er_path ` set ?cs \<and> er_path r \<noteq> render a) = (\<not> prefix a (norm_segs (er_path r)))"
      using path [OF ss] by (auto simp: strict_prefix_def)
  qed
  show ?thesis
  proof (cases "store_get (render a) (entries s)")
    case None
    then show ?thesis
      using get_of_tree(1) [OF s a(1)] a(2) by (simp add: remove_body_def act_simps getRecord_def remove_error_def)
  next
    case (Some r)
    then have node: "idb_fs s a = Some (node_of r)" using get_of_tree(2) [OF s a(1)] by simp
    show ?thesis
    proof (cases "er_kind r = Dir")
      case True
      have "athen (afor (\<lambda>c. delete_entry (er_path c)) ?cs) (delete_entry (render a)) s =
          (Inr (), s\<lparr>entries := filter (\<lambda>r. \<not> prefix a (norm_segs (er_path r))) (entries s)\<rparr>)"
        using rest by (simp add: athen_apply delete_all_eval delete_entry_eval store_delete_def)
      moreover have "remove_body (render a) os s =
          (if ?cs \<noteq> [] \<and> \<not> is_recursive os then (Inl (StorageError Not_empty), s)
           else athen (afor (\<lambda>c. delete_entry (er_path c)) ?cs) (delete_entry (render a)) s)"
        using True Some fr by (auto simp: remove_body_def act_simps getRecord_def)
      ultimately show ?thesis
        using node a(2) children by (simp add: remove_error_def del: filter_empty_conv)
    next
      case False
      then have "\<not> has_children (idb_fs s) a"
        using node tree_ok_under_file [OF idb_tree_ok [OF s]] by (auto simp: has_children_def node_of_def)
      then show ?thesis
        using False Some node a(2) rest children
        by (simp add: remove_body_def act_simps getRecord_def remove_error_def delete_entry_eval store_delete_def)
    qed
  qed
qed

lemma idb_remove_law:
  assumes "idb_inv s" "path_ok p" "idb_remove p os s = (r, s')"
  shows "idb_inv s' \<and> update_ok (remove_error (is_recursive os) (idb_fs s) (norm_segs p)) (idb_fs s)
           (remove_tree (norm_segs p) (idb_fs s)) r (idb_fs s')
       \<and> changes s' = changes s @ (if r = Inr () then [emitted (norm_segs p) Deleted os None] else [])"
proof (cases "norm_segs p = []")
  case True
  then show ?thesis using assms by (auto simp: idb_remove_def act_simps remove_error_def)
next
  case False
  note ok = segs_ok_norm_segs [OF assms(2)]
  have "idb_remove p os s = athen (remove_body (render (norm_segs p)) os)
      (emitChange (emitted (norm_segs p) Deleted os None)) s"
    using False ok assms(2) by (simp add: idb_remove_def act_simps remove_body_def emitted_def)
  then show ?thesis
    using assms(1,3) remove_body_eval [OF assms(1) ok False, of os] remove_whole [OF _ ok False, of "entries s"]
    by (auto simp: athen_apply emitChange_def act_simps update_ok_def idb_inv_def idb_fs_def split: option.splits)
qed


text \<open>The record \<open>rename\<close> writes for a record under the source.\<close>

definition moved :: "nat \<Rightarrow> string list \<Rightarrow> string list \<Rightarrow> entry_record \<Rightarrow> entry_record" where
  "moved now a b r =
     (let q = b @ drop (length a) (norm_segs (er_path r)) in
      r\<lparr>er_path := render q, er_parent := render (butlast q), er_mtime := now\<rparr>)"

definition move_step :: "nat \<Rightarrow> string list \<Rightarrow> string list \<Rightarrow> entry_record \<Rightarrow> entry_record list \<Rightarrow> entry_record list" where
  "move_step now a b r es = store_put (moved now a b r) (store_delete (er_path r) es)"

definition records_ok :: "entry_record list \<Rightarrow> bool" where
  "records_ok es \<longleftrightarrow> keys_ok es \<and> (\<forall>r \<in> set es. \<exists>ss. record_at ss r)"

lemma moved_record:
  assumes "record_at (a @ z) r" "segs_ok b" "b \<noteq> []"
  shows "record_at (b @ z) (moved now a b r)" "node_of (moved now a b r) = node_of r"
  using assms by (auto simp: record_at_def moved_def Let_def node_of_def)

lemma drop_render:
  assumes "a \<noteq> []" "b \<noteq> []"
  shows "render b @ drop (length (render a)) (render (a @ z)) = render (b @ z)"
  using render_append [OF assms(1), of z] render_append [OF assms(2), of z] by simp

lemma move_entry_eval:
  assumes "record_at (a @ z) r" "segs_ok b" "a \<noteq> []" "b \<noteq> []"
  shows "move_entry now (render a) (render b) r s =
    (Inr (), s\<lparr>entries := move_step now a b r (entries s)\<rparr>)"
proof -
  have "segs_ok (b @ z)" "er_path r = render (a @ z)" "norm_segs (er_path r) = a @ z"
    using assms by (auto simp: record_at_def)
  then show ?thesis
    using drop_render [OF assms(3,4), of z]
    by (simp add: move_entry_def act_simps path_facts delete_entry_def put_entry_def move_step_def moved_def Let_def
        del: segs_ok_simps)
qed

lemma move_all_eval:
  assumes "\<forall>r \<in> set as. \<exists>z. record_at (a @ z) r" "segs_ok b" "a \<noteq> []" "b \<noteq> []"
  shows "afor (move_entry now (render a) (render b)) as s =
    (Inr (), s\<lparr>entries := fold (move_step now a b) as (entries s)\<rparr>)"
  using assms(1)
proof (induction as arbitrary: s)
  case (Cons r as)
  then obtain z where "record_at (a @ z) r" by auto
  then show ?case using Cons move_entry_eval [OF _ assms(2-4)] by (simp add: act_simps)
qed (simp add: act_simps)

lemma move_step_ok:
  assumes "records_ok es" "record_at (a @ z) r" "segs_ok b" "b \<noteq> []"
  shows "records_ok (move_step now a b r es)"
    "tree_of (move_step now a b r es) = (tree_of es)(a @ z := None, b @ z \<mapsto> node_of r)"
proof -
  note m = moved_record [OF assms(2-4), of now]
  have path: "er_path r = render (a @ z)" "segs_ok (a @ z)" "a @ z \<noteq> []"
    using assms(2) by (auto simp: record_at_def)
  show "tree_of (move_step now a b r es) = (tree_of es)(a @ z := None, b @ z \<mapsto> node_of r)"
    using assms(1) m tree_of_delete [OF path(2,3)]
    by (simp add: move_step_def records_ok_def tree_of_put path(1))
  show "records_ok (move_step now a b r es)"
    using assms(1) m(1) by (auto simp: records_ok_def move_step_def)
qed

lemma tree_of_Cons:
  "record_at ss r \<Longrightarrow> tree_of (r # es) q = (if q = ss then Some (node_of r) else tree_of es q)"
  by (auto simp: tree_of_def store_get_def record_at_def render_inj)

lemma move_all_tree:
  assumes "records_ok es" "records_ok as" "\<forall>r \<in> set as. \<exists>z. record_at (a @ z) r"
    and ab: "segs_ok b" "a \<noteq> []" "b \<noteq> []" "\<not> prefix a b" "\<not> prefix b a"
  shows "records_ok (fold (move_step now a b) as es) \<and>
    tree_of (fold (move_step now a b) as es) q =
      (if prefix b q \<and> tree_of as (a @ drop (length b) q) \<noteq> None then tree_of as (a @ drop (length b) q)
       else if q \<noteq> [] \<and> tree_of as q \<noteq> None then None else tree_of es q)"
  using assms(1-3)
proof (induction as arbitrary: es)
  case Nil
  then show ?case using ab(2) by (auto simp: tree_of_def store_get_def)
next
  case (Cons r as)
  then obtain z where z: "record_at (a @ z) r" by auto
  let ?es = "move_step now a b r es"
  note step = move_step_ok [OF Cons.prems(1) z ab(1,3), of now]
  have as: "records_ok as" using Cons.prems(2) by (auto simp: records_ok_def keys_ok_def)
  have "store_get (render (a @ z)) as = None"
    using Cons.prems(2) z by (auto simp: store_get_None records_ok_def keys_ok_def record_at_def image_iff)
  then have noz: "tree_of as (a @ z) = None" using ab(2) by (simp add: tree_of_def)
  have under: "prefix a x" if x: "tree_of as x \<noteq> None" "x \<noteq> []" for x
  proof -
    obtain y where y: "store_get (render x) as = Some y" "segs_ok x"
      using x by (auto simp: tree_of_def split: if_splits)
    then obtain w where "record_at (a @ w) y" using Cons.prems(3) store_get_Some by fastforce
    then have "x = a @ w" using store_get_Some [OF y(1)] y(2) by (auto simp: record_at_def render_inj)
    then show ?thesis by simp
  qed
  have apart: "\<not> prefix a x" if "prefix b x" for x
    using that ab(4,5) prefix_same_cases by blast
  have IH: "records_ok (fold (move_step now a b) as ?es) \<and>
    tree_of (fold (move_step now a b) as ?es) q =
      (if prefix b q \<and> tree_of as (a @ drop (length b) q) \<noteq> None then tree_of as (a @ drop (length b) q)
       else if q \<noteq> [] \<and> tree_of as q \<noteq> None then None else tree_of ?es q)"
    using Cons.IH [OF step(1) as] Cons.prems(3) by simp
  show ?case
  proof (cases "prefix b q")
    case True
    then obtain w where w: "q = b @ w" by (auto simp: prefix_def)
    have "\<not> prefix a (b @ w)" using apart [OF True] w by simp
    then have "tree_of as (b @ w) = None"
      using under [of "b @ w"] ab(3) by (cases "tree_of as (b @ w)") auto
    moreover have "b @ w \<noteq> a @ z" using \<open>\<not> prefix a (b @ w)\<close> by (metis prefixI)
    ultimately have "tree_of as (b @ w) = None" "b @ w \<noteq> a @ z" by blast+
    then show ?thesis
      using IH noz by (auto simp: w step(2) tree_of_Cons [OF z])
  next
    case False
    then have "q \<noteq> b @ z" by auto
    then show ?thesis
      using IH noz False ab(2) by (auto simp: step(2) tree_of_Cons [OF z])
  qed
qed

lemma affected_records:
  assumes "store_inv es" "segs_ok a" "a \<noteq> []"
  defines "as \<equiv> filter (\<lambda>r. prefix a (norm_segs (er_path r))) es"
  shows "records_ok as" "\<forall>r \<in> set as. \<exists>z. record_at (a @ z) r"
    "tree_of as q = (if q = [] then Some DirN else if prefix a q then tree_of es q else None)"
proof -
  have rec: "\<exists>z. record_at (a @ z) r" if r: "r \<in> set as" for r
  proof -
    obtain ss where ss: "record_at ss r" using r store_invD(3) [OF assms(1)] by (auto simp: as_def)
    then have "prefix a ss" using r by (auto simp: as_def record_at_def)
    then show ?thesis using ss by (auto simp: prefix_def)
  qed
  then show "\<forall>r \<in> set as. \<exists>z. record_at (a @ z) r" by blast
  show "records_ok as"
    using rec store_invD(1) [OF assms(1)] by (auto simp: records_ok_def as_def keys_ok_filter)
  show "tree_of as q = (if q = [] then Some DirN else if prefix a q then tree_of es q else None)"
    using tree_of_filter [of "\<lambda>p. prefix a (norm_segs p)" es q]
    by (cases "segs_ok q") (auto simp: as_def, auto simp: tree_of_def)
qed

lemma move_all_store:
  assumes inv: "store_inv es" and a: "segs_ok a" "a \<noteq> []" and b: "segs_ok b" "b \<noteq> []"
    and free: "rename_error (tree_of es) a b = None" "a \<noteq> b"
  defines "as \<equiv> filter (\<lambda>r. prefix a (norm_segs (er_path r))) es"
  shows "store_inv (fold (move_step now a b) as es) \<and> tree_of (fold (move_step now a b) as es) = move_tree a b (tree_of es)"
proof -
  note t = store_invD(2) [OF inv]
  have e: "\<not> prefix a b" "tree_of es a \<noteq> None" "tree_of es b = None" "tree_of es (butlast b) = Some DirN"
    using free a(2) by (auto simp: rename_error_def split: if_splits)
  have nba: "\<not> prefix b a" 
  proof
    assume "prefix b a"
    from tree_ok_under_none [OF t e(3) this] e(2) show False by simp
  qed
  note aff = affected_records [OF inv a, folded as_def]
  have "records_ok es" using store_invD(1,3) [OF inv] by (auto simp: records_ok_def)
  note all = move_all_tree [OF this aff(1,2) b(1) a(2) b(2) e(1) nba, of now]
  have tree: "tree_of (fold (move_step now a b) as es) = move_tree a b (tree_of es)"
  proof
    fix q
    show "tree_of (fold (move_step now a b) as es) q = move_tree a b (tree_of es) q"
    proof (cases "prefix b q")
      case True
      have "\<not> prefix a q" using prefix_same_cases [OF _ True, of a] e(1) nba by metis
      moreover have "tree_of es q = None" by (rule tree_ok_under_none [OF t e(3) True])
      moreover have "q \<noteq> []" using True b(2) by auto
      ultimately show ?thesis
        using True all [of q] a(2) by (simp add: aff(3) move_tree_def)
    next
      case False
      then show ?thesis using all [of q] a(2) by (auto simp: aff(3) move_tree_def)
    qed
  qed
  have "tree_ok (move_tree a b (tree_of es))"
    by (rule tree_ok_move [OF t a(2) b e])
  then show ?thesis using tree all [of "[]"] by (simp add: store_inv_def records_ok_def)
qed


lemma idb_rename_law:
  assumes "idb_inv s" "path_ok p" "path_ok q" "norm_segs q \<noteq> []" "idb_rename p q os s = (r, s')"
  shows "idb_inv s' \<and> update_ok (rename_error (idb_fs s) (norm_segs p) (norm_segs q)) (idb_fs s)
           (rename_tree (norm_segs p) (norm_segs q) (idb_fs s)) r (idb_fs s')
       \<and> changes s' = changes s @
           (if r = Inr () \<and> norm_segs p \<noteq> norm_segs q
            then [emitted (norm_segs q) Renamed os (Some (render (norm_segs p)))] else [])"
proof -
  define a b where "a = norm_segs p" and "b = norm_segs q"
  have a: "segs_ok a" and b: "segs_ok b" "b \<noteq> []"
    using assms(2-4) by (simp_all add: a_def b_def segs_ok_norm_segs)
  have norm: "normalizePath p = Inr (render a)" "normalizePath q = Inr (render b)"
    using assms(2,3) by (simp_all add: a_def b_def)
  have inv: "store_inv (entries s)" using assms(1) by (simp add: idb_inv_def)
  show ?thesis
  proof (cases "a = [] \<or> a = b \<or> prefix a b")
    case True
    then show ?thesis
      using assms(1,5) a b norm unfolding a_def [symmetric] b_def [symmetric]
      by (auto simp: idb_rename_def act_simps path_facts rename_error_def rename_tree_def render_inj
          split: if_splits)
  next
    case False
    have fr: "filter_res (\<lambda>r. if er_path r = render a then Inr True else isUnder (er_path r) (render a)) (entries s)
        = Inr (filter (\<lambda>r. prefix a (norm_segs (er_path r))) (entries s))"
      by (rule filter_res_records [OF inv a])
        (auto simp: under_record [OF _ a], auto simp: record_at_def render_inj a)
    have eval: "idb_rename p q os s = (case rename_error (idb_fs s) a b of
        Some e \<Rightarrow> (Inl (StorageError e), s)
      | None \<Rightarrow> (Inr (), (tick s)\<lparr>entries := fold (move_step (times s 0) a b)
            (filter (\<lambda>r. prefix a (norm_segs (er_path r))) (entries s)) (entries s),
          changes := changes s @ [emitted b Renamed os (Some (render a))]\<rparr>))"
    proof -
      have ga: "store_get (render a) (entries s) = None \<longleftrightarrow> idb_fs s a = None"
        and gb: "store_get (render b) (entries s) = None \<longleftrightarrow> idb_fs s b = None"
        using get_of_tree(1) [OF assms(1)] a b False by auto
      have "\<forall>r \<in> set (filter (\<lambda>r. prefix a (norm_segs (er_path r))) (entries s)). \<exists>z. record_at (a @ z) r"
        using affected_records(2) [OF inv a] False by blast
      note moves = move_all_eval [OF this b(1) _ b(2)]
      have start: "idb_rename p q os s = athen
          (abind (getRecord (render a)) (\<lambda>srcRecord.
              case srcRecord of None \<Rightarrow> athrow (StorageError Not_found)
              | Some _ \<Rightarrow> abind (getRecord (render b)) (\<lambda>dstRecord.
                  case dstRecord of Some _ \<Rightarrow> athrow (StorageError Already_exists)
                  | None \<Rightarrow> abind (alift (parentPath (render b))) (\<lambda>dstParent.
                      athen (require_dir dstParent)
                      (abind (aread entries) (\<lambda>all.
                       abind (alift (filter_res (\<lambda>r. if er_path r = render a then Inr True
                                                     else isUnder (er_path r) (render a)) all))
                         (\<lambda>affected. abind date_now (\<lambda>now. afor (move_entry now (render a) (render b)) affected))))))))
          (emitChange (emitted b Renamed os (Some (render a)))) s"
        using False a b norm
        by (simp add: idb_rename_def act_simps(1,3-) abind_apply render_inj emitted_def)
      show ?thesis
      proof (cases "rename_error (idb_fs s) a b")
        case None
        then have "idb_fs s a \<noteq> None" "idb_fs s b = None" "idb_fs s (butlast b) = Some DirN"
          using False by (auto simp: rename_error_def split: if_splits)
        then show ?thesis
          unfolding start using None ga gb fr moves [of "times s 0" "tick s"] assms(1) b False
          by (auto simp: act_simps getRecord_def path_facts emitChange_def)
      next
        case (Some e)
        then show ?thesis
          unfolding start using ga gb assms(1) b False
          by (auto simp: act_simps getRecord_def path_facts rename_error_def split: if_splits option.splits)
      qed
    qed
    show ?thesis
    proof (cases "rename_error (idb_fs s) a b")
      case None
      then show ?thesis
        using eval assms(5) False move_all_store [OF inv a _ b, of "times s 0"]
        by (auto simp: idb_inv_def idb_fs_def rename_tree_def simp flip: a_def b_def)
    next
      case (Some e)
      then show ?thesis using eval assms(1,5) False by (simp flip: a_def b_def)
    qed
  qed
qed

section \<open>The backend keeps the contract\<close>

interpretation idb: storage_backend idb_backend idb_fs idb_inv
proof
  fix s p os r s'
  assume inv: "idb_inv s"
  then show "tree_ok (idb_fs s)" by (rule idb_tree_ok)
  show "exists_path idb_backend p os s =
      (if path_ok p then Inr (idb_fs s (norm_segs p) \<noteq> None) else Inl (StorageError Invalid_path), s)"
    using idb_exists_eval [OF inv] by (simp add: idb_backend_def)
  show "\<not> path_ok p \<Longrightarrow>
          stat idb_backend p os s = (Inl (StorageError Invalid_path), s)
          \<and> readFile idb_backend p os s = (Inl (StorageError Invalid_path), s)
          \<and> readTextFile idb_backend p os s = (Inl (StorageError Invalid_path), s)
          \<and> readDir idb_backend p os s = (Inl (StorageError Invalid_path), s)
          \<and> writeFile idb_backend p b os s = (Inl (StorageError Invalid_path), s)
          \<and> writeTextFile idb_backend p c os s = (Inl (StorageError Invalid_path), s)
          \<and> mkdir idb_backend p os s = (Inl (StorageError Invalid_path), s)
          \<and> remove_path idb_backend p os s = (Inl (StorageError Invalid_path), s)" for b c
    by (simp add: idb_backend_def idb_stat_def idb_readFile_def idb_readTextFile_def getFileRecord_def
        idb_readDir_def idb_writeFile_def idb_writeTextFile_def writeRecord_def idb_mkdir_def idb_remove_def
        act_simps)
  show "\<not> path_ok p \<or> \<not> path_ok q \<Longrightarrow>
          rename idb_backend p q os s = (Inl (StorageError Invalid_path), s)" for q
    by (cases "path_ok p"; cases "path_ok q") (simp_all add: idb_backend_def idb_rename_def act_simps)
  assume p: "path_ok p"
  show "\<exists>st. stat idb_backend p os s =
          (case idb_fs s (norm_segs p) of None \<Rightarrow> Inl (StorageError Not_found) | Some n \<Rightarrow> Inr st, s)
          \<and> (\<forall>n. idb_fs s (norm_segs p) = Some n \<longrightarrow> st_size st = node_size n)"
    using idb_stat_eval [OF inv p] by (simp add: idb_backend_def)
  show "readFile idb_backend p os s =
          (case read_error (idb_fs s) (norm_segs p) of Some e \<Rightarrow> Inl (StorageError e)
           | None \<Rightarrow> (case idb_fs s (norm_segs p) of Some (FileN b) \<Rightarrow> Inr b), s)"
    using idb_readFile_eval [OF inv p] by (simp add: idb_backend_def)
  show "readTextFile idb_backend p os s =
          (case read_error (idb_fs s) (norm_segs p) of Some e \<Rightarrow> Inl (StorageError e)
           | None \<Rightarrow> (case idb_fs s (norm_segs p) of Some (FileN b) \<Rightarrow> Inr (utf8_decode b)), s)"
    using idb_readTextFile_eval [OF inv p] by (simp add: idb_backend_def)
  show "\<exists>es. readDir idb_backend p os s =
          (case list_error (idb_fs s) (norm_segs p) of Some e \<Rightarrow> Inl (StorageError e) | None \<Rightarrow> Inr es, s)
          \<and> (list_error (idb_fs s) (norm_segs p) = None \<longrightarrow> listing_of (idb_fs s) (norm_segs p) es)"
    using idb_readDir_eval [OF inv p] by (simp add: idb_backend_def)
  show "norm_segs p \<noteq> [] \<Longrightarrow> writeFile idb_backend p b os s = (r, s') \<Longrightarrow>
          idb_inv s' \<and> update_ok (write_error (idb_fs s) (norm_segs p)) (idb_fs s)
            ((idb_fs s)(norm_segs p \<mapsto> FileN b)) r (idb_fs s')" for b
    using writeRecord_law [OF inv p, of "length b" "Bytes b"]
    by (simp add: idb_backend_def idb_writeFile_def data_bytes_def)
  show "norm_segs p \<noteq> [] \<Longrightarrow> writeTextFile idb_backend p c os s = (r, s') \<Longrightarrow>
          idb_inv s' \<and> update_ok (write_error (idb_fs s) (norm_segs p)) (idb_fs s)
            ((idb_fs s)(norm_segs p \<mapsto> FileN (utf8_encode c))) r (idb_fs s')" for c
    using writeRecord_law [OF inv p, of "length (utf8_encode c)" "Text c"]
    by (simp add: idb_backend_def idb_writeTextFile_def data_bytes_def)
  show "mkdir idb_backend p os s = (r, s') \<Longrightarrow>
          idb_inv s' \<and> update_ok (mkdir_error (is_recursive os) (idb_fs s) (norm_segs p)) (idb_fs s)
                      (mkdir_tree (norm_segs p) (idb_fs s)) r (idb_fs s')"
    using idb_mkdir_law [OF inv p] by (simp add: idb_backend_def)
  show "remove_path idb_backend p os s = (r, s') \<Longrightarrow>
          idb_inv s' \<and> update_ok (remove_error (is_recursive os) (idb_fs s) (norm_segs p)) (idb_fs s)
                      (remove_tree (norm_segs p) (idb_fs s)) r (idb_fs s')"
    using idb_remove_law [OF inv p] by (simp add: idb_backend_def)
  fix q
  assume q: "path_ok q" "norm_segs q \<noteq> []"
  show "rename idb_backend p q os s = (r, s') \<Longrightarrow>
          idb_inv s' \<and> update_ok (rename_error (idb_fs s) (norm_segs p) (norm_segs q)) (idb_fs s)
                      (rename_tree (norm_segs p) (norm_segs q) (idb_fs s)) r (idb_fs s')"
    using idb_rename_law [OF inv p q] by (simp add: idb_backend_def)
qed


section \<open>Change events\<close>

lemma writeRecord_changes:
  assumes "idb_inv s" "path_ok p" "norm_segs p \<noteq> []" "n = length (data_bytes d)"
    and "writeRecord p d n os s = (r, s')"
  shows "changes s' = changes s @ (if r = Inr () then [emitted (norm_segs p) Written os None] else [])"
proof (cases "write_error (idb_fs s) (norm_segs p)")
  case None
  then show ?thesis using writeRecord_ok [OF assms(1-3) None assms(4), of os] assms(5) by auto
next
  case (Some e)
  then show ?thesis using writeRecord_error [OF assms(1-3) Some] assms(5) by auto
qed

text \<open>The event of a successful call: none for making the root or renaming a path to itself.\<close>

fun event_of :: "fs_call \<Rightarrow> change_event list" where
  "event_of (Put_file p b os) = [emitted (norm_segs p) Written os None]"
| "event_of (Put_text p c os) = [emitted (norm_segs p) Written os None]"
| "event_of (Make_dir p os) = (if norm_segs p = [] then [] else [emitted (norm_segs p) Created os None])"
| "event_of (Move_path p q os) =
     (if norm_segs p = norm_segs q then []
      else [emitted (norm_segs q) Renamed os (Some (render (norm_segs p)))])"
| "event_of (Remove_path p os) = [emitted (norm_segs p) Deleted os None]"

lemma idb_call_changes:
  assumes "idb_inv s" "call_ok c" "run_call idb_backend c s = (r, s')"
  shows "changes s' = changes s @ (if r = Inr () then event_of c else [])"
proof (cases c)
  case (Put_file p b os)
  then show ?thesis
    using assms idb.invalid_law [OF assms(1), of p os b] writeRecord_changes [OF assms(1), of p "length b" "Bytes b" os r s']
    by (cases "path_ok p") (auto simp: not_root_def idb_backend_def idb_writeFile_def data_bytes_def)
next
  case (Put_text p b os)
  then show ?thesis
    using assms idb.invalid_law [OF assms(1), of p os _ b]
      writeRecord_changes [OF assms(1), of p "length (utf8_encode b)" "Text b" os r s']
    by (cases "path_ok p") (auto simp: not_root_def idb_backend_def idb_writeTextFile_def data_bytes_def)
next
  case (Make_dir p os)
  then show ?thesis
    using assms idb.invalid_law [OF assms(1), of p os] idb_mkdir_law [OF assms(1), of p os r s']
    by (cases "path_ok p") (auto simp: idb_backend_def)
next
  case (Move_path p q os)
  then show ?thesis
    using assms idb.rename_invalid_law [OF assms(1), of p q os] idb_rename_law [OF assms(1), of p q os r s']
    by (cases "path_ok p \<and> path_ok q") (auto simp: idb_backend_def not_root_def)
next
  case (Remove_path p os)
  then show ?thesis
    using assms idb.invalid_law [OF assms(1), of p os] idb_remove_law [OF assms(1), of p os r s']
    by (cases "path_ok p") (auto simp: idb_backend_def)
qed

section \<open>Properties\<close>

definition empty_tree :: tree where
  "empty_tree = [[] \<mapsto> DirN]"

lemma empty_idb_inv [simp]: "idb_inv (empty_idb ts)" "idb_fs (empty_idb ts) = empty_tree"
proof -
  have "tree_of [] = empty_tree" by (auto simp: tree_of_def store_get_def empty_tree_def fun_eq_iff)
  moreover have "tree_ok empty_tree" by (simp add: tree_ok_def empty_tree_def)
  ultimately show "idb_inv (empty_idb ts)" "idb_fs (empty_idb ts) = empty_tree"
    by (simp_all add: idb_inv_def store_inv_def empty_idb_def idb_fs_def)
qed


lemma path_ok_a: "path_ok ''/a''" "norm_segs ''/a'' = [''a'']" "path_ok ''/b''" "norm_segs ''/b'' = [''b'']"
  by (simp_all add: path_ok_def norm_segs_def)




text \<open>
  A text that was written is what the next read of that path returns, and the write changes
  what is read at no other path.
\<close>

theorem idb_read_after_write:
  assumes "idb_inv s" and "path_ok p" and "norm_segs p \<noteq> []"
    and "idb_writeTextFile p contents os s = (Inr (), s')"
    and "path_ok q" and "norm_segs q \<noteq> norm_segs p"
  shows "idb_readTextFile p os' s' = (Inr contents, s')
       \<and> fst (idb_readTextFile q os' s') = fst (idb_readTextFile q os' s)"
  using idb.read_after_write [OF assms(1-3), of contents os s'] assms(4-6) by (simp_all add: idb_backend_def)

lemma idb_write_root_level:
  assumes "norm_segs p = [x]" "path_ok p"
  shows "idb_writeTextFile p contents os (empty_idb ts) = (Inr (), snd (idb_writeTextFile p contents os (empty_idb ts)))"
proof -
  have "write_error (idb_fs (empty_idb ts)) (norm_segs p) = None"
    using assms by (simp add: write_error_def empty_tree_def)
  then have "\<exists>s'. writeRecord p (Text contents) (length (data_bytes (Text contents))) os (empty_idb ts) = (Inr (), s')"
    using writeRecord_ok [of "empty_idb ts" p "length (data_bytes (Text contents))" "Text contents" os] assms by auto
  then show ?thesis by (auto simp: idb_writeTextFile_def data_bytes_def)
qed

lemma idb_read_after_write_witness:
  "fst (idb_readTextFile ''/a'' no_options (snd (idb_writeTextFile ''/a'' ''hi'' no_options (empty_idb (\<lambda>n. n))))) = Inr ''hi''"
  using idb_read_after_write [of "empty_idb (\<lambda>n. n)" "''/a''" "''hi''" no_options _ "''/b''" no_options,
      OF _ _ _ idb_write_root_level [of "''/a''" "''a''"]]
  by (simp add: path_ok_a)





end
