(* ===== verification/Opfs.thy ===== *)
theory Opfs
  imports Backend_Spec "HOL-Library.AList"
begin

text \<open>
  The OPFS backend (\<open>packages/storage/src/opfs.ts\<close>) over the browser's directory and file handles. A
  handle is the list of names from the app's root directory to the entry; the handle methods follow the
  File System Standard, their rejections being the names of the DOM exceptions. What the browser decides
  is a parameter in the state: whether OPFS is available, the exceptions that creating and committing a
  writable stream meets, the clock, and \<open>move\<close>, which only some browsers have. The mutex and the Web
  Lock around a mutation are the subject of the theory of locks; here each runs alone.
\<close>

section \<open>Handles\<close>

type_synonym handle = "string list"

type_synonym opfs_nodes = "(handle \<times> node) list"

record opfs =
  op_nodes :: opfs_nodes
  op_modified :: "handle \<Rightarrow> nat"
  op_times :: "nat \<Rightarrow> nat"
  op_faults :: "nat \<Rightarrow> string option"
  op_move :: "(handle \<Rightarrow> handle \<Rightarrow> opfs_nodes \<Rightarrow> opfs_nodes option) option"
  op_available :: bool
  op_changes :: "change_event list"

definition node_at :: "opfs \<Rightarrow> handle \<Rightarrow> node option" where
  "node_at s h = (if h = [] then Some DirN else map_of (op_nodes s) h)"

definition put_node :: "handle \<Rightarrow> node \<Rightarrow> opfs \<Rightarrow> opfs" where
  "put_node h n s = s\<lparr>op_nodes := AList.update h n (op_nodes s),
     op_modified := (op_modified s)(h := op_times s 0), op_times := \<lambda>k. op_times s (Suc k)\<rparr>"

definition getDirectoryHandle :: "handle \<Rightarrow> string \<Rightarrow> bool \<Rightarrow> (opfs, handle) act" where
  "getDirectoryHandle dir name create = (\<lambda>s.
     case node_at s (dir @ [name]) of
       Some DirN \<Rightarrow> (Inr (dir @ [name]), s)
     | Some (FileN _) \<Rightarrow> (Inl (JsError ''TypeMismatchError''), s)
     | None \<Rightarrow> if create then (Inr (dir @ [name]), put_node (dir @ [name]) DirN s)
               else (Inl (JsError ''NotFoundError''), s))"

definition getFileHandle :: "handle \<Rightarrow> string \<Rightarrow> bool \<Rightarrow> (opfs, handle) act" where
  "getFileHandle dir name create = (\<lambda>s.
     case node_at s (dir @ [name]) of
       Some (FileN _) \<Rightarrow> (Inr (dir @ [name]), s)
     | Some DirN \<Rightarrow> (Inl (JsError ''TypeMismatchError''), s)
     | None \<Rightarrow> if create then (Inr (dir @ [name]), put_node (dir @ [name]) (FileN []) s)
               else (Inl (JsError ''NotFoundError''), s))"

text \<open>\<open>getFile()\<close> and the bytes of the file.\<close>

definition getFile :: "handle \<Rightarrow> (opfs, bytes) act" where
  "getFile h = (\<lambda>s. case node_at s h of Some (FileN b) \<Rightarrow> (Inr b, s) | _ \<Rightarrow> (Inl (JsError ''NotFoundError''), s))"

text \<open>The names and kinds \<open>entries()\<close> iterates over.\<close>

definition child_of :: "handle \<Rightarrow> handle \<Rightarrow> bool" where
  "child_of dir q \<longleftrightarrow> q \<noteq> [] \<and> butlast q = dir"

definition handle_entries :: "handle \<Rightarrow> (opfs, (string \<times> node) list) act" where
  "handle_entries dir = aread (\<lambda>s. map (\<lambda>(q, n). (List.last q, n)) (filter (\<lambda>(q, n). child_of dir q) (op_nodes s)))"

definition next_fault :: "(opfs, unit) act" where
  "next_fault = (\<lambda>s. (case op_faults s 0 of None \<Rightarrow> Inr () | Some name \<Rightarrow> Inl (JsError name),
     s\<lparr>op_faults := \<lambda>k. op_faults s (Suc k)\<rparr>))"

text \<open>
  \<open>createWritable\<close>, \<open>write\<close> and \<open>close\<close>: the stream writes to a swap file that replaces the contents when
  it is closed; after a failure it is aborted and the contents stay.
\<close>

definition write_stream :: "handle \<Rightarrow> bytes \<Rightarrow> (opfs, unit) act" where
  "write_stream h data = athen next_fault (athen next_fault (amodify (put_node h (FileN data))))"

definition removeEntry :: "handle \<Rightarrow> string \<Rightarrow> bool \<Rightarrow> (opfs, unit) act" where
  "removeEntry dir name recursive = (\<lambda>s. let h = dir @ [name] in
     if node_at s h = None then (Inl (JsError ''NotFoundError''), s)
     else if \<not> recursive \<and> list_ex (\<lambda>(q, n). strict_prefix h q) (op_nodes s)
     then (Inl (JsError ''InvalidModificationError''), s)
     else (Inr (), s\<lparr>op_nodes := filter (\<lambda>(q, n). \<not> prefix h q) (op_nodes s)\<rparr>))"

definition handle_move :: "(handle \<Rightarrow> handle \<Rightarrow> opfs_nodes \<Rightarrow> opfs_nodes option) \<Rightarrow> handle \<Rightarrow> handle \<Rightarrow> (opfs, unit) act" where
  "handle_move move h dst = (\<lambda>s.
     case move h dst (op_nodes s) of None \<Rightarrow> (Inl (JsError ''NotSupportedError''), s) | Some ns \<Rightarrow> (Inr (), s\<lparr>op_nodes := ns\<rparr>))"

definition opfs_emit :: "change_event \<Rightarrow> (opfs, unit) act" where
  "opfs_emit ev = amodify (\<lambda>s. s\<lparr>op_changes := op_changes s @ [ev]\<rparr>)"

section \<open>The backend\<close>

definition isNotFound :: "js_error \<Rightarrow> bool" where
  "isNotFound e \<longleftrightarrow> e = JsError ''NotFoundError''"

definition toStorageError :: "js_error \<Rightarrow> (opfs, 'a) act" where
  "toStorageError e =
     (if isNotFound e then athrow (StorageError Not_found)
      else if e = JsError ''TypeMismatchError'' then athrow (StorageError Is_directory)
      else if e = JsError ''NoModificationAllowedError'' then athrow (StorageError Locked)
      else if e = JsError ''QuotaExceededError'' then athrow (StorageError Quota)
      else athrow e)"

definition opfs_init :: "(opfs, handle) act" where
  "opfs_init = (\<lambda>s. if op_available s then (Inr [], s) else (Inl (StorageError Unsupported), s))"

fun resolve_segments :: "handle \<Rightarrow> string list \<Rightarrow> (opfs, handle) act" where
  "resolve_segments dir [] = aret dir"
| "resolve_segments dir (segment # rest) =
     abind (acatch (getDirectoryHandle dir segment False) toStorageError) (\<lambda>d. resolve_segments d rest)"

definition resolveParent :: "string \<Rightarrow> (opfs, handle \<times> string) act" where
  "resolveParent path =
     abind (alift (normalizePath path)) (\<lambda>normalized.
     abind (alift (pathSegments normalized)) (\<lambda>segments.
     if segments = [] then athrow (StorageError Invalid_path)
     else abind opfs_init (\<lambda>root.
       abind (resolve_segments root (butlast segments)) (\<lambda>dir. aret (dir, List.last segments)))))"

definition resolveDir :: "string \<Rightarrow> (opfs, handle) act" where
  "resolveDir path =
     abind (alift (normalizePath path)) (\<lambda>normalized.
     abind opfs_init (\<lambda>root.
     abind (alift (pathSegments normalized)) (\<lambda>segments. resolve_segments root segments)))"

definition resolveFile :: "string \<Rightarrow> (opfs, handle) act" where
  "resolveFile path =
     abind (alift (normalizePath path)) (\<lambda>normalized.
     abind (resolveParent normalized) (\<lambda>(dir, name). acatch (getFileHandle dir name False) toStorageError))"

definition opfs_readDir :: "string \<Rightarrow> backend_options \<Rightarrow> (opfs, dir_entry list) act" where
  "opfs_readDir path options =
     abind (alift (normalizePath path)) (\<lambda>normalized.
     abind (resolveDir normalized) (\<lambda>dir.
     abind (handle_entries dir) (\<lambda>es.
     aret (map (\<lambda>(name, n). \<lparr>de_name = name, isDirectory = (n = DirN), isFile = (n \<noteq> DirN), isSymlink = False\<rparr>) es))))"

definition opfs_readFile :: "string \<Rightarrow> backend_options \<Rightarrow> (opfs, bytes) act" where
  "opfs_readFile path options =
     abind (alift (normalizePath path)) (\<lambda>normalized.
     abind (resolveFile normalized) (\<lambda>h. acatch (getFile h) toStorageError))"

definition opfs_readTextFile :: "string \<Rightarrow> backend_options \<Rightarrow> (opfs, string) act" where
  "opfs_readTextFile path options =
     abind (alift (normalizePath path)) (\<lambda>normalized.
     abind (resolveFile normalized) (\<lambda>h. acatch (abind (getFile h) (\<lambda>b. aret (utf8_decode b))) toStorageError))"

definition writeBytes :: "string \<Rightarrow> bytes \<Rightarrow> backend_options \<Rightarrow> (opfs, unit) act" where
  "writeBytes path contents options =
     abind (alift (normalizePath path)) (\<lambda>normalized.
     athen (abind (resolveParent normalized) (\<lambda>(dir, name).
       acatch (abind (getFileHandle dir name True) (\<lambda>h. write_stream h contents)) toStorageError))
     (opfs_emit \<lparr>ev_path = normalized, ev_kind = Written, ev_origin = origin_of options, oldPath = None\<rparr>))"

definition opfs_writeTextFile :: "string \<Rightarrow> string \<Rightarrow> backend_options \<Rightarrow> (opfs, unit) act" where
  "opfs_writeTextFile path contents options = writeBytes path (utf8_encode contents) options"

definition opfs_writeFile :: "string \<Rightarrow> bytes \<Rightarrow> backend_options \<Rightarrow> (opfs, unit) act" where
  "opfs_writeFile path contents options = writeBytes path contents options"

fun create_segments :: "handle \<Rightarrow> string list \<Rightarrow> (opfs, handle) act" where
  "create_segments dir [] = aret dir"
| "create_segments dir (segment # rest) = abind (getDirectoryHandle dir segment True) (\<lambda>d. create_segments d rest)"

definition opfs_mkdir :: "string \<Rightarrow> backend_options \<Rightarrow> (opfs, unit) act" where
  "opfs_mkdir path options =
     abind (alift (normalizePath path)) (\<lambda>normalized.
     if normalized = ''/'' then aret ()
     else abind opfs_init (\<lambda>root.
       abind (alift (pathSegments normalized)) (\<lambda>segments.
       athen (if is_recursive options then abind (create_segments root segments) (\<lambda>_. aret ())
              else abind (resolveParent normalized) (\<lambda>(dir, name).
                abind (acatch (getDirectoryHandle dir name True) toStorageError) (\<lambda>_. aret ())))
       (opfs_emit \<lparr>ev_path = normalized, ev_kind = Created, ev_origin = origin_of options, oldPath = None\<rparr>))))"

text \<open>The recursion goes one level down at a time, so the number of entries bounds it.\<close>

fun copyDirRecursive :: "nat \<Rightarrow> handle \<Rightarrow> handle \<Rightarrow> (opfs, unit) act" where
  "copyDirRecursive 0 src dst = aret ()"
| "copyDirRecursive (Suc k) src dst =
     abind (handle_entries src) (afor (\<lambda>(name, n).
       case n of
         DirN \<Rightarrow> abind (getDirectoryHandle dst name True) (\<lambda>child. copyDirRecursive k (src @ [name]) child)
       | FileN _ \<Rightarrow> abind (getFile (src @ [name])) (\<lambda>data.
           abind (getFileHandle dst name True) (\<lambda>out. write_stream out data))))"

definition copyHandle :: "string \<Rightarrow> string \<Rightarrow> (opfs, unit) act" where
  "copyHandle from to =
     acatch
       (abind (resolveDir from) (\<lambda>dir.
        abind (alift (pathSegments to)) (\<lambda>segments.
        abind opfs_init (\<lambda>root.
        abind (create_segments root segments) (\<lambda>dstDir.
        abind (aread (\<lambda>s. Suc (length (op_nodes s)))) (\<lambda>k. copyDirRecursive k dir dstDir))))))
       (\<lambda>error.
        if isNotFound error \<or> error = StorageError Not_found then
          abind (opfs_readFile from no_options) (\<lambda>data.
          abind (resolveParent to) (\<lambda>(dir, name).
          abind (getFileHandle dir name True) (\<lambda>h. write_stream h data)))
        else athrow error)"

definition removeInternal :: "string \<Rightarrow> bool \<Rightarrow> (opfs, unit) act" where
  "removeInternal path recursive =
     abind (resolveParent path) (\<lambda>(dir, name).
       acatch (removeEntry dir name recursive)
         (\<lambda>e. if e = JsError ''InvalidModificationError'' then athrow (StorageError Not_empty) else toStorageError e))"

text \<open>
  The directory handle is returned as a promise that is not awaited inside its \<open>try\<close>, so its rejection
  passes the handler, and the lookup of a file handle there is never reached.
\<close>

definition source_handle :: "handle \<Rightarrow> string \<Rightarrow> (opfs, handle) act" where
  "source_handle srcDir srcName = getDirectoryHandle srcDir srcName False"

definition opfs_rename :: "string \<Rightarrow> string \<Rightarrow> backend_options \<Rightarrow> (opfs, unit) act" where
  "opfs_rename from to options =
     abind (alift (normalizePath from)) (\<lambda>src.
     abind (alift (normalizePath to)) (\<lambda>dst.
     let event = opfs_emit \<lparr>ev_path = dst, ev_kind = Renamed, ev_origin = origin_of options, oldPath = Some src\<rparr> in
     if src = ''/'' then athrow (StorageError Invalid_path)
     else if dst = src then aret ()
     else if starts_with dst (src @ ''/'') then athrow (StorageError Invalid_path)
     else
       abind (resolveParent src) (\<lambda>(srcDir, srcName).
       abind (resolveParent dst) (\<lambda>(dstDir, dstName).
       abind (source_handle srcDir srcName) (\<lambda>h.
       let copy = athen (copyHandle src dst) (athen (removeInternal src False) event) in
       abind (aread op_move) (\<lambda>native.
       case native of
         Some move \<Rightarrow> acatch (athen (handle_move move h (dstDir @ [dstName])) event) (\<lambda>_. copy)
       | None \<Rightarrow> copy))))))"

definition opfs_remove :: "string \<Rightarrow> backend_options \<Rightarrow> (opfs, unit) act" where
  "opfs_remove path options =
     abind (alift (normalizePath path)) (\<lambda>normalized.
     if normalized = ''/'' then athrow (StorageError Invalid_path)
     else athen (removeInternal normalized (is_recursive options))
       (opfs_emit \<lparr>ev_path = normalized, ev_kind = Deleted, ev_origin = origin_of options, oldPath = None\<rparr>))"

definition opfs_stat :: "string \<Rightarrow> backend_options \<Rightarrow> (opfs, file_stat) act" where
  "opfs_stat path options =
     abind (alift (normalizePath path)) (\<lambda>normalized.
     if normalized = ''/'' then aret \<lparr>st_size = 0, st_mtime = None, st_birthtime = None\<rparr>
     else abind (resolveParent normalized) (\<lambda>(dir, name).
       acatch (abind (getFileHandle dir name False) (\<lambda>h. abind (getFile h) (\<lambda>b.
           abind (aread (\<lambda>s. op_modified s h)) (\<lambda>t. aret \<lparr>st_size = length b, st_mtime = Some t, st_birthtime = None\<rparr>))))
         (\<lambda>_. abind (acatch (getDirectoryHandle dir name False) toStorageError)
           (\<lambda>_. aret \<lparr>st_size = 0, st_mtime = None, st_birthtime = None\<rparr>))))"

definition opfs_exists :: "string \<Rightarrow> backend_options \<Rightarrow> (opfs, bool) act" where
  "opfs_exists path options =
     abind (alift (normalizePath path)) (\<lambda>normalized.
     if normalized = ''/'' then aret True
     else acatch (abind (opfs_stat normalized no_options) (\<lambda>_. aret True))
       (\<lambda>e. if e = StorageError Not_found then aret False else athrow e))"

definition opfs_backend :: "opfs backend" where
  "opfs_backend = \<lparr>be_name = ''opfs'', readDir = opfs_readDir, readTextFile = opfs_readTextFile, readFile = opfs_readFile,
     writeTextFile = opfs_writeTextFile, writeFile = opfs_writeFile, mkdir = opfs_mkdir, rename = opfs_rename,
     remove_path = opfs_remove, stat = opfs_stat, exists_path = opfs_exists\<rparr>"

section \<open>The tree of the store\<close>

definition opfs_inv :: "opfs \<Rightarrow> bool" where
  "opfs_inv s \<longleftrightarrow> tree_ok (node_at s) \<and> distinct (map fst (op_nodes s)) \<and> [] \<notin> fst ` set (op_nodes s) \<and> op_available s"

lemma opfs_invD:
  assumes "opfs_inv s"
  shows "tree_ok (node_at s)" "distinct (map fst (op_nodes s))" "[] \<notin> fst ` set (op_nodes s)" "op_available s"
  using assms by (simp_all add: opfs_inv_def)

lemma node_at_root [simp]: "node_at s [] = Some DirN"
  by (simp add: node_at_def)

lemma node_at_put [simp]: "h \<noteq> [] \<Longrightarrow> node_at (put_node h n s) = (node_at s)(h \<mapsto> n)"
  by (auto simp: node_at_def put_node_def update_conv fun_eq_iff)

lemma put_node_fields [simp]:
  "op_available (put_node h n s) = op_available s" "op_move (put_node h n s) = op_move s"
  "op_faults (put_node h n s) = op_faults s" "op_changes (put_node h n s) = op_changes s"
  by (simp_all add: put_node_def)

lemma opfs_inv_put:
  assumes "opfs_inv s" "segs_ok h" "h \<noteq> []" "node_at s (butlast h) = Some DirN" "n \<noteq> DirN \<longrightarrow> node_at s h \<noteq> Some DirN"
  shows "opfs_inv (put_node h n s)"
proof -
  have "tree_ok (node_at (put_node h n s))" using tree_ok_update [OF opfs_invD(1) [OF assms(1)] assms(2-5)] assms(3) by simp
  moreover have "distinct (map fst (AList.update h n (op_nodes s)))" using opfs_invD(2) [OF assms(1)] by (rule distinct_update)
  ultimately show ?thesis
    using opfs_invD(3,4) [OF assms(1)] assms(3) by (simp add: opfs_inv_def put_node_def dom_update)
qed

lemma opfs_other_fields [simp]:
  "node_at (s\<lparr>op_faults := f\<rparr>) = node_at s" "node_at (s\<lparr>op_changes := c\<rparr>) = node_at s"
  "opfs_inv (s\<lparr>op_faults := f\<rparr>) = opfs_inv s" "opfs_inv (s\<lparr>op_changes := c\<rparr>) = opfs_inv s"
proof -
  show n: "node_at (s\<lparr>op_faults := f\<rparr>) = node_at s" "node_at (s\<lparr>op_changes := c\<rparr>) = node_at s"
    by (simp_all add: node_at_def fun_eq_iff)
  show "opfs_inv (s\<lparr>op_faults := f\<rparr>) = opfs_inv s" "opfs_inv (s\<lparr>op_changes := c\<rparr>) = opfs_inv s"
    by (simp_all add: opfs_inv_def n)
qed

lemma resolve_segments_ok:
  assumes "tree_ok (node_at s)" "node_at s (h @ ss) = Some DirN"
  shows "resolve_segments h ss s = (Inr (h @ ss), s)"
  using assms(2)
proof (induction ss arbitrary: h)
  case (Cons x ss)
  have "node_at s (h @ [x]) = Some DirN"
    using Cons.prems tree_ok_prefix [OF assms(1), of "h @ [x]" ss DirN] by (cases "ss = []") auto
  then show ?case using Cons.IH [of "h @ [x]"] Cons.prems by (simp add: act_simps getDirectoryHandle_def)
qed (simp add: act_simps)

lemma resolve_segments_stop:
  assumes "node_at s h = Some DirN" "node_at s (h @ ss) \<noteq> Some DirN"
  shows "\<exists>e\<in>{Not_found, Is_directory}. resolve_segments h ss s = (Inl (StorageError e), s)"
  using assms
proof (induction ss arbitrary: h)
  case (Cons x ss)
  show ?case
  proof (cases "node_at s (h @ [x]) = Some DirN")
    case True
    then show ?thesis using Cons.IH [of "h @ [x]"] Cons.prems(2) by (simp add: act_simps getDirectoryHandle_def)
  next
    case False
    then show ?thesis
      by (auto simp: act_simps getDirectoryHandle_def toStorageError_def isNotFound_def split: option.split node.split)
  qed
qed simp

lemma resolveParent_ok:
  assumes "opfs_inv s" "segs_ok ss" "ss \<noteq> []" "node_at s (butlast ss) = Some DirN"
  shows "resolveParent (render ss) s = (Inr (butlast ss, List.last ss), s)"
  using assms resolve_segments_ok [of s "[]" "butlast ss"] opfs_invD(1,4) [OF assms(1)]
  by (simp add: resolveParent_def act_simps opfs_init_def)

lemma resolveParent_stop:
  assumes "opfs_inv s" "segs_ok ss" "ss \<noteq> []" "node_at s (butlast ss) \<noteq> Some DirN"
  shows "\<exists>e\<in>{Not_found, Is_directory}. resolveParent (render ss) s = (Inl (StorageError e), s)"
  using assms resolve_segments_stop [of s "[]" "butlast ss"] opfs_invD(4) [OF assms(1)]
  by (auto simp: resolveParent_def act_simps opfs_init_def)

lemma resolveDir_ok:
  assumes "opfs_inv s" "segs_ok ss" "node_at s ss = Some DirN"
  shows "resolveDir (render ss) s = (Inr ss, s)"
  using assms resolve_segments_ok [of s "[]" ss] opfs_invD(1,4) [OF assms(1)]
  by (simp add: resolveDir_def act_simps opfs_init_def)

section \<open>Renaming\<close>

lemma render_under: "segs_ok a \<Longrightarrow> segs_ok b \<Longrightarrow> starts_with (render b) (render a @ ''/'') \<Longrightarrow> prefix a b"
  using isUnder_render [of b a] by (auto simp: isUnder_def)


lemma write_stream_apply:
  "write_stream h b s =
     (case op_faults s 0 of
        Some name \<Rightarrow> (Inl (JsError name), s\<lparr>op_faults := \<lambda>k. op_faults s (Suc k)\<rparr>)
      | None \<Rightarrow> (case op_faults s 1 of
          Some name \<Rightarrow> (Inl (JsError name), s\<lparr>op_faults := \<lambda>k. op_faults s (Suc (Suc k))\<rparr>)
        | None \<Rightarrow> (Inr (), put_node h (FileN b) (s\<lparr>op_faults := \<lambda>k. op_faults s (Suc (Suc k))\<rparr>))))"
  by (simp add: write_stream_def next_fault_def act_simps split: option.split)

lemma toStorageError_throws: "\<exists>e'. toStorageError e s = (Inl e', s)"
  by (simp add: toStorageError_def act_simps)

text \<open>
  (C30) A write on OPFS is all or nothing for a file that exists: if creating or committing the stream
  fails, the call rejects and the old bytes are kept. A file that did not exist is left behind empty.
\<close>

theorem opfs_write_outcome:
  assumes "opfs_inv s" and "path_ok p" and "norm_segs p \<noteq> []" and "node_at s (butlast (norm_segs p)) = Some DirN"
    and "node_at s (norm_segs p) \<noteq> Some DirN" and "opfs_writeFile p b os s = (r, s')"
  shows "opfs_inv s' \<and>
    (if op_faults s 0 = None \<and> op_faults s 1 = None
     then r = Inr () \<and> node_at s' = (node_at s)(norm_segs p \<mapsto> FileN b)
     else (\<exists>e. r = Inl e) \<and> node_at s' =
       (node_at s)(norm_segs p \<mapsto> (case node_at s (norm_segs p) of Some n \<Rightarrow> n | None \<Rightarrow> FileN [])))"
proof -
  let ?a = "norm_segs p" and ?n = "case node_at s (norm_segs p) of Some n \<Rightarrow> n | None \<Rightarrow> FileN []"
  have ok: "segs_ok ?a" using assms(2) by (simp add: segs_ok_norm_segs)
  have la: "butlast ?a @ [List.last ?a] = ?a" using assms(3) by simp
  define s1 where "s1 = (if node_at s ?a = None then put_node ?a (FileN []) s else s)"
  have g: "getFileHandle (butlast ?a) (List.last ?a) True s = (Inr ?a, s1)"
    using assms(5) by (auto simp: getFileHandle_def la s1_def split: option.split node.split)
  have s1: "opfs_inv s1" "node_at s1 = (node_at s)(?a \<mapsto> ?n)" "op_faults s1 = op_faults s" "node_at s1 (butlast ?a) = Some DirN"
    "node_at s1 ?a \<noteq> Some DirN"
  proof -
    show "opfs_inv s1" using assms(1) opfs_inv_put [OF assms(1) ok assms(3,4), of "FileN []"] by (simp add: s1_def)
    show 1: "node_at s1 = (node_at s)(?a \<mapsto> ?n)" using assms(3) by (auto simp: s1_def fun_eq_iff)
    have "butlast ?a \<noteq> ?a" using assms(3) by (metis append_butlast_last_id append_self_conv list.distinct(1))
    then show "node_at s1 (butlast ?a) = Some DirN" using 1 assms(4) by simp
    show "node_at s1 ?a \<noteq> Some DirN" using 1 assms(5) by (auto split: option.split)
  qed (simp add: s1_def)
  have base: "opfs_writeFile p b os s =
      (case (acatch (abind (getFileHandle (butlast ?a) (List.last ?a) True) (\<lambda>h. write_stream h b)) toStorageError) s of
         (Inl e, t) \<Rightarrow> (Inl e, t) | (Inr _, t) \<Rightarrow> opfs_emit \<lparr>ev_path = render ?a, ev_kind = Written, ev_origin = origin_of os, oldPath = None\<rparr> t)"
    using resolveParent_ok [OF assms(1) ok assms(3,4)]
    by (simp add: opfs_writeFile_def writeBytes_def normalizePath_eq assms(2) act_simps)
  show ?thesis
  proof (cases "op_faults s 0 = None \<and> op_faults s 1 = None")
    case True
    let ?s2 = "put_node ?a (FileN b) (s1\<lparr>op_faults := \<lambda>k. op_faults s1 (Suc (Suc k))\<rparr>)"
    have inv: "opfs_inv ?s2" using opfs_inv_put [OF _ ok assms(3)] s1(1,4,5) by simp
    have nodes: "node_at ?s2 = (node_at s)(?a \<mapsto> FileN b)" using s1(2) assms(3) by simp
    have r: "r = Inr ()" "s' = ?s2\<lparr>op_changes := op_changes ?s2 @ [\<lparr>ev_path = render ?a, ev_kind = Written, ev_origin = origin_of os, oldPath = None\<rparr>]\<rparr>"
      using assms(6) True by (simp_all add: base act_simps g write_stream_apply s1(3) opfs_emit_def)
    then have "opfs_inv s'" "node_at s' = node_at ?s2" using inv by (simp_all only: opfs_other_fields)
    then show ?thesis using True r(1) nodes by simp
  next
    case False
    obtain e f where w: "write_stream ?a b s1 = (Inl e, s1\<lparr>op_faults := f\<rparr>)"
      using False write_stream_apply [of ?a b s1] unfolding s1(3) by (cases "op_faults s 0"; cases "op_faults s 1") auto
    obtain e' where "toStorageError e (s1\<lparr>op_faults := f\<rparr>) = ((Inl e' :: unit res), s1\<lparr>op_faults := f\<rparr>)"
      using toStorageError_throws by metis
    then have "r = Inl e'" "s' = s1\<lparr>op_faults := f\<rparr>" using assms(6) by (simp_all add: base act_simps g w)
    then show ?thesis using False s1(1,2) by auto
  qed
qed

text \<open>Copying a directory: the entries of the source appear below the destination, the rest stays.\<close>

definition no_faults :: "opfs \<Rightarrow> bool" where
  "no_faults s \<longleftrightarrow> (\<forall>k. op_faults s k = None)"

definition copied :: "string set \<Rightarrow> handle \<Rightarrow> handle \<Rightarrow> tree \<Rightarrow> tree" where
  "copied N src dst t =
     (\<lambda>q. if strict_prefix dst q \<and> q ! length dst \<in> N then t (src @ drop (length dst) q) else t q)"

lemma copied_below [simp]:
  "copied N src dst t (dst @ x # z) = (if x \<in> N then t (src @ x # z) else t (dst @ x # z))"
  by (simp add: copied_def strict_prefix_def nth_append)

lemma copied_off: "\<not> strict_prefix dst q \<Longrightarrow> copied N src dst t q = t q"
  by (simp add: copied_def)

lemma strict_prefixE': "strict_prefix p q \<Longrightarrow> (\<And>x z. q = p @ x # z \<Longrightarrow> thesis) \<Longrightarrow> thesis"
  by (metis append_Nil2 list.exhaust strict_prefix_def prefix_def)

lemma strict_prefix_append_Cons: "strict_prefix (dst :: 'a list) (dst @ x # z)"
  by (simp add: strict_prefix_def)

lemma copied_insert:
  assumes "x \<notin> N" "\<And>z. t' (dst @ x # z) = t (src @ x # z)" "\<And>q. \<not> prefix (dst @ [x]) q \<Longrightarrow> t' q = copied N src dst t q"
  shows "t' = copied (insert x N) src dst t"
proof
  fix q
  show "t' q = copied (insert x N) src dst t q"
  proof (cases "prefix (dst @ [x]) q")
    case True
    then obtain z where "q = dst @ x # z" by (auto simp: prefix_def)
    then show ?thesis using assms(2) by simp
  next
    case False
    then show ?thesis using assms(3) [OF False] by (auto simp: copied_def prefix_def elim!: strict_prefixE')
  qed
qed

lemma handle_entries_ok:
  assumes "opfs_inv s"
  obtains es where "handle_entries dir s = (Inr es, s)" "distinct (map fst es)"
    "\<forall>nm n. (nm, n) \<in> set es \<longleftrightarrow> node_at s (dir @ [nm]) = Some n"
proof -
  let ?kept = "filter (\<lambda>(q, n). child_of dir q) (op_nodes s)"
  let ?es = "map (\<lambda>(q, n). (List.last q, n)) ?kept"
  have keys: "map fst ?es = map List.last (map fst ?kept)" by (simp add: case_prod_beta)
  have "inj_on List.last {q. child_of dir q}" by (rule inj_onI) (metis child_of_def mem_Collect_eq append_butlast_last_id)
  moreover have "set (map fst ?kept) \<subseteq> {q. child_of dir q}" by auto
  moreover have "distinct (map fst ?kept)" using distinct_map_filter [OF opfs_invD(2) [OF assms]] by simp
  ultimately have d: "distinct (map fst ?es)" unfolding keys by (metis distinct_map inj_on_subset)
  have m: "(nm, n) \<in> set ?es \<longleftrightarrow> node_at s (dir @ [nm]) = Some n" for nm n
  proof -
    have "(nm, n) \<in> set ?es \<longleftrightarrow> (\<exists>q. (q, n) \<in> set (op_nodes s) \<and> child_of dir q \<and> nm = List.last q)" by force
    also have "\<dots> \<longleftrightarrow> (dir @ [nm], n) \<in> set (op_nodes s)"
      by (auto simp: child_of_def)
    finally show ?thesis using opfs_invD(2) [OF assms] by (simp add: node_at_def)
  qed
  have "handle_entries dir s = (Inr ?es, s)" by (simp add: handle_entries_def act_simps)
  then show ?thesis using that d m by blast
qed

lemma opfs_depth:
  assumes "opfs_inv s" "node_at s p \<noteq> None"
  shows "length p \<le> length (op_nodes s)"
proof -
  let ?f = "\<lambda>i. take (Suc i) p"
  have "inj_on ?f {..<length p}"
    by (rule inj_onI) (metis Suc_inject Suc_leI length_take lessThan_iff min.absorb2)
  moreover have "?f ` {..<length p} \<subseteq> fst ` set (op_nodes s)"
  proof
    fix q assume "q \<in> ?f ` {..<length p}"
    then obtain i where i: "i < length p" "q = take (Suc i) p" by auto
    then have "node_at s q \<noteq> None"
      using tree_ok_under_none [OF opfs_invD(1) [OF assms(1)], of q p] assms(2) take_is_prefix by metis
    moreover have "q \<noteq> []" using i by (cases p) auto
    ultimately show "q \<in> fst ` set (op_nodes s)" by (auto simp: node_at_def map_of_eq_None_iff)
  qed
  ultimately have "length p \<le> card (fst ` set (op_nodes s))"
    using card_mono [of "fst ` set (op_nodes s)" "?f ` {..<length p}"] by (simp add: card_image)
  also have "\<dots> \<le> length (op_nodes s)" by (metis card_image_le card_length finite_set le_trans)
  finally show ?thesis .
qed

lemma write_stream_clean:
  assumes "no_faults s"
  obtains s' where "write_stream h b s = (Inr (), s')" "no_faults s'" "op_move s' = op_move s"
    "s' = put_node h (FileN b) (s\<lparr>op_faults := \<lambda>k. op_faults s (Suc (Suc k))\<rparr>)"
  using assms by (simp add: write_stream_apply no_faults_def)

text \<open>One entry of the loop of \<open>copyDirRecursive\<close>, for a file.\<close>

lemma copy_file_entry:
  assumes "opfs_inv s" "no_faults s" "segs_ok (dst @ [nm])" "node_at s (src @ [nm]) = Some (FileN b)"
    and "node_at s dst = Some DirN" "node_at s (dst @ [nm]) = None"
  obtains s' where
    "abind (getFile (src @ [nm])) (\<lambda>data. abind (getFileHandle dst nm True) (\<lambda>out. write_stream out data)) s = (Inr (), s')"
    "opfs_inv s'" "no_faults s'" "op_move s' = op_move s" "node_at s' = (node_at s)(dst @ [nm] \<mapsto> FileN b)"
proof -
  let ?h = "dst @ [nm]" and ?s1 = "put_node (dst @ [nm]) (FileN []) s"
  have inv1: "opfs_inv ?s1" using opfs_inv_put [OF assms(1,3)] assms(5,6) by simp
  have "no_faults ?s1" using assms(2) by (simp add: no_faults_def)
  then obtain s2 where w: "write_stream ?h b ?s1 = (Inr (), s2)" "no_faults s2" "op_move s2 = op_move ?s1"
    "s2 = put_node ?h (FileN b) (?s1\<lparr>op_faults := \<lambda>k. op_faults ?s1 (Suc (Suc k))\<rparr>)"
    by (rule write_stream_clean)
  have "opfs_inv s2" unfolding w(4) using opfs_inv_put [OF _ assms(3)] inv1 assms(5) by simp
  moreover have "node_at s2 = (node_at s)(?h \<mapsto> FileN b)" unfolding w(4) by (simp add: fun_eq_iff)
  ultimately show ?thesis
    using that [of s2] w(1-3) assms(4,6) by (simp add: act_simps getFile_def getFileHandle_def)
qed

definition copy_pre :: "handle \<Rightarrow> handle \<Rightarrow> opfs \<Rightarrow> bool" where
  "copy_pre src dst s \<longleftrightarrow> opfs_inv s \<and> no_faults s \<and> segs_ok dst \<and> node_at s src = Some DirN \<and> node_at s dst = Some DirN
     \<and> \<not> prefix src dst \<and> \<not> prefix dst src"

definition copy_step :: "nat \<Rightarrow> handle \<Rightarrow> handle \<Rightarrow> string \<times> node \<Rightarrow> (opfs, unit) act" where
  "copy_step k src dst = (\<lambda>(name, n).
       case n of
         DirN \<Rightarrow> abind (getDirectoryHandle dst name True) (\<lambda>child. copyDirRecursive k (src @ [name]) child)
       | FileN _ \<Rightarrow> abind (getFile (src @ [name])) (\<lambda>data.
           abind (getFileHandle dst name True) (\<lambda>out. write_stream out data)))"

lemma copyDirRecursive_step: "copyDirRecursive (Suc k) src dst = abind (handle_entries src) (afor (copy_step k src dst))"
  by (simp add: copy_step_def [abs_def])

lemma copy_entry:
  assumes IH: "\<And>src dst s. copy_pre src dst s \<Longrightarrow> (\<forall>q. strict_prefix dst q \<longrightarrow> node_at s q = None) \<Longrightarrow>
      (\<forall>q. node_at s (src @ q) \<noteq> None \<longrightarrow> length q \<le> k) \<Longrightarrow>
      \<exists>s'. copyDirRecursive k src dst s = (Inr (), s') \<and> opfs_inv s' \<and> no_faults s' \<and> op_move s' = op_move s
        \<and> node_at s' = copied UNIV src dst (node_at s)"
    and pre: "copy_pre src dst s" and n: "t (src @ [nm]) = Some n" and N: "nm \<notin> N"
    and s: "node_at s = copied N src dst t" and t: "tree_ok t" and fresh: "\<forall>q. strict_prefix dst q \<longrightarrow> t q = None"
    and deep: "\<forall>q. t (src @ q) \<noteq> None \<longrightarrow> length q \<le> Suc k"
  obtains s' where "copy_step k src dst (nm, n) s = (Inr (), s')" "opfs_inv s'" "no_faults s'" "op_move s' = op_move s"
    "node_at s' = copied (insert nm N) src dst t"
proof -
  let ?sc = "src @ [nm]" and ?dc = "dst @ [nm]"
  have p: "opfs_inv s" "no_faults s" "segs_ok dst" "node_at s src = Some DirN" "node_at s dst = Some DirN"
    "\<not> prefix src dst" "\<not> prefix dst src" using pre by (simp_all add: copy_pre_def)
  have nm: "segs_ok ?dc" using p(3) tree_okD(3) [OF t n] by simp
  have apart: "\<not> prefix dst (src @ z)" "\<not> prefix src (dst @ z)" for z
    using p(6,7) by (auto simp: prefix_append prefix_def dest: append_eq_append_conv2 [THEN iffD1])
  have src_at: "node_at s (src @ z) = t (src @ z)" for z
    using apart(1) [of z] by (simp add: s copied_off strict_prefix_def)
  have dst_at: "node_at s (dst @ nm # z) = None" for z
    using N spec [OF fresh, of "dst @ nm # z"] strict_prefix_append_Cons [of dst nm z] by (simp add: s)
  show ?thesis
  proof (cases n)
    case (FileN b)
    then obtain s' where r: "copy_step k src dst (nm, n) s = (Inr (), s')" "opfs_inv s'" "no_faults s'" "op_move s' = op_move s"
      "node_at s' = (node_at s)(?dc \<mapsto> FileN b)"
      using copy_file_entry [OF p(1,2) nm, of src b] src_at [of "[nm]"] n p(5) dst_at [of "[]"] by (auto simp: copy_step_def)
    have "node_at s' = copied (insert nm N) src dst t"
    proof (rule copied_insert [OF N])
      show "node_at s' (dst @ nm # z) = t (src @ nm # z)" for z
        using r(5) n FileN dst_at [of z] tree_ok_under_file [OF t, of ?sc b "?sc @ z"]
        by (cases "z = []") (auto simp: strict_prefix_def)
      show "node_at s' q = copied N src dst t q" if "\<not> prefix ?dc q" for q using r(5) s that by auto
    qed
    then show ?thesis using that r by blast
  next
    case DirN
    let ?s1 = "put_node ?dc DirN s"
    have inv1: "opfs_inv ?s1" using opfs_inv_put [OF p(1) nm] p(5) by simp
    have at1: "node_at ?s1 = (node_at s)(?dc \<mapsto> DirN)" by simp
    have off: "?sc @ z \<noteq> ?dc" "\<not> prefix ?sc ?dc" "\<not> prefix ?dc ?sc" for z
      using apart [of "[nm]"] apart(1) [of "nm # z"] append_prefixD by (auto simp: prefix_def)
    have "copy_pre ?sc ?dc ?s1"
      using inv1 p(2) nm off src_at [of "[nm]"] n DirN at1 off(1) [of "[]"] by (simp add: copy_pre_def no_faults_def)
    moreover have "\<forall>q. strict_prefix ?dc q \<longrightarrow> node_at ?s1 q = None"
      using dst_at by (auto simp: at1 elim!: strict_prefixE')
    moreover have "\<forall>q. node_at ?s1 (?sc @ q) \<noteq> None \<longrightarrow> length q \<le> k"
      using deep src_at off(1) by (auto simp: at1 dest: spec [of _ "nm # _"])
    ultimately obtain s' where r: "copyDirRecursive k ?sc ?dc ?s1 = (Inr (), s')" "opfs_inv s'" "no_faults s'"
      "op_move s' = op_move ?s1" "node_at s' = copied UNIV ?sc ?dc (node_at ?s1)"
      using IH by blast
    have "node_at s' = copied (insert nm N) src dst t"
    proof (rule copied_insert [OF N])
      show "node_at s' (dst @ nm # z) = t (src @ nm # z)" for z
        using n DirN src_at [of "nm # z"] off(1) [of z] by (cases z) (auto simp: r(5) at1 copied_def strict_prefix_def)
      show "node_at s' q = copied N src dst t q" if "\<not> prefix ?dc q" for q
        using that s by (auto simp: r(5) at1 copied_def strict_prefix_def)
    qed
    moreover have "copy_step k src dst (nm, n) s = (Inr (), s')"
      using DirN r(1) dst_at [of "[]"] by (simp add: copy_step_def act_simps getDirectoryHandle_def)
    ultimately show ?thesis using that [of s'] r by simp
  qed
qed

lemma copy_entries:
  assumes IH: "\<And>src dst s. copy_pre src dst s \<Longrightarrow> (\<forall>q. strict_prefix dst q \<longrightarrow> node_at s q = None) \<Longrightarrow>
      (\<forall>q. node_at s (src @ q) \<noteq> None \<longrightarrow> length q \<le> k) \<Longrightarrow>
      \<exists>s'. copyDirRecursive k src dst s = (Inr (), s') \<and> opfs_inv s' \<and> no_faults s' \<and> op_move s' = op_move s
        \<and> node_at s' = copied UNIV src dst (node_at s)"
    and t: "tree_ok t" "\<forall>q. strict_prefix dst q \<longrightarrow> t q = None" "\<forall>q. t (src @ q) \<noteq> None \<longrightarrow> length q \<le> Suc k"
      "t src = Some DirN" "t dst = Some DirN" "segs_ok dst" "\<not> prefix src dst" "\<not> prefix dst src"
    and "opfs_inv s" "no_faults s" "node_at s = copied N src dst t" "distinct (map fst es)" "fst ` set es \<inter> N = {}"
    and "\<forall>(nm, n) \<in> set es. t (src @ [nm]) = Some n"
  shows "\<exists>s'. afor (copy_step k src dst) es s = (Inr (), s') \<and> opfs_inv s' \<and> no_faults s' \<and> op_move s' = op_move s
    \<and> node_at s' = copied (N \<union> fst ` set es) src dst t"
  using assms(10-15)
proof (induction es arbitrary: s N)
  case Nil
  then show ?case by (simp add: act_simps)
next
  case (Cons e es)
  obtain nm n where e: "e = (nm, n)" by (cases e)
  have at: "node_at s src = Some DirN" "node_at s dst = Some DirN"
    using t(4,5,8) Cons.prems(3) copied_off [of dst src] copied_off [of dst dst] by (auto simp: strict_prefix_def)
  then have pre: "copy_pre src dst s" using Cons.prems t by (simp add: copy_pre_def)
  have nm: "t (src @ [nm]) = Some n" "nm \<notin> N" using Cons.prems(5,6) by (auto simp: e)
  obtain s1 where s1: "copy_step k src dst (nm, n) s = (Inr (), s1)" "opfs_inv s1" "no_faults s1" "op_move s1 = op_move s"
    "node_at s1 = copied (insert nm N) src dst t"
    by (rule copy_entry [OF IH pre nm Cons.prems(3) t(1-3)])
  have "fst ` set es \<inter> insert nm N = {}" using Cons.prems(4,5) by (auto simp: e)
  then obtain s2 where "afor (copy_step k src dst) es s1 = (Inr (), s2)" "opfs_inv s2" "no_faults s2" "op_move s2 = op_move s1"
    "node_at s2 = copied (insert nm N \<union> fst ` set es) src dst t"
    using Cons.IH [OF s1(2,3,5)] Cons.prems(4,6) by (auto simp: e)
  then show ?case using s1 by (simp add: e athen_Inr)
qed

lemma copyDirRecursive_ok:
  assumes "copy_pre src dst s" "\<forall>q. strict_prefix dst q \<longrightarrow> node_at s q = None" "\<forall>q. node_at s (src @ q) \<noteq> None \<longrightarrow> length q \<le> k"
  shows "\<exists>s'. copyDirRecursive k src dst s = (Inr (), s') \<and> opfs_inv s' \<and> no_faults s' \<and> op_move s' = op_move s
    \<and> node_at s' = copied UNIV src dst (node_at s)"
  using assms
proof (induction k arbitrary: src dst s)
  case 0
  have "copied UNIV src dst (node_at s) q = node_at s q" for q
    using 0 by (auto simp: copied_def elim!: strict_prefixE')
  then show ?case using 0(1) by (simp add: act_simps copy_pre_def fun_eq_iff)
next
  case (Suc k)
  have p: "opfs_inv s" "no_faults s" "segs_ok dst" "node_at s src = Some DirN" "node_at s dst = Some DirN"
    "\<not> prefix src dst" "\<not> prefix dst src" using Suc.prems(1) by (simp_all add: copy_pre_def)
  obtain es where es: "handle_entries src s = (Inr es, s)" "distinct (map fst es)"
    "\<forall>nm n. (nm, n) \<in> set es \<longleftrightarrow> node_at s (src @ [nm]) = Some n"
    by (rule handle_entries_ok [OF p(1), where dir = src])
  have none: "node_at s = copied {} src dst (node_at s)" by (simp add: copied_def)
  have children: "\<forall>(nm, n) \<in> set es. node_at s (src @ [nm]) = Some n" using es(3) by auto
  obtain s' where s': "afor (copy_step k src dst) es s = (Inr (), s')" "opfs_inv s'" "no_faults s'" "op_move s' = op_move s"
    "node_at s' = copied ({} \<union> fst ` set es) src dst (node_at s)"
    using copy_entries [OF Suc.IH opfs_invD(1) [OF p(1)] Suc.prems(2,3) p(4,5,3,6,7,1,2) none es(2) Int_empty_right children] by blast
  have "copied (fst ` set es) src dst (node_at s) = copied UNIV src dst (node_at s)"
  proof
    fix q
    show "copied (fst ` set es) src dst (node_at s) q = copied UNIV src dst (node_at s) q"
    proof (cases "strict_prefix dst q")
      case True
      then obtain x z where q: "q = dst @ x # z" by (rule strict_prefixE')
      show ?thesis
      proof (cases "x \<in> fst ` set es")
        case False
        then have "node_at s (src @ [x]) = None" using es(3) by (metis fst_conv image_eqI not_None_eq)
        then have "node_at s (src @ x # z) = None"
          using tree_ok_under_none [OF opfs_invD(1) [OF p(1)], of "src @ [x]" "src @ x # z"] by (simp add: prefix_def)
        then show ?thesis using False True Suc.prems(2) by (simp add: q)
      qed (simp add: q)
    qed (simp add: copied_off)
  qed
  then show ?case using s' es(1) by (simp add: copyDirRecursive_step abind_Inr del: copyDirRecursive.simps)
qed

lemma create_last:
  assumes "tree_ok (node_at s)" "node_at s (h @ ss) = Some DirN" "node_at s (h @ ss @ [x]) = None"
  shows "create_segments h (ss @ [x]) s = (Inr (h @ ss @ [x]), put_node (h @ ss @ [x]) DirN s)"
  using assms(2,3)
proof (induction ss arbitrary: h)
  case Nil
  then show ?case by (simp add: act_simps getDirectoryHandle_def)
next
  case (Cons y ss)
  have "node_at s (h @ [y]) = Some DirN"
    using Cons.prems(1) tree_ok_prefix [OF assms(1), of "h @ [y]" ss DirN] by (cases "ss = []") auto
  then show ?case using Cons.IH [of "h @ [y]"] Cons.prems by (simp add: act_simps getDirectoryHandle_def)
qed

lemma removeInternal_dir:
  assumes "opfs_inv s" "segs_ok a" "a \<noteq> []" "node_at s a = Some DirN"
  obtains s' where "removeInternal (render a) False s = (if has_children (node_at s) a then Inl (StorageError Not_empty) else Inr (), s')"
    "node_at s' = (if has_children (node_at s) a then node_at s else (node_at s)(a := None))" "opfs_inv s'"
proof -
  note t = opfs_invD(1) [OF assms(1)]
  have rp: "resolveParent (render a) s = (Inr (butlast a, List.last a), s)"
    using resolveParent_ok [OF assms(1-3)] tree_okD(4) [OF t assms(4,3)] by simp
  have la: "butlast a @ [List.last a] = a" using assms(3) by simp
  have key: "node_at s q \<noteq> None \<longleftrightarrow> (\<exists>n. (q, n) \<in> set (op_nodes s))" if "strict_prefix a q" for q
  proof -
    have "q \<noteq> []" using that by auto
    then show ?thesis using map_of_eq_None_iff [of "op_nodes s" q] by (simp add: node_at_def image_iff) force
  qed
  have "list_ex (\<lambda>(q, n). strict_prefix a q) (op_nodes s) \<longleftrightarrow> (\<exists>q. strict_prefix a q \<and> (\<exists>n. (q, n) \<in> set (op_nodes s)))"
    by (auto simp: list_ex_iff)
  also have "\<dots> \<longleftrightarrow> has_children (node_at s) a" unfolding has_children_def using key by blast
  finally have ch: "list_ex (\<lambda>(q, n). strict_prefix a q) (op_nodes s) \<longleftrightarrow> has_children (node_at s) a" .
  show ?thesis
  proof (cases "has_children (node_at s) a")
    case True
    then show ?thesis
      using that [of s] assms(1,4) rp ch by (simp add: removeInternal_def act_simps removeEntry_def la)
  next
    case False
    let ?s' = "s\<lparr>op_nodes := filter (\<lambda>(q, n). \<not> prefix a q) (op_nodes s)\<rparr>"
    have "map_of (filter (\<lambda>(q, n). \<not> prefix a q) ns) q = (if prefix a q then None else map_of ns q)" for q and ns :: opfs_nodes
      by (induction ns) auto
    then have n: "node_at ?s' = (node_at s)(a := None)"
      using False assms(3) by (auto simp: node_at_def has_children_def strict_prefix_def fun_eq_iff)
    have "node_at ?s' = remove_tree a (node_at s)"
      using False unfolding n by (auto simp: remove_tree_def fun_eq_iff has_children_def strict_prefix_def)
    then have "tree_ok (node_at ?s')" using tree_ok_remove [OF t assms(3)] by simp
    moreover have "distinct (map fst (op_nodes ?s'))" using distinct_map_filter [OF opfs_invD(2) [OF assms(1)]] by simp
    ultimately have "opfs_inv ?s'" using opfs_invD(3,4) [OF assms(1)] unfolding opfs_inv_def by auto
    then show ?thesis
      using that [of ?s'] n False assms(4) rp ch by (simp add: removeInternal_def act_simps removeEntry_def la)
  qed
qed

lemma copyHandle_dir:
  assumes "opfs_inv s" "no_faults s" "segs_ok a" "segs_ok b" "node_at s a = Some DirN" "b \<noteq> []" "node_at s b = None"
    and "node_at s (butlast b) = Some DirN" "\<not> prefix a b"
  obtains s' where "copyHandle (render a) (render b) s = (Inr (), s')" "opfs_inv s'" "op_move s' = op_move s"
    "\<forall>z. node_at s' (b @ z) = node_at s (a @ z)" "\<forall>q. \<not> prefix b q \<longrightarrow> node_at s' q = node_at s q"
proof -
  let ?s1 = "put_node b DirN s" and ?k = "Suc (length (op_nodes (put_node b DirN s)))"
  note t = opfs_invD(1) [OF assms(1)]
  have inv1: "opfs_inv ?s1" using opfs_inv_put [OF assms(1,4,6,8)] by simp
  have at1: "node_at ?s1 = (node_at s)(b \<mapsto> DirN)" using assms(6) by simp
  have gone: "node_at s (b @ z) = None" for z using tree_ok_under_none [OF t assms(7)] by simp
  have ba: "\<not> prefix b a" using gone assms(5) by (auto simp: prefix_def)
  have ab: "a @ z \<noteq> b" for z using assms(9) by auto
  have "create_segments [] (butlast b @ [List.last b]) s = (Inr ([] @ butlast b @ [List.last b]), put_node ([] @ butlast b @ [List.last b]) DirN s)"
    using create_last [OF t, of "[]" "butlast b" "List.last b"] assms(6-8) by simp
  then have cs: "create_segments [] b s = (Inr b, ?s1)" using assms(6) by simp
  have "copy_pre a b ?s1"
    using inv1 assms(2,4,5,9) at1 ba ab [of "[]"] by (simp add: copy_pre_def no_faults_def)
  moreover have "\<forall>q. strict_prefix b q \<longrightarrow> node_at ?s1 q = None"
    using gone by (auto simp: at1 elim!: strict_prefixE')
  moreover have "\<forall>q. node_at ?s1 (a @ q) \<noteq> None \<longrightarrow> length q \<le> ?k"
    using opfs_depth [OF inv1] by fastforce
  ultimately obtain s2 where s2: "copyDirRecursive ?k a b ?s1 = (Inr (), s2)" "opfs_inv s2" "op_move s2 = op_move ?s1"
    "node_at s2 = copied UNIV a b (node_at ?s1)" using copyDirRecursive_ok [of a b ?s1 ?k] by blast
  have "copyHandle (render a) (render b) s = (Inr (), s2)"
    using resolveDir_ok [OF assms(1,3,5)] assms(4) opfs_invD(4) [OF assms(1)] cs s2(1)
    by (simp add: copyHandle_def act_simps opfs_init_def del: copyDirRecursive.simps)
  moreover have "node_at s2 (b @ z) = node_at s (a @ z)" for z
    using ab assms(5) by (cases z) (auto simp: s2(4) at1 copied_off)
  moreover have "node_at s2 q = node_at s q" if "\<not> prefix b q" for q
    using that by (auto simp: s2(4) at1 copied_def strict_prefix_def)
  ultimately show ?thesis using that s2(2,3) by simp
qed

lemma has_children_iff: "has_children t a \<longleftrightarrow> (\<exists>z. z \<noteq> [] \<and> t (a @ z) \<noteq> None)"
  unfolding has_children_def strict_prefix_def prefix_def by blast


section \<open>Witnesses\<close>

definition empty_opfs :: "(nat \<Rightarrow> string option) \<Rightarrow> opfs" where
  "empty_opfs faults = \<lparr>op_nodes = [], op_modified = \<lambda>_. 0, op_times = \<lambda>n. n, op_faults = faults, op_move = None,
     op_available = True, op_changes = []\<rparr>"

definition demo_opfs :: "(nat \<Rightarrow> string option) \<Rightarrow> opfs" where
  "demo_opfs faults = put_node [''d'', ''x''] (FileN [66]) (put_node [''d''] DirN (put_node [''a''] (FileN [65]) (empty_opfs faults)))"

lemma empty_opfs_inv: "opfs_inv (empty_opfs f)" "node_at (empty_opfs f) = [[] \<mapsto> DirN]"
proof -
  show n: "node_at (empty_opfs f) = [[] \<mapsto> DirN]" by (auto simp: node_at_def empty_opfs_def fun_eq_iff)
  show "opfs_inv (empty_opfs f)" unfolding opfs_inv_def n by (simp add: empty_opfs_def tree_ok_def)
qed

lemma demo_opfs_holds:
  "opfs_inv (demo_opfs f)" "op_faults (demo_opfs f) = f" "op_move (demo_opfs f) = None"
  "node_at (demo_opfs f) = [[] \<mapsto> DirN, [''a''] \<mapsto> FileN [65], [''d''] \<mapsto> DirN, [''d'', ''x''] \<mapsto> FileN [66]]"
proof -
  let ?s1 = "put_node [''a''] (FileN [65]) (empty_opfs f)" and ?s2 = "put_node [''d''] DirN (put_node [''a''] (FileN [65]) (empty_opfs f))"
  have segs: "seg_ok ''a''" "seg_ok ''d''" "seg_ok ''x''" by (simp_all add: seg_ok_def)
  have 1: "opfs_inv ?s1" by (rule opfs_inv_put) (simp_all add: empty_opfs_inv segs)
  have 2: "opfs_inv ?s2" by (rule opfs_inv_put [OF 1]) (simp_all add: empty_opfs_inv segs)
  show "opfs_inv (demo_opfs f)" unfolding demo_opfs_def by (rule opfs_inv_put [OF 2]) (simp_all add: empty_opfs_inv segs)
qed (simp_all add: demo_opfs_def empty_opfs_inv, simp_all add: empty_opfs_def)

lemma demo_opfs_paths:
  "path_ok ''/a''" "norm_segs ''/a'' = [''a'']" "path_ok ''/b''" "norm_segs ''/b'' = [''b'']" "path_ok ''/d''" "norm_segs ''/d'' = [''d'']"
  by (simp_all add: path_ok_def norm_segs_def)


theorem opfs_write_outcome_witness:
  "node_at (snd (opfs_writeFile ''/b'' [67] no_options (demo_opfs (\<lambda>_. None)))) [''b''] = Some (FileN [67])
   \<and> node_at (snd (opfs_writeFile ''/b'' [67] no_options (demo_opfs (\<lambda>_. Some ''QuotaExceededError'')))) [''b''] = Some (FileN [])"
proof -
  have w: "opfs_writeFile p c no_options s = (fst (opfs_writeFile p c no_options s), snd (opfs_writeFile p c no_options s))" for p c s
    by simp
  show ?thesis
    using opfs_write_outcome [of "demo_opfs (\<lambda>_. None)" "''/b''", OF _ _ _ _ _ w]
      opfs_write_outcome [of "demo_opfs (\<lambda>_. Some ''QuotaExceededError'')" "''/b''", OF _ _ _ _ _ w]
    by (simp add: demo_opfs_holds demo_opfs_paths)
qed


end
