(* ===== verification/Versioned.thy ===== *)
theory Versioned
  imports IdbFs
begin

text \<open>
  The versioning layer (\<open>packages/storage/src/versioned.ts\<close>) over an arbitrary backend. Its state
  is the state of the backend it wraps together with the map of the last snapshot times and the
  values of \<open>Date.now()\<close> still to come. The loop that looks for a free version name carries fuel;
  the lemmas show that more fuel than there are entries in the store is enough.

  The lemmas are proved once in the context of the backend contract and instantiated on the IndexedDB
  backend.
\<close>

section \<open>State and configuration\<close>

record 's vstate =
  inner :: 's
  lastSnapshotAt :: "string \<Rightarrow> nat option"
  vtimes :: "nat \<Rightarrow> nat"

record versioning =
  versionsDir :: string
  maxVersions :: nat
  maxFileBytes :: nat
  minInterval :: nat
  rootFor :: "string \<Rightarrow> string option res"
  shouldVersion :: "string \<Rightarrow> bool res"
  probe_fuel :: nat

definition default_rootFor :: "string \<Rightarrow> string option res" where
  "default_rootFor path =
     res_bind (pathSegments path) (\<lambda>segments.
       Inr (if length segments \<ge> 2 then Some (''/'' @ segments ! 0) else None))"

definition default_shouldVersion :: "(string \<Rightarrow> string option res) \<Rightarrow> string \<Rightarrow> bool res" where
  "default_shouldVersion root path =
     res_bind (root path) (\<lambda>r.
       if r = None then Inr False else res_bind (hasHiddenSegment path) (\<lambda>h. Inr (\<not> h)))"

definition default_versioning :: "nat \<Rightarrow> versioning" where
  "default_versioning fuel =
     \<lparr>versionsDir = ''.tactile/versions'', maxVersions = 30, maxFileBytes = 512 * 1024,
      minInterval = 30000, rootFor = default_rootFor,
      shouldVersion = default_shouldVersion default_rootFor, probe_fuel = fuel\<rparr>"

section \<open>The methods\<close>

definition on_inner :: "('s, 'a) act \<Rightarrow> ('s vstate, 'a) act" where
  "on_inner m = (\<lambda>v. case m (inner v) of (r, s') \<Rightarrow> (r, v\<lparr>inner := s'\<rparr>))"

definition vnow :: "('s vstate, nat) act" where
  "vnow = (\<lambda>v. (Inr (vtimes v 0), v\<lparr>vtimes := \<lambda>n. vtimes v (Suc n)\<rparr>))"

definition versionDirFor :: "versioning \<Rightarrow> string \<Rightarrow> string option res" where
  "versionDirFor cfg path =
     res_bind (normalizePath path) (\<lambda>normalized.
     res_bind (rootFor cfg normalized) (\<lambda>root.
       case root of
         None \<Rightarrow> Inr None
       | Some r \<Rightarrow>
           if r = '''' then Inr None
           else res_bind (encodePathAsDir normalized) (\<lambda>enc.
             Inr (Some (r @ ''/'' @ versionsDir cfg @ ''/'' @ enc)))))"

definition version_file :: "string \<Rightarrow> nat \<Rightarrow> string" where
  "version_file dir t = dir @ ''/'' @ show_nat t @ ''.md''"

fun free_version :: "'s backend \<Rightarrow> string \<Rightarrow> nat \<Rightarrow> nat \<Rightarrow> ('s, nat) act" where
  "free_version B dir 0 t = athrow (JsError ''out of fuel'')"
| "free_version B dir (Suc fuel) t =
     abind (exists_path B (version_file dir t) no_options) (\<lambda>taken.
       if taken then free_version B dir fuel (Suc t) else aret t)"

definition internal_options :: backend_options where
  "internal_options = no_options\<lparr>keepVersion := Some False, opt_origin := Some Local\<rparr>"

definition version_names :: "dir_entry list \<Rightarrow> string list" where
  "version_names es = map de_name (filter (\<lambda>e. isFile e \<and> ends_with (de_name e) ''.md'') es)"

definition prune :: "'s backend \<Rightarrow> versioning \<Rightarrow> string \<Rightarrow> ('s, unit) act" where
  "prune B cfg dir =
     abind (readDir B dir no_options) (\<lambda>es.
       let versions = sort (version_names es) in
       afor (\<lambda>stale. remove_path B (dir @ ''/'' @ stale) internal_options)
            (take (length versions - maxVersions cfg) versions))"

definition store_version :: "'s backend \<Rightarrow> versioning \<Rightarrow> string \<Rightarrow> nat \<Rightarrow> bytes \<Rightarrow> ('s, unit) act" where
  "store_version B cfg dir now previous =
     athen (mkdir B dir recursively)
     (abind (free_version B dir (probe_fuel cfg) now) (\<lambda>versionTime.
      athen (writeFile B (version_file dir versionTime) previous internal_options)
            (prune B cfg dir)))"

definition throttled :: "versioning \<Rightarrow> nat \<Rightarrow> nat \<Rightarrow> bool" where
  "throttled cfg now prev = (minInterval cfg > 0 \<and> int now - int prev < int (minInterval cfg))"

definition snapshotBeforeWrite :: "'s backend \<Rightarrow> versioning \<Rightarrow> string \<Rightarrow> ('s vstate, unit) act" where
  "snapshotBeforeWrite B cfg path =
     abind (on_inner (exists_path B path no_options)) (\<lambda>present.
       if \<not> present then aret ()
       else abind (on_inner (stat B path no_options)) (\<lambda>st.
         if st_size st > maxFileBytes cfg then aret ()
         else abind vnow (\<lambda>now.
           abind (aread (\<lambda>v. case lastSnapshotAt v path of None \<Rightarrow> 0 | Some t \<Rightarrow> t)) (\<lambda>prev.
             if throttled cfg now prev then aret ()
             else athen (amodify (\<lambda>v. v\<lparr>lastSnapshotAt := (lastSnapshotAt v)(path \<mapsto> now)\<rparr>))
               (abind (on_inner (readFile B path no_options)) (\<lambda>previous.
                abind (alift (versionDirFor cfg path)) (\<lambda>dir.
                  case dir of None \<Rightarrow> aret ()
                  | Some d \<Rightarrow> on_inner (store_version B cfg d now previous))))))))"

definition snapshot_if :: "'s backend \<Rightarrow> versioning \<Rightarrow> string \<Rightarrow> backend_options \<Rightarrow> ('s vstate, unit) act" where
  "snapshot_if B cfg path options =
     (if keepVersion options = Some False then aret ()
      else abind (alift (shouldVersion cfg path)) (\<lambda>b.
        if b then snapshotBeforeWrite B cfg path else aret ()))"

definition v_writeTextFile ::
    "'s backend \<Rightarrow> versioning \<Rightarrow> string \<Rightarrow> string \<Rightarrow> backend_options \<Rightarrow> ('s vstate, unit) act" where
  "v_writeTextFile B cfg path contents options =
     athen (snapshot_if B cfg path options) (on_inner (writeTextFile B path contents options))"

definition v_writeFile ::
    "'s backend \<Rightarrow> versioning \<Rightarrow> string \<Rightarrow> bytes \<Rightarrow> backend_options \<Rightarrow> ('s vstate, unit) act" where
  "v_writeFile B cfg path contents options =
     athen (snapshot_if B cfg path options) (on_inner (writeFile B path contents options))"

text \<open>
  \<open>Number(name.replace(/\.md$/, '')) || 0\<close>: the decimal value of the name without its ending, 0 for
  any other text (the names are those the layer writes, so no other number syntax occurs).
\<close>

definition version_time :: "string \<Rightarrow> nat" where
  "version_time nm =
     (let stem = take (length nm - 3) nm in
      if stem \<noteq> [] \<and> list_all (\<lambda>c. 48 \<le> (of_char c :: nat) \<and> (of_char c :: nat) \<le> 57) stem
      then read_nat stem else 0)"

fun amap :: "('a \<Rightarrow> ('s, 'b) act) \<Rightarrow> 'a list \<Rightarrow> ('s, 'b list) act" where
  "amap f [] = aret []"
| "amap f (x # xs) = abind (f x) (\<lambda>y. abind (amap f xs) (\<lambda>ys. aret (y # ys)))"

definition version_info :: "'s backend \<Rightarrow> string \<Rightarrow> string \<Rightarrow> ('s, file_version) act" where
  "version_info B dir nm =
     abind (acatch (abind (stat B (dir @ ''/'' @ nm) no_options) (\<lambda>st. aret (st_size st))) (\<lambda>_. aret 0))
       (\<lambda>sz. aret \<lparr>fv_id = nm, fv_timestamp = version_time nm, fv_size = sz\<rparr>)"

definition newest_first :: "file_version list \<Rightarrow> file_version list" where
  "newest_first vs = sort_key (\<lambda>v. - int (fv_timestamp v)) vs"

definition listVersions :: "'s backend \<Rightarrow> versioning \<Rightarrow> string \<Rightarrow> ('s vstate, file_version list) act" where
  "listVersions B cfg path =
     abind (alift (versionDirFor cfg path)) (\<lambda>dir.
       case dir of None \<Rightarrow> aret []
       | Some d \<Rightarrow> abind (on_inner (exists_path B d no_options)) (\<lambda>present.
           if \<not> present then aret []
           else abind (on_inner (readDir B d no_options)) (\<lambda>es.
             abind (on_inner (amap (version_info B d) (version_names es))) (\<lambda>vs. aret (newest_first vs)))))"

definition readVersion :: "'s backend \<Rightarrow> versioning \<Rightarrow> string \<Rightarrow> string \<Rightarrow> ('s vstate, string) act" where
  "readVersion B cfg path vid =
     (if CHR ''/'' \<in> set vid \<or> sublist ''..'' vid then athrow (JsError ''Invalid version id'')
      else abind (alift (versionDirFor cfg path)) (\<lambda>dir.
        case dir of None \<Rightarrow> athrow (JsError ''Path is not versioned'')
        | Some d \<Rightarrow> on_inner (readTextFile B (d @ ''/'' @ vid) no_options)))"

definition restoreVersion :: "'s backend \<Rightarrow> versioning \<Rightarrow> string \<Rightarrow> string \<Rightarrow> ('s vstate, unit) act" where
  "restoreVersion B cfg path vid =
     abind (readVersion B cfg path vid) (\<lambda>contents. v_writeTextFile B cfg path contents no_options)"

definition v_remove :: "'s backend \<Rightarrow> versioning \<Rightarrow> string \<Rightarrow> backend_options \<Rightarrow> ('s vstate, unit) act" where
  "v_remove B cfg path options =
     abind (alift (normalizePath path)) (\<lambda>normalized.
     athen (amodify (\<lambda>v. v\<lparr>lastSnapshotAt := (lastSnapshotAt v)(normalized := None)\<rparr>))
     (athen (on_inner (remove_path B path options))
     (abind (alift (shouldVersion cfg normalized)) (\<lambda>b.
       if b then abind (alift (versionDirFor cfg normalized)) (\<lambda>dir.
         case dir of None \<Rightarrow> aret ()
         | Some d \<Rightarrow> abind (on_inner (exists_path B d no_options)) (\<lambda>present.
             if present then on_inner (remove_path B d (internal_options\<lparr>opt_recursive := Some True\<rparr>))
             else aret ()))
       else aret ()))))"

definition versioned_backend :: "'s backend \<Rightarrow> versioning \<Rightarrow> 's vstate backend" where
  "versioned_backend B cfg =
     \<lparr>be_name = be_name B @ ''+versioned'',
      readDir = (\<lambda>p os. on_inner (readDir B p os)),
      readTextFile = (\<lambda>p os. on_inner (readTextFile B p os)),
      readFile = (\<lambda>p os. on_inner (readFile B p os)),
      writeTextFile = v_writeTextFile B cfg, writeFile = v_writeFile B cfg,
      mkdir = (\<lambda>p os. on_inner (mkdir B p os)),
      rename = (\<lambda>p q os. on_inner (rename B p q os)),
      remove_path = v_remove B cfg,
      stat = (\<lambda>p os. on_inner (stat B p os)),
      exists_path = (\<lambda>p os. on_inner (exists_path B p os))\<rparr>"

lemma on_inner_apply [act_simps]: "on_inner m v = (fst (m (inner v)), v\<lparr>inner := snd (m (inner v))\<rparr>)"
  by (simp add: on_inner_def split: prod.split)

lemma vnow_apply [act_simps]: "vnow v = (Inr (vtimes v 0), v\<lparr>vtimes := \<lambda>n. vtimes v (Suc n)\<rparr>)"
  by (simp add: vnow_def)


section \<open>Version names\<close>

definition vname :: "nat \<Rightarrow> string" where
  "vname t = show_nat t @ ''.md''"

lemma show_nat_chars:
  assumes "c \<in> set (show_nat n)"
  shows "48 \<le> (of_char c :: nat) \<and> (of_char c :: nat) \<le> 57"
proof -
  obtain d where "d < 10" "c = digit_char d" using show_base_chars [OF _ assms] by auto
  then show ?thesis by (simp add: digit_char_def of_char_of)
qed

lemma vname_seg_ok [simp]: "seg_ok (vname t)"
proof -
  have "CHR ''/'' \<notin> set (show_nat t)" using show_nat_chars [of "CHR ''/''" t] by auto
  moreover have "suffix ''.md'' (vname t)" by (simp add: vname_def suffix_def)
  then have "vname t \<noteq> []" "vname t \<noteq> ''.''" "vname t \<noteq> ''..''" by (auto simp: suffix_def)
  ultimately show ?thesis by (simp add: seg_ok_def vname_def)
qed

lemma vname_inj [simp]: "vname s = vname t \<longleftrightarrow> s = t"
  by (simp add: vname_def)

lemma version_file_vname: "version_file d t = d @ ''/'' @ vname t"
  by (simp add: version_file_def vname_def)

lemma version_time_vname [simp]: "version_time (vname t) = t"
proof -
  have "length (vname t) - 3 = length (show_nat t)" by (simp add: vname_def)
  then have "take (length (vname t) - 3) (vname t) = show_nat t" by (simp add: vname_def)
  moreover have "list_all (\<lambda>c. 48 \<le> (of_char c :: nat) \<and> (of_char c :: nat) \<le> 57) (show_nat t)"
    using show_nat_chars by (auto simp: list_all_iff)
  moreover have "show_nat t \<noteq> []" by (subst show_base.simps) auto
  ultimately show ?thesis by (simp add: version_time_def)
qed

text \<open>The version files under a directory, the stale ones beyond the cap, and the tree without them.\<close>

definition versions_at :: "tree \<Rightarrow> string list \<Rightarrow> string set" where
  "versions_at t D = {x. (\<exists>b. t (D @ [x]) = Some (FileN b)) \<and> ends_with x ''.md''}"

definition stale_names :: "versioning \<Rightarrow> tree \<Rightarrow> string list \<Rightarrow> string list" where
  "stale_names cfg t D =
     (let vs = sorted_list_of_set (versions_at t D) in take (length vs - maxVersions cfg) vs)"

definition pruned :: "versioning \<Rightarrow> string list \<Rightarrow> tree \<Rightarrow> tree" where
  "pruned cfg D t = (\<lambda>q. if q \<in> (\<lambda>x. D @ [x]) ` set (stale_names cfg t D) then None else t q)"

lemma finite_versions_at: "tree_ok t \<Longrightarrow> finite (versions_at t D)"
proof -
  assume "tree_ok t"
  then have "finite ((\<lambda>x. D @ [x]) -` dom t)" by (intro finite_vimageI tree_okD) (auto simp: inj_on_def)
  then show ?thesis by (rule finite_subset [rotated]) (auto simp: versions_at_def)
qed

lemma stale_names_subset: "tree_ok t \<Longrightarrow> set (stale_names cfg t D) \<subseteq> versions_at t D"
  using finite_versions_at [of t D] by (auto simp: stale_names_def Let_def dest!: in_set_takeD)

lemma versions_pruned: "versions_at (pruned cfg D t) D = versions_at t D - set (stale_names cfg t D)"
  by (auto simp: versions_at_def pruned_def split: if_splits)

lemma card_versions_pruned:
  assumes "tree_ok t"
  shows "card (versions_at (pruned cfg D t) D) = min (card (versions_at t D)) (maxVersions cfg)"
proof -
  note fin = finite_versions_at [OF assms, of D]
  have "distinct (stale_names cfg t D)" by (simp add: stale_names_def Let_def)
  then have "card (set (stale_names cfg t D)) = card (versions_at t D) - maxVersions cfg"
    using fin by (simp add: distinct_card stale_names_def Let_def)
  then show ?thesis
    using card_Diff_subset [OF _ stale_names_subset [OF assms], of cfg D] by (simp add: versions_pruned)
qed

lemma pruned_below_cap: "card (versions_at t D) \<le> maxVersions cfg \<Longrightarrow> pruned cfg D t = t"
  by (cases "finite (versions_at t D)") (auto simp: pruned_def stale_names_def)

lemma version_names_listing:
  assumes "tree_ok t" "listing_of t D es"
  shows "sort (version_names es) = sorted_list_of_set (versions_at t D)"
proof -
  have isF: "n \<noteq> DirN \<longleftrightarrow> (\<exists>b. n = FileN b)" for n by (cases n) auto
  have es: "set es = {entry_for nm n | nm n. t (D @ [nm]) = Some n}" using assms(2) by (simp add: listing_of_def)
  have "x \<in> set (version_names es) \<longleftrightarrow> x \<in> versions_at t D" for x
  proof -
    have "x \<in> set (version_names es) \<longleftrightarrow> (\<exists>e \<in> set es. isFile e \<and> ends_with (de_name e) ''.md'' \<and> x = de_name e)"
      by (auto simp: version_names_def)
    also have "\<dots> \<longleftrightarrow> (\<exists>n. t (D @ [x]) = Some n \<and> n \<noteq> DirN \<and> ends_with x ''.md'')"
    proof
      assume "\<exists>n. t (D @ [x]) = Some n \<and> n \<noteq> DirN \<and> ends_with x ''.md''"
      then obtain n where n: "t (D @ [x]) = Some n" "n \<noteq> DirN" "ends_with x ''.md''" by blast
      then have "entry_for x n \<in> set es" unfolding es by blast
      moreover have "isFile (entry_for x n)" "de_name (entry_for x n) = x" using n(2) by (simp_all add: entry_for_def)
      ultimately show "\<exists>e \<in> set es. isFile e \<and> ends_with (de_name e) ''.md'' \<and> x = de_name e"
        using n(3) by (intro bexI [of _ "entry_for x n"]) simp_all
    qed (auto simp: es entry_for_def)
    finally show ?thesis by (auto simp: isF versions_at_def)
  qed
  then have "set (version_names es) = versions_at t D" by blast
  moreover have "distinct (version_names es)"
    using assms(2) by (auto simp: version_names_def listing_of_def distinct_map_filter)
  ultimately show ?thesis
    using finite_versions_at [OF assms(1), of D]
    by (intro sorted_distinct_set_unique) auto
qed

lemma remove_file_tree:
  assumes "tree_ok t" "t q = Some (FileN b)"
  shows "remove_tree q t = t(q := None)"
  using tree_ok_under_file [OF assms] by (auto simp: remove_tree_def fun_eq_iff strict_prefix_def)

text \<open>
  The situation of a write to an existing file that is versioned: the file holds \<open>b\<close>, is not too
  large, and its history lives in the directory \<open>d\<close>, outside of which it lies and which can be made.
\<close>

definition versioned_file ::
    "versioning \<Rightarrow> tree \<Rightarrow> string \<Rightarrow> backend_options \<Rightarrow> bytes \<Rightarrow> string \<Rightarrow> bool" where
  "versioned_file cfg t p os b d \<longleftrightarrow>
     path_ok p \<and> norm_segs p \<noteq> [] \<and> t (norm_segs p) = Some (FileN b) \<and> length b \<le> maxFileBytes cfg
     \<and> keepVersion os \<noteq> Some False \<and> shouldVersion cfg p = Inr True \<and> versionDirFor cfg p = Inr (Some d)
     \<and> path_ok d \<and> norm_segs d \<noteq> [] \<and> \<not> prefix (norm_segs d) (norm_segs p)
     \<and> mkdir_error True t (norm_segs d) = None \<and> card (dom t) < probe_fuel cfg"

definition last_of :: "'s vstate \<Rightarrow> string \<Rightarrow> nat" where
  "last_of v p = (case lastSnapshotAt v p of None \<Rightarrow> 0 | Some l \<Rightarrow> l)"

section \<open>Snapshots over any backend\<close>

context storage_backend
begin

lemma free_version_eval:
  assumes "inv s" "path_ok d"
  shows "free_version B d fuel now s =
    (case first_free fuel (\<lambda>i. fs s (norm_segs d @ [vname i]) \<noteq> None) now of
       None \<Rightarrow> Inl (JsError ''out of fuel'') | Some t \<Rightarrow> Inr t, s)"
proof (induction fuel arbitrary: now)
  case (Suc fuel)
  then show ?case
    using exists_law [OF assms(1), of "version_file d now"] path_append_seg [OF assms(2) vname_seg_ok]
    by (simp add: version_file_vname act_simps)
qed (simp add: act_simps)

lemma version_card:
  assumes "tree_ok t"
  shows "finite {i. t (D @ [vname i]) \<noteq> None} \<and> card {i. t (D @ [vname i]) \<noteq> None} \<le> card (dom t)"
proof -
  have inj: "inj (\<lambda>i. D @ [vname i])" by (auto simp: inj_on_def)
  have eq: "{i. t (D @ [vname i]) \<noteq> None} = (\<lambda>i. D @ [vname i]) -` dom t" by auto
  have "finite ((\<lambda>i. D @ [vname i]) -` dom t)" using tree_okD(1) [OF assms] inj by (rule finite_vimageI)
  moreover have "card {i. t (D @ [vname i]) \<noteq> None} \<le> card (dom t)"
    using inj tree_okD(1) [OF assms]
    by (intro card_inj_on_le [of "\<lambda>i. D @ [vname i]"]) (auto intro: inj_on_subset)
  ultimately show ?thesis by (simp only: eq)
qed

lemma prune_removes:
  assumes "inv s" "path_ok d" "distinct xs" "\<forall>x \<in> set xs. seg_ok x \<and> (\<exists>b. fs s (norm_segs d @ [x]) = Some (FileN b))"
  shows "\<exists>s'. afor (\<lambda>x. remove_path B (d @ ''/'' @ x) internal_options) xs s = (Inr (), s') \<and> inv s' \<and>
    fs s' = (\<lambda>q. if q \<in> (\<lambda>x. norm_segs d @ [x]) ` set xs then None else fs s q)"
  using assms(1,3,4)
proof (induction xs arbitrary: s)
  case (Cons x xs)
  let ?q = "norm_segs d @ [x]"
  have x: "seg_ok x" and isfile: "\<exists>b. fs s ?q = Some (FileN b)" using Cons.prems(3) by auto
  note path = path_append_seg [OF assms(2) x]
  note t = tree_ok [OF Cons.prems(1)]
  obtain r s1 where r: "remove_path B (d @ ''/'' @ x) internal_options s = (r, s1)" by fastforce
  have "remove_error (is_recursive internal_options) (fs s) ?q = None"
    using isfile tree_ok_under_file [OF t] by (auto simp: remove_error_def has_children_def)
  then have s1: "r = Inr ()" "inv s1" "fs s1 = (fs s)(?q := None)"
    using remove_law [OF Cons.prems(1) path(1) r] path(2) remove_file_tree [OF t] isfile by auto
  obtain s' where s': "afor (\<lambda>x. remove_path B (d @ ''/'' @ x) internal_options) xs s1 = (Inr (), s')" "inv s'"
    "fs s' = (\<lambda>q. if q \<in> (\<lambda>x. norm_segs d @ [x]) ` set xs then None else fs s1 q)"
  proof -
    have "y \<noteq> x" if "y \<in> set xs" for y using that Cons.prems(2) by auto
    then have "\<forall>y \<in> set xs. seg_ok y \<and> (\<exists>b. fs s1 (norm_segs d @ [y]) = Some (FileN b))"
      using Cons.prems(3) by (simp add: s1(3))
    then show thesis using Cons.IH [OF s1(2)] Cons.prems(2) that by auto
  qed
  then show ?case using r s1 by (auto simp: athen_apply fun_eq_iff)
qed (simp add: act_simps)

lemma prune_eval:
  assumes "inv s" "path_ok d" "fs s (norm_segs d) = Some DirN"
  shows "\<exists>s'. prune B cfg d s = (Inr (), s') \<and> inv s' \<and> fs s' = pruned cfg (norm_segs d) (fs s)"
proof -
  note t = tree_ok [OF assms(1)]
  have "list_error (fs s) (norm_segs d) = None" using assms(3) by (simp add: list_error_def)
  then obtain es where es: "readDir B d no_options s = (Inr es, s)" "listing_of (fs s) (norm_segs d) es"
    using readDir_law [OF assms(1,2), of no_options] by auto
  let ?xs = "stale_names cfg (fs s) (norm_segs d)"
  have stale: "(let versions = sort (version_names es) in take (length versions - maxVersions cfg) versions) = ?xs"
    using version_names_listing [OF t es(2)] by (simp add: stale_names_def)
  have "seg_ok x \<and> (\<exists>b. fs s (norm_segs d @ [x]) = Some (FileN b))" if "x \<in> set ?xs" for x
    using stale_names_subset [OF t] that tree_okD(3) [OF t, of "norm_segs d @ [x]"] by (fastforce simp: versions_at_def)
  moreover have "distinct ?xs" by (simp add: stale_names_def Let_def)
  ultimately obtain s' where "afor (\<lambda>x. remove_path B (d @ ''/'' @ x) internal_options) ?xs s = (Inr (), s')" "inv s'"
    "fs s' = pruned cfg (norm_segs d) (fs s)"
    using prune_removes [OF assms(1,2), of ?xs] by (auto simp: pruned_def)
  then show ?thesis using es(1) stale by (simp add: prune_def abind_apply Let_def)
qed

text \<open>What storing a version does: the directory is made, the version added, the stale ones removed.\<close>

lemma store_version_law:
  assumes "inv s" "path_ok d" "norm_segs d \<noteq> []" "card (dom (fs s)) < probe_fuel cfg"
    and "store_version B cfg d now b s = (r, s')"
  shows "inv s' \<and>
    (case mkdir_error True (fs s) (norm_segs d) of
       Some e \<Rightarrow> r = Inl (StorageError e) \<and> fs s' = fs s
     | None \<Rightarrow> r = Inr () \<and> (\<exists>t \<ge> now. fs s (norm_segs d @ [vname t]) = None \<and>
         fs s' = pruned cfg (norm_segs d) ((mkdirs (norm_segs d) (fs s))(norm_segs d @ [vname t] \<mapsto> FileN b))))"
proof -
  let ?D = "norm_segs d"
  obtain r1 s1 where mk: "mkdir B d recursively s = (r1, s1)" by fastforce
  note law = mkdir_law [OF assms(1,2) mk]
  show ?thesis
  proof (cases "mkdir_error True (fs s) ?D")
    case (Some e)
    then show ?thesis using law mk assms(5) by (auto simp: store_version_def athen_apply)
  next
    case None
    then have s1: "r1 = Inr ()" "inv s1" "fs s1 = mkdirs ?D (fs s)" using law by (auto simp: mkdir_tree_def)
    have same: "fs s1 (?D @ [x]) = fs s (?D @ [x])" for x by (simp add: s1(3) mkdirs_def)
    have "first_free (probe_fuel cfg) (\<lambda>i. fs s1 (?D @ [vname i]) \<noteq> None) now \<noteq> None"
      using version_card [OF tree_ok [OF assms(1)], of ?D] assms(4)
      by (intro first_free_total) (simp_all add: same)
    then obtain t where t: "first_free (probe_fuel cfg) (\<lambda>i. fs s1 (?D @ [vname i]) \<noteq> None) now = Some t" by blast
    have free: "now \<le> t" "fs s (?D @ [vname t]) = None" using first_free_Some [OF t] by (simp_all add: same)
    note vp = path_append_seg [OF assms(2) vname_seg_ok, of t]
    obtain r2 s2 where wr: "writeFile B (version_file d t) b internal_options s1 = (r2, s2)" by fastforce
    have dir: "fs s1 ?D = Some DirN" by (simp add: s1(3) mkdirs_def)
    have "write_error (fs s1) (?D @ [vname t]) = None" using dir free(2) by (simp add: write_error_def same)
    then have s2: "r2 = Inr ()" "inv s2" "fs s2 = (fs s1)(?D @ [vname t] \<mapsto> FileN b)"
      using writeFile_law [OF s1(2) vp(1)] vp(2) wr by (auto simp: version_file_vname)
    obtain s3 where s3: "prune B cfg d s2 = (Inr (), s3)" "inv s3" "fs s3 = pruned cfg ?D (fs s2)"
      using prune_eval [OF s2(2) assms(2)] dir s2(3) by auto
    have "store_version B cfg d now b s = (Inr (), s3)"
      using mk s1(1,2) t wr s2(1) s3(1)
      by (simp add: store_version_def act_simps free_version_eval [OF s1(2) assms(2)])
    then show ?thesis using None assms(5) s3(2,3) s2(3) s1(3) free by auto
  qed
qed

lemma not_file_on_way: "mkdir_error True t D = None \<Longrightarrow> t q = Some (FileN b) \<Longrightarrow> \<not> prefix q D \<or> D = []"
  by (auto simp: mkdir_error_eq file_on_way_def split: if_splits)

lemma snapshot_skipped:
  assumes "inv (inner v)" "versioned_file cfg (fs (inner v)) p os b d"
    and "throttled cfg (vtimes v 0) (last_of v p)"
  shows "\<exists>v'. snapshot_if B cfg p os v = (Inr (), v') \<and> inner v' = inner v"
proof -
  note f = assms(2) [unfolded versioned_file_def]
  obtain st where st: "stat B p no_options (inner v) = (Inr st, inner v)" "st_size st = length b"
    using stat_law [OF assms(1), of p no_options] f by (auto simp: node_size_def)
  then show ?thesis
    using f exists_law [OF assms(1), of p no_options] assms(3)
    by (simp add: snapshot_if_def snapshotBeforeWrite_def act_simps last_of_def)
qed

lemma snapshot_taken:
  assumes "inv (inner v)" "versioned_file cfg (fs (inner v)) p os b d"
    and "\<not> throttled cfg (vtimes v 0) (last_of v p)"
  shows "\<exists>v' t. snapshot_if B cfg p os v = (Inr (), v') \<and> inv (inner v') \<and> vtimes v 0 \<le> t
    \<and> lastSnapshotAt v' = (lastSnapshotAt v)(p \<mapsto> vtimes v 0)
    \<and> fs (inner v) (norm_segs d @ [vname t]) = None
    \<and> fs (inner v') = pruned cfg (norm_segs d)
        ((mkdirs (norm_segs d) (fs (inner v)))(norm_segs d @ [vname t] \<mapsto> FileN b))"
proof -
  note f = assms(2) [unfolded versioned_file_def]
  obtain st where st: "stat B p no_options (inner v) = (Inr st, inner v)" "st_size st = length b"
    using stat_law [OF assms(1), of p no_options] f by (auto simp: node_size_def)
  have rd: "readFile B p no_options (inner v) = (Inr b, inner v)"
    using readFile_law [OF assms(1), of p no_options] f by (simp add: read_error_def)
  obtain r s' where sv: "store_version B cfg d (vtimes v 0) b (inner v) = (r, s')" by fastforce
  have "r = Inr () \<and> inv s' \<and> (\<exists>t \<ge> vtimes v 0. fs (inner v) (norm_segs d @ [vname t]) = None \<and>
         fs s' = pruned cfg (norm_segs d)
           ((mkdirs (norm_segs d) (fs (inner v)))(norm_segs d @ [vname t] \<mapsto> FileN b)))"
    using store_version_law [OF assms(1) _ _ _ sv] f by simp
  then show ?thesis
    using f exists_law [OF assms(1), of p no_options] st rd sv assms(3)
    by (auto simp: snapshot_if_def snapshotBeforeWrite_def act_simps last_of_def)
qed

text \<open>The path itself, and everything that is not the history, survive the snapshot.\<close>

lemma snapshot_frame:
  assumes "\<not> prefix D q" "prefix q D \<Longrightarrow> t q = Some DirN"
  shows "pruned cfg D ((mkdirs D t)(D @ [vname k] \<mapsto> n)) q = t q"
proof -
  have "q \<noteq> D @ [vname k]" "q \<notin> (\<lambda>x. D @ [x]) ` X" for X using assms(1) by auto
  then show ?thesis using assms(2) by (simp add: pruned_def mkdirs_def)
qed

lemma write_after_snapshot:
  assumes "inv s" "versioned_file cfg t p os b d" "tree_ok t" "t (norm_segs d @ [vname k]) = None"
    and "fs s = pruned cfg (norm_segs d) ((mkdirs (norm_segs d) t)(norm_segs d @ [vname k] \<mapsto> FileN b))"
  shows "write_error (fs s) (norm_segs p) = None"
proof -
  note f = assms(2) [unfolded versioned_file_def]
  let ?D = "norm_segs d"
  have par: "t (butlast (norm_segs p)) = Some DirN" using tree_okD(4) [OF assms(3)] f by blast
  have "\<not> prefix ?D (butlast (norm_segs p))" using f by (meson prefix_order.trans prefixeq_butlast)
  then have "fs s (butlast (norm_segs p)) = Some DirN"
    using snapshot_frame [of ?D "butlast (norm_segs p)" t] par by (simp add: assms(5))
  moreover have "\<not> prefix (norm_segs p) ?D" using not_file_on_way [of t ?D "norm_segs p" b] f by auto
  then have "fs s (norm_segs p) = Some (FileN b)"
    using snapshot_frame [of ?D "norm_segs p" t] f by (simp add: assms(5))
  ultimately show ?thesis by (simp add: write_error_def)
qed

text \<open>A write of text to a versioned file, with and without a snapshot.\<close>

lemma v_write_snapshot:
  assumes "inv (inner v)" "versioned_file cfg (fs (inner v)) p os b d"
    and "\<not> throttled cfg (vtimes v 0) (last_of v p)"
  shows "\<exists>v' t. v_writeTextFile B cfg p c os v = (Inr (), v') \<and> inv (inner v') \<and> vtimes v 0 \<le> t
    \<and> fs (inner v) (norm_segs d @ [vname t]) = None
    \<and> fs (inner v') = (pruned cfg (norm_segs d)
        ((mkdirs (norm_segs d) (fs (inner v)))(norm_segs d @ [vname t] \<mapsto> FileN b)))
          (norm_segs p \<mapsto> FileN (utf8_encode c))"
proof -
  note f = assms(2) [unfolded versioned_file_def]
  obtain v1 t where v1: "snapshot_if B cfg p os v = (Inr (), v1)" "inv (inner v1)" "vtimes v 0 \<le> t"
    "fs (inner v) (norm_segs d @ [vname t]) = None"
    "fs (inner v1) = pruned cfg (norm_segs d)
        ((mkdirs (norm_segs d) (fs (inner v)))(norm_segs d @ [vname t] \<mapsto> FileN b))"
    using snapshot_taken [OF assms] by blast
  obtain r s2 where wr: "writeTextFile B p c os (inner v1) = (r, s2)" by fastforce
  have "write_error (fs (inner v1)) (norm_segs p) = None"
    by (rule write_after_snapshot [OF v1(2) assms(2) tree_ok [OF assms(1)] v1(4,5)])
  then have "r = Inr ()" "inv s2" "fs s2 = (fs (inner v1))(norm_segs p \<mapsto> FileN (utf8_encode c))"
    using writeText_law [OF v1(2) _ _ wr] f by auto
  then show ?thesis using v1 wr by (auto simp: v_writeTextFile_def act_simps)
qed

lemma v_write_throttled:
  assumes "inv (inner v)" "versioned_file cfg (fs (inner v)) p os b d"
    and "throttled cfg (vtimes v 0) (last_of v p)"
  shows "\<exists>v'. v_writeTextFile B cfg p c os v = (Inr (), v') \<and> inv (inner v')
    \<and> fs (inner v') = (fs (inner v))(norm_segs p \<mapsto> FileN (utf8_encode c))"
proof -
  note f = assms(2) [unfolded versioned_file_def]
  obtain v1 where v1: "snapshot_if B cfg p os v = (Inr (), v1)" "inner v1 = inner v"
    using snapshot_skipped [OF assms] by blast
  obtain r s2 where wr: "writeTextFile B p c os (inner v) = (r, s2)" by fastforce
  have "write_error (fs (inner v)) (norm_segs p) = None"
    using f tree_okD(4) [OF tree_ok [OF assms(1)]] by (simp add: write_error_def)
  then have "r = Inr ()" "inv s2" "fs s2 = (fs (inner v))(norm_segs p \<mapsto> FileN (utf8_encode c))"
    using writeText_law [OF assms(1) _ _ wr] f by auto
  then show ?thesis using v1 wr by (auto simp: v_writeTextFile_def act_simps)
qed

text \<open>Reading a stored version never leaves the directory of the history.\<close>

lemma readVersion_eval:
  assumes "inv (inner v)" "versionDirFor cfg p = Inr (Some d)" "path_ok d" "norm_segs d \<noteq> []"
  shows "readVersion B cfg p vid v =
    (if CHR ''/'' \<in> set vid \<or> sublist ''..'' vid then Inl (JsError ''Invalid version id'')
     else case read_error (fs (inner v)) (norm_segs d @ norm_segs vid) of
        Some e \<Rightarrow> Inl (StorageError e)
      | None \<Rightarrow> (case fs (inner v) (norm_segs d @ norm_segs vid) of Some (FileN b) \<Rightarrow> Inr (utf8_decode b)), v)"
proof (cases "CHR ''/'' \<in> set vid \<or> sublist ''..'' vid")
  case False
  then have "''..'' \<noteq> vid" by auto
  then have "path_ok (d @ ''/'' @ vid)"
    using False assms(3) by (simp add: path_ok_def split_on_append)
  then show ?thesis
    using False assms readText_law [OF assms(1), of "d @ ''/'' @ vid" no_options, unfolded norm_segs_append]
    by (simp add: readVersion_def act_simps)
qed (simp add: readVersion_def act_simps)

end


section \<open>The default configuration\<close>

lemma hasHidden_eq: "path_ok p \<Longrightarrow> hasHiddenSegment p = Inr (\<exists>s \<in> set (norm_segs p). starts_with s ''.'')"
  by (simp add: hasHiddenSegment_def pathSegments_eq)

lemma default_shouldVersion_eq:
  "path_ok p \<Longrightarrow> shouldVersion (default_versioning n) p =
     Inr (2 \<le> length (norm_segs p) \<and> \<not> (\<exists>s \<in> set (norm_segs p). starts_with s ''.''))"
  by (simp add: default_versioning_def default_shouldVersion_def default_rootFor_def pathSegments_eq hasHidden_eq)

lemma default_dir_eq:
  assumes "path_ok p" "2 \<le> length (norm_segs p)"
  shows "\<exists>d enc. versionDirFor (default_versioning n) p = Inr (Some d) \<and> path_ok d
     \<and> norm_segs d = [hd (norm_segs p), ''.tactile'', ''versions'', enc]"
proof -
  note ok = segs_ok_norm_segs [OF assms(1)]
  obtain c rest where segs: "norm_segs p = c # rest" using assms(2) by (cases "norm_segs p") auto
  have c: "seg_ok c" using ok segs by simp
  obtain enc where enc: "encodePathAsDir (render (norm_segs p)) = Inr enc" "seg_ok enc"
    using encodePathAsDir_Inr [of "render (norm_segs p)"] encodePathAsDir_seg_ok ok by fastforce
  let ?d = "(''/'' @ c) @ ''/'' @ ''.tactile/versions'' @ ''/'' @ enc"
  have dir: "versionDirFor (default_versioning n) p = Inr (Some ?d)"
    using assms ok enc(1) segs
    by (simp add: versionDirFor_def default_versioning_def default_rootFor_def)
  have "norm_segs (''/'' @ c) = [c]" using norm_segs_append [of "[]" c] c by (simp add: norm_segs_def [of "[]"])
  moreover have "norm_segs ''.tactile/versions'' = [''.tactile'', ''versions'']" by (simp add: norm_segs_def)
  ultimately have "norm_segs ?d = [c, ''.tactile'', ''versions'', enc]"
    using enc(2) by (simp only: norm_segs_append norm_segs_seg) simp
  moreover have "path_ok ?d"
    using c enc(2) by (auto simp: path_ok_def seg_ok_def split_on_append)
  ultimately show ?thesis using dir segs by auto
qed


section \<open>Properties\<close>


text \<open>
  (C39) \<open>restoreVersion\<close> does not always keep the current contents: within \<open>minIntervalMs\<close> of the last
  snapshot of the path it overwrites the file with the old version and stores no new one, so the whole
  effect on the store is that the file holds the old text.
\<close>

theorem restore_throttled_loses_current:
  assumes "idb_inv (inner v)" and "versioned_file cfg (idb_fs (inner v)) p no_options b d"
    and "throttled cfg (vtimes v 0) (last_of v p)"
    and "seg_ok vid" and "\<not> sublist ''..'' vid"
    and "idb_fs (inner v) (norm_segs d @ [vid]) = Some (FileN old)"
  shows "\<exists>v'. restoreVersion idb_backend cfg p vid v = (Inr (), v')
    \<and> idb_fs (inner v') = (idb_fs (inner v))(norm_segs p \<mapsto> FileN (utf8_encode (utf8_decode old)))"
proof -
  note f = assms(2) [unfolded versioned_file_def]
  have "readVersion idb_backend cfg p vid v = (Inr (utf8_decode old), v)"
    using idb.readVersion_eval [OF assms(1), of cfg p d vid] f assms(4-6)
    by (simp add: read_error_def seg_ok_def)
  then show ?thesis
    using idb.v_write_throttled [OF assms(1-3), of "utf8_decode old"] by (auto simp: restoreVersion_def act_simps)
qed

text \<open>
  With the default configuration exactly the files inside a collection and outside hidden
  directories are versioned; their history lies in \<open>.tactile/versions\<close> of the collection under one
  directory for the path, the history itself is never versioned, and a version that is read lies
  directly in that directory.
\<close>

theorem default_versioning_scope:
  assumes "path_ok p"
  shows "shouldVersion (default_versioning n) p =
      Inr (2 \<le> length (norm_segs p) \<and> \<not> (\<exists>s \<in> set (norm_segs p). starts_with s ''.''))
    \<and> (2 \<le> length (norm_segs p) \<longrightarrow>
        (\<exists>d enc. versionDirFor (default_versioning n) p = Inr (Some d) \<and> path_ok d
           \<and> norm_segs d = [hd (norm_segs p), ''.tactile'', ''versions'', enc]
           \<and> (\<forall>q. path_ok q \<and> prefix (norm_segs d) (norm_segs q)
                \<longrightarrow> shouldVersion (default_versioning n) q = Inr False)))
    \<and> (CHR ''/'' \<in> set vid \<or> sublist ''..'' vid
         \<longrightarrow> fst (readVersion B (default_versioning n) p vid v) = Inl (JsError ''Invalid version id''))"
proof -
  have hidden: "shouldVersion (default_versioning n) q = Inr False"
    if "path_ok q" "prefix [c, ''.tactile'', x, y] (norm_segs q)" for q c x y
  proof -
    have "''.tactile'' \<in> set (norm_segs q)" using set_mono_prefix [OF that(2)] by simp
    then have "\<exists>s \<in> set (norm_segs q). starts_with s ''.''" by (intro bexI) auto
    then show ?thesis using default_shouldVersion_eq [OF that(1)] by simp
  qed
  have "\<exists>d enc. versionDirFor (default_versioning n) p = Inr (Some d) \<and> path_ok d
           \<and> norm_segs d = [hd (norm_segs p), ''.tactile'', ''versions'', enc]
           \<and> (\<forall>q. path_ok q \<and> prefix (norm_segs d) (norm_segs q)
                \<longrightarrow> shouldVersion (default_versioning n) q = Inr False)"
    if "2 \<le> length (norm_segs p)"
    using default_dir_eq [OF assms that, of n] hidden by metis
  moreover have "fst (readVersion B (default_versioning n) p vid v) = Inl (JsError ''Invalid version id'')"
    if "CHR ''/'' \<in> set vid \<or> sublist ''..'' vid"
    using that by (simp add: readVersion_def act_simps)
  ultimately show ?thesis using default_shouldVersion_eq [OF assms] by blast
qed

section \<open>A store with a history\<close>

text \<open>A collection with one note, in which the history of the note can be made.\<close>

definition demo_store :: "nat \<Rightarrow> string \<Rightarrow> idb vstate" where
  "demo_store at d =
     \<lparr>inner = run_calls idb_backend
        [Make_dir ''/N'' no_options, Put_text ''/N/a'' ''new'' no_options,
         Make_dir d recursively, Put_text (d @ ''/'' @ ''v'') ''old'' no_options] (empty_idb (\<lambda>n. n)),
      lastSnapshotAt = [''/N/a'' \<mapsto> at], vtimes = (\<lambda>n. 100000 + n)\<rparr>"

lemma demo_paths:
  "path_ok ''/N''" "norm_segs ''/N'' = [''N'']" "path_ok ''/N/a''" "norm_segs ''/N/a'' = [''N'', ''a'']"
  by (simp_all add: path_ok_def norm_segs_def)

lemma demo_tree:
  assumes "path_ok d" "norm_segs d = [''N'', ''.tactile'', ''versions'', enc]"
  shows "idb_inv (inner (demo_store t d))"
    "idb_fs (inner (demo_store t d)) =
      (mkdirs (norm_segs d) (empty_tree([''N''] \<mapsto> DirN, [''N'', ''a''] \<mapsto> FileN (utf8_encode ''new''))))
        (norm_segs d @ [''v''] \<mapsto> FileN (utf8_encode ''old''))"
proof -
  let ?cs = "[Make_dir ''/N'' no_options, Put_text ''/N/a'' ''new'' no_options,
         Make_dir d recursively, Put_text (d @ ''/'' @ ''v'') ''old'' no_options]"
  let ?t1 = "empty_tree([''N''] \<mapsto> DirN)"
  let ?t2 = "?t1([''N'', ''a''] \<mapsto> FileN (utf8_encode ''new''))"
  have v: "path_ok (d @ ''/'' @ ''v'')" "norm_segs (d @ ''/'' @ ''v'') = norm_segs d @ [''v'']"
    using path_append_seg [of d "''v''"] assms(1) by (simp_all add: seg_ok_def)
  have 1: "spec_call (Make_dir ''/N'' no_options) empty_tree = ?t1"
    by (auto simp: spec_call_def demo_paths mkdir_error_def mkdir_tree_def mkdirs_def empty_tree_def fun_eq_iff prefix_Cons)
  have 2: "spec_call (Put_text ''/N/a'' ''new'' no_options) ?t1 = ?t2"
    by (simp add: spec_call_def demo_paths write_error_def empty_tree_def)
  have 3: "spec_call (Make_dir d recursively) ?t2 = mkdirs (norm_segs d) ?t2"
    by (simp add: spec_call_def assms mkdir_error_def mkdir_tree_def empty_tree_def)
  have 4: "spec_call (Put_text (d @ ''/'' @ ''v'') ''old'' no_options) (mkdirs (norm_segs d) ?t2)
      = (mkdirs (norm_segs d) ?t2)(norm_segs d @ [''v''] \<mapsto> FileN (utf8_encode ''old''))"
    by (simp add: spec_call_def v [simplified] write_error_def) (simp add: assms mkdirs_def empty_tree_def)
  have "\<forall>c \<in> set ?cs. call_ok c" using v by (simp add: not_root_def demo_paths)
  then have "idb_inv (run_calls idb_backend ?cs (empty_idb (\<lambda>n. n)))
    \<and> idb_fs (run_calls idb_backend ?cs (empty_idb (\<lambda>n. n))) = fold spec_call ?cs empty_tree"
    using idb.run_calls_tree [of "empty_idb (\<lambda>n. n)" ?cs] by simp
  then show "idb_inv (inner (demo_store t d))"
    "idb_fs (inner (demo_store t d)) = (mkdirs (norm_segs d) ?t2)(norm_segs d @ [''v''] \<mapsto> FileN (utf8_encode ''old''))"
    by (simp_all add: demo_store_def 1 2 3 4 del: append_Cons)
qed

lemma demo_versioned:
  assumes "versionDirFor (default_versioning 20) ''/N/a'' = Inr (Some d)" "path_ok d"
    and "norm_segs d = [''N'', ''.tactile'', ''versions'', enc]"
  shows "versioned_file (default_versioning 20) (idb_fs (inner (demo_store t d))) ''/N/a'' no_options
    (utf8_encode ''new'') d"
proof -
  let ?T = "idb_fs (inner (demo_store t d))"
  note T = demo_tree(2) [OF assms(2,3), of t]
  have "dom ?T = {[], [''N''], [''N'', ''a''], [''N'', ''.tactile''], [''N'', ''.tactile'', ''versions''],
      norm_segs d, norm_segs d @ [''v'']}"
    unfolding T by (auto simp: mkdirs_def assms(3) empty_tree_def prefix_Cons split: if_splits)
  then have "card (dom ?T) < 20" by (simp add: card_insert_if)
  moreover have "?T [''N'', ''a''] = Some (FileN (utf8_encode ''new''))"
    unfolding T by (simp add: assms(3) mkdirs_def)
  moreover have "mkdir_error True ?T (norm_segs d) = None"
    unfolding T by (simp add: mkdir_error_def) (simp add: assms(3) mkdirs_def)
  moreover have "shouldVersion (default_versioning 20) ''/N/a'' = Inr True"
    using default_shouldVersion_eq [of "''/N/a''" 20] by (simp add: demo_paths)
  ultimately show ?thesis
    using assms by (simp add: versioned_file_def demo_paths utf8_encode_def utf8_char_def no_options_def default_versioning_def)
qed

lemma demo_dir:
  obtains d enc where "versionDirFor (default_versioning 20) ''/N/a'' = Inr (Some d)" "path_ok d"
    "norm_segs d = [''N'', ''.tactile'', ''versions'', enc]"
  using default_dir_eq [of "''/N/a''" 20] by (auto simp: demo_paths)


lemma restore_throttled_loses_current_witness:
  "\<exists>d v'. restoreVersion idb_backend (default_versioning 20) ''/N/a'' ''v'' (demo_store 99000 d) = (Inr (), v')
    \<and> idb_fs (inner v') = (idb_fs (inner (demo_store 99000 d)))([''N'', ''a''] \<mapsto> FileN (utf8_encode ''old''))"
proof -
  obtain d enc where d: "versionDirFor (default_versioning 20) ''/N/a'' = Inr (Some d)" "path_ok d"
    "norm_segs d = [''N'', ''.tactile'', ''versions'', enc]" by (rule demo_dir)
  have "throttled (default_versioning 20) (vtimes (demo_store 99000 d) 0) (last_of (demo_store 99000 d) ''/N/a'')"
    by (simp add: throttled_def demo_store_def last_of_def default_versioning_def)
  moreover have "seg_ok ''v''" "\<not> sublist ''..'' ''v''" by (auto simp: seg_ok_def sublist_Cons_right)
  moreover have "idb_fs (inner (demo_store 99000 d)) (norm_segs d @ [''v'']) = Some (FileN (utf8_encode ''old''))"
    by (simp add: demo_tree(2) [OF d(2,3)])
  ultimately show ?thesis
    using restore_throttled_loses_current [OF demo_tree(1) [OF d(2,3), of 99000] demo_versioned [OF d], where vid = "''v''"]
    by (intro exI [of _ d]) (simp add: demo_paths)
qed

lemma default_versioning_scope_witness:
  "shouldVersion (default_versioning 20) ''/N/a'' = Inr True"
  using default_versioning_scope [of "''/N/a''" 20 "''v''" idb_backend "demo_store 0 []"] by (simp add: demo_paths)

end
