(* ===== verification/Locks.thy ===== *)
theory Locks
  imports Prelude
begin

text \<open>
  The concurrency primitives (\<open>packages/storage/src/mutex.ts\<close>): \<open>KeyedMutex\<close>, which makes the
  operations on one path run one after the other, and \<open>withWebLock\<close>.

  A call of \<open>runExclusive\<close> is a task, numbered in the order of the calls. The promises of the source
  become phases: a task waits for the tails it found in \<open>chains\<close>, runs, is settled, and then
  releases its keys. Each of these is a step; the steps of different tasks interleave freely, as the
  microtasks of the event loop do.
\<close>

section \<open>State and steps\<close>

datatype phase = Waiting | Running | Settled | Released

record lock_task =
  lt_keys :: "string list"
  lt_prior :: "nat list"
  lt_phase :: phase

record mutex =
  chains :: "string \<Rightarrow> nat option"
  tasks :: "lock_task list"

definition empty_mutex :: mutex where
  "empty_mutex = \<lparr>chains = Map.empty, tasks = []\<rparr>"

definition settled :: "mutex \<Rightarrow> nat \<Rightarrow> bool" where
  "settled m i = (lt_phase (tasks m ! i) \<in> {Settled, Released})"

definition runExclusive :: "string list \<Rightarrow> mutex \<Rightarrow> mutex" where
  "runExclusive keys m =
     (let sorted = sort keys;
          prior = List.map_filter (chains m) sorted;
          tail = length (tasks m)
      in m\<lparr>tasks := tasks m @ [\<lparr>lt_keys = sorted, lt_prior = prior, lt_phase = Waiting\<rparr>],
           chains := fold (\<lambda>key c. c(key \<mapsto> tail)) sorted (chains m)\<rparr>)"

definition set_phase :: "nat \<Rightarrow> phase \<Rightarrow> mutex \<Rightarrow> mutex" where
  "set_phase i p m = m\<lparr>tasks := (tasks m)[i := (tasks m ! i)\<lparr>lt_phase := p\<rparr>]\<rparr>"

definition can_start :: "mutex \<Rightarrow> nat \<Rightarrow> bool" where
  "can_start m i =
     (i < length (tasks m) \<and> lt_phase (tasks m ! i) = Waiting \<and> list_all (settled m) (lt_prior (tasks m ! i)))"

definition release_keys :: "nat \<Rightarrow> mutex \<Rightarrow> mutex" where
  "release_keys i m =
     m\<lparr>chains := fold (\<lambda>key c. if c key = Some i then c(key := None) else c) (lt_keys (tasks m ! i)) (chains m)\<rparr>"

inductive mutex_step :: "mutex \<Rightarrow> mutex \<Rightarrow> bool" where
  start: "can_start m i \<Longrightarrow> mutex_step m (set_phase i Running m)"
| settle: "i < length (tasks m) \<Longrightarrow> lt_phase (tasks m ! i) = Running \<Longrightarrow> mutex_step m (set_phase i Settled m)"
| release: "i < length (tasks m) \<Longrightarrow> lt_phase (tasks m ! i) = Settled
    \<Longrightarrow> mutex_step m (release_keys i (set_phase i Released m))"

inductive mutex_reachable :: "mutex \<Rightarrow> bool" where
  initial: "mutex_reachable empty_mutex"
| called: "mutex_reachable m \<Longrightarrow> mutex_reachable (runExclusive keys m)"
| stepped: "mutex_reachable m \<Longrightarrow> mutex_step m m' \<Longrightarrow> mutex_reachable m'"

inductive_cases mutex_stepE: "mutex_step m m'"

text \<open>\<open>withWebLock\<close>: the lock manager of the browser is used where there is one.\<close>

definition withWebLock :: "(string \<Rightarrow> ('s, 'a) act \<Rightarrow> ('s, 'a) act) option \<Rightarrow> string \<Rightarrow> ('s, 'a) act \<Rightarrow> ('s, 'a) act" where
  "withWebLock locks nm fn = (case locks of None \<Rightarrow> fn | Some request \<Rightarrow> request nm fn)"


section \<open>What the steps change\<close>

lemma runExclusive_sel [simp]:
  "tasks (runExclusive ks m) =
     tasks m @ [\<lparr>lt_keys = sort ks, lt_prior = List.map_filter (chains m) (sort ks), lt_phase = Waiting\<rparr>]"
  by (simp add: runExclusive_def Let_def)

lemma fold_chain: "fold (\<lambda>key c. c(key \<mapsto> t)) ks c k = (if k \<in> set ks then Some t else c k)"
  by (induction ks arbitrary: c) auto

lemma runExclusive_chains [simp]:
  "chains (runExclusive ks m) k = (if k \<in> set ks then Some (length (tasks m)) else chains m k)"
  by (simp add: runExclusive_def Let_def fold_chain)

lemma fold_release:
  "fold (\<lambda>key c. if c key = Some i then c(key := None) else c) ks c k
     = (if k \<in> set ks \<and> c k = Some i then None else c k)"
  by (induction ks arbitrary: c) auto

lemma release_keys_sel [simp]:
  "tasks (release_keys i m) = tasks m"
  "chains (release_keys i m) k = (if k \<in> set (lt_keys (tasks m ! i)) \<and> chains m k = Some i then None else chains m k)"
  by (simp_all add: release_keys_def fold_release)

lemma set_phase_sel [simp]:
  "length (tasks (set_phase i p m)) = length (tasks m)" "chains (set_phase i p m) = chains m"
  "i < length (tasks m) \<Longrightarrow> lt_phase (tasks (set_phase i p m) ! j) = (if j = i then p else lt_phase (tasks m ! j))"
  "i < length (tasks m) \<Longrightarrow> lt_keys (tasks (set_phase i p m) ! j) = lt_keys (tasks m ! j)"
  "i < length (tasks m) \<Longrightarrow> lt_prior (tasks (set_phase i p m) ! j) = lt_prior (tasks m ! j)"
  by (simp_all add: set_phase_def nth_list_update)

lemma set_phase_tasks: "tasks (set_phase i p m) = (tasks m)[i := (tasks m ! i)\<lparr>lt_phase := p\<rparr>]"
  by (simp add: set_phase_def)

lemma settled_set_phase:
  "i < length (tasks m) \<Longrightarrow> settled (set_phase i p m) j = (if j = i then p \<in> {Settled, Released} else settled m j)"
  by (simp add: settled_def)

lemma settled_cong [simp]: "settled (release_keys i m) = settled m"
  by (simp add: settled_def fun_eq_iff)

abbreviation keys_of :: "mutex \<Rightarrow> nat \<Rightarrow> string set" where
  "keys_of m i \<equiv> set (lt_keys (tasks m ! i))"


section \<open>The invariant\<close>

text \<open>
  Task \<open>j\<close> waits only for earlier tasks, has started only when they were settled, and for each of
  its keys waits for a task at or after every earlier unsettled task with that key. The chain of a
  key ends in the last task with that key, or is absent, and then all tasks with the key are settled.
\<close>

definition prior_ok :: "mutex \<Rightarrow> nat \<Rightarrow> bool" where
  "prior_ok m j \<longleftrightarrow>
     (\<forall>p \<in> set (lt_prior (tasks m ! j)). p < j)
     \<and> (lt_phase (tasks m ! j) \<noteq> Waiting \<longrightarrow> (\<forall>p \<in> set (lt_prior (tasks m ! j)). settled m p))
     \<and> (\<forall>i < j. \<forall>k \<in> keys_of m i \<inter> keys_of m j.
          settled m i \<or> (\<exists>p \<in> set (lt_prior (tasks m ! j)). i \<le> p \<and> k \<in> keys_of m p))"

definition chain_ok :: "mutex \<Rightarrow> string \<Rightarrow> bool" where
  "chain_ok m k \<longleftrightarrow>
     (case chains m k of
        None \<Rightarrow> \<forall>i < length (tasks m). k \<in> keys_of m i \<longrightarrow> settled m i
      | Some t \<Rightarrow> t < length (tasks m) \<and> k \<in> keys_of m t \<and> lt_phase (tasks m ! t) \<noteq> Released
          \<and> (\<forall>i < length (tasks m). k \<in> keys_of m i \<longrightarrow> i \<le> t))"

definition mutex_inv :: "mutex \<Rightarrow> bool" where
  "mutex_inv m \<longleftrightarrow> (\<forall>j < length (tasks m). prior_ok m j) \<and> (\<forall>k. chain_ok m k)"

lemma earlier_settled:
  assumes "mutex_inv m" "j < length (tasks m)" "lt_phase (tasks m ! j) \<noteq> Waiting"
    and "i < j" "k \<in> keys_of m i" "k \<in> keys_of m j"
  shows "settled m i"
  using assms(2-)
proof (induction j rule: less_induct)
  case (less j)
  have ok: "prior_ok m j" using assms(1) less.prems(1) by (simp add: mutex_inv_def)
  show ?case
  proof (rule ccontr)
    assume un: "\<not> settled m i"
    then obtain p where p: "p \<in> set (lt_prior (tasks m ! j))" "i \<le> p" "k \<in> keys_of m p"
      using ok less.prems unfolding prior_ok_def by blast
    then have "p < j" "settled m p" using ok less.prems(2) unfolding prior_ok_def by blast+
    moreover from this have "lt_phase (tasks m ! p) \<noteq> Waiting" by (auto simp: settled_def)
    ultimately show False using less.IH [of p] less.prems p un by (cases "p = i") auto
  qed
qed

lemma mutex_inv_empty: "mutex_inv empty_mutex"
  by (simp add: mutex_inv_def chain_ok_def empty_mutex_def)

lemma in_prior: "p \<in> set (List.map_filter f xs) \<longleftrightarrow> (\<exists>x \<in> set xs. f x = Some p)"
  by (induction xs) (auto simp: List.map_filter_simps split: option.splits)

lemma settled_append:
  "i < length (tasks m) \<Longrightarrow> settled (runExclusive ks m) i = settled m i"
  by (simp add: settled_def nth_append)

lemma mutex_inv_call:
  assumes "mutex_inv m"
  shows "mutex_inv (runExclusive ks m)"
proof -
  let ?m = "runExclusive ks m" and ?n = "length (tasks m)"
  have chain: "chain_ok m k" for k using assms by (simp add: mutex_inv_def)
  have bound: "t < ?n" if "chains m k = Some t" for k t
    using chain [of k] that by (simp add: chain_ok_def)
  have old: "prior_ok ?m j" if j: "j < ?n" for j
  proof -
    have ok: "prior_ok m j" using assms j by (simp add: mutex_inv_def)
    have same: "tasks ?m ! q = tasks m ! q" "settled ?m q = settled m q" if "q \<le> j" for q
      using that j by (simp_all add: nth_append settled_append)
    have "\<forall>p \<in> set (lt_prior (tasks m ! j)). p \<le> j" using ok by (auto simp: prior_ok_def)
    then show ?thesis using ok unfolding prior_ok_def by (simp add: same del: runExclusive_sel cong: ball_cong bex_cong)
  qed
  have new: "prior_ok ?m ?n"
    unfolding prior_ok_def
  proof (intro conjI impI ballI allI)
    fix p assume "p \<in> set (lt_prior (tasks ?m ! ?n))"
    then show "p < ?n" using bound by (auto simp: in_prior)
  next
    fix i k
    assume i: "i < ?n" and k: "k \<in> keys_of ?m i \<inter> keys_of ?m ?n"
    show "settled ?m i \<or> (\<exists>p \<in> set (lt_prior (tasks ?m ! ?n)). i \<le> p \<and> k \<in> keys_of ?m p)"
    proof (cases "chains m k")
      case None
      then show ?thesis using chain [of k] i k by (simp add: chain_ok_def nth_append settled_append)
    next
      case (Some t)
      then have "t < ?n" "k \<in> keys_of m t" "i \<le> t"
        using chain [of k] i k by (auto simp: chain_ok_def nth_append)
      then show ?thesis using Some k by (intro disjI2 bexI [of _ t]) (auto simp: in_prior nth_append)
    qed
  qed simp
  have "chain_ok ?m k" for k
  proof (cases "k \<in> set ks")
    case True
    then show ?thesis by (auto simp: chain_ok_def nth_append less_Suc_eq)
  next
    case False
    then show ?thesis using chain [of k]
      by (auto simp: chain_ok_def nth_append less_Suc_eq settled_append split: option.splits)
  qed
  then show ?thesis using old new by (auto simp: mutex_inv_def less_Suc_eq)
qed

lemma prior_ok_phase:
  assumes "prior_ok m j" "i < length (tasks m)"
    and "\<And>k. settled m k \<Longrightarrow> settled (set_phase i p m) k"
    and "j = i \<Longrightarrow> lt_phase (tasks m ! i) = Waiting \<Longrightarrow> p \<noteq> Waiting \<Longrightarrow> list_all (settled m) (lt_prior (tasks m ! i))"
  shows "prior_ok (set_phase i p m) j"
  using assms unfolding prior_ok_def list_all_iff
  by (auto split: if_splits)

lemma chain_ok_phase:
  assumes "chain_ok m k" "i < length (tasks m)" "p \<noteq> Released"
    and "\<And>k. settled m k \<Longrightarrow> settled (set_phase i p m) k"
  shows "chain_ok (set_phase i p m) k"
  using assms unfolding chain_ok_def by (auto split: option.splits)

lemma mutex_inv_step:
  assumes "mutex_step m m'" "mutex_inv m"
  shows "mutex_inv m'"
  using assms(1)
proof (cases rule: mutex_step.cases)
  case (start i)
  then have i: "i < length (tasks m)" "lt_phase (tasks m ! i) = Waiting" by (auto simp: can_start_def)
  have mono: "settled m k \<Longrightarrow> settled (set_phase i Running m) k" for k
    using i by (auto simp: settled_set_phase settled_def)
  show ?thesis unfolding start(1) using assms(2) start(2) i mono
    by (auto simp: mutex_inv_def can_start_def intro!: prior_ok_phase chain_ok_phase)
next
  case (settle i)
  have mono: "settled m k \<Longrightarrow> settled (set_phase i Settled m) k" for k
    using settle(2) by (auto simp: settled_set_phase)
  show ?thesis unfolding settle(1) using assms(2) settle(2,3) mono
    by (auto simp: mutex_inv_def intro!: prior_ok_phase chain_ok_phase)
next
  case (release i)
  let ?r = "release_keys i (set_phase i Released m)"
  have mono: "settled m k \<Longrightarrow> settled (set_phase i Released m) k" for k
    using release(2) by (auto simp: settled_set_phase)
  have "prior_ok (set_phase i Released m) j" if "j < length (tasks m)" for j
    using assms(2) release(2,3) mono that by (auto simp: mutex_inv_def intro!: prior_ok_phase)
  then have "prior_ok ?r j" if "j < length (tasks m)" for j
    using that unfolding prior_ok_def by simp
  moreover have "chain_ok ?r k" for k
  proof -
    have ok: "chain_ok m k" using assms(2) by (simp add: mutex_inv_def)
    show ?thesis
    proof (cases "chains m k = Some i")
      case True
      have "settled m j" if "j < length (tasks m)" "k \<in> keys_of m j" for j
      proof (cases "j = i")
        case True
        then show ?thesis using release(3) by (simp add: settled_def)
      next
        case False
        then have "j < i" using ok that True by (auto simp: chain_ok_def \<open>chains m k = Some i\<close>)
        then show ?thesis
          using earlier_settled [OF assms(2) release(2)] release(3) that(2) ok
          by (auto simp: chain_ok_def \<open>chains m k = Some i\<close>)
      qed
      then show ?thesis using True ok release(2) by (auto simp: chain_ok_def mono)
    next
      case False
      then show ?thesis using ok release(2) mono by (auto simp: chain_ok_def split: option.splits)
    qed
  qed
  ultimately show ?thesis unfolding release(1) using release(2) by (simp add: mutex_inv_def)
qed

lemma reachable_inv: "mutex_reachable m \<Longrightarrow> mutex_inv m"
  by (induction rule: mutex_reachable.induct) (simp_all add: mutex_inv_empty mutex_inv_call mutex_inv_step)

section \<open>Work left\<close>

fun phase_work :: "phase \<Rightarrow> nat" where
  "phase_work Waiting = 3"
| "phase_work Running = 2"
| "phase_work Settled = 1"
| "phase_work Released = 0"

definition mutex_work :: "mutex \<Rightarrow> nat" where
  "mutex_work m = sum_list (map (\<lambda>t. phase_work (lt_phase t)) (tasks m))"

lemma mutex_work_phase:
  "i < length (tasks m) \<Longrightarrow>
     mutex_work (set_phase i p m) + phase_work (lt_phase (tasks m ! i)) = mutex_work m + phase_work p"
  by (simp add: mutex_work_def set_phase_def map_update sum_list_update elem_le_sum_list)
    (metis (no_types, lifting) add_diff_inverse_nat diff_diff_cancel elem_le_sum_list add.commute length_map linorder_not_less
      nth_map less_or_eq_imp_le ordered_cancel_comm_monoid_diff_class.diff_add trans_le_add2)

lemma mutex_step_work: "mutex_step m m' \<Longrightarrow> mutex_work m = Suc (mutex_work m')"
proof (erule mutex_stepE)
  fix i
  assume "m' = set_phase i Running m" "can_start m i"
  then show ?thesis using mutex_work_phase [of i m Running] by (simp add: can_start_def)
next
  fix i
  assume "m' = set_phase i Settled m" "i < length (tasks m)" "lt_phase (tasks m ! i) = Running"
  then show ?thesis using mutex_work_phase [of i m Settled] by simp
next
  fix i
  assume m': "m' = release_keys i (set_phase i Released m)" and i: "i < length (tasks m)" "lt_phase (tasks m ! i) = Settled"
  have "mutex_work m' = mutex_work (set_phase i Released m)" by (simp add: m' mutex_work_def)
  then show ?thesis using mutex_work_phase [of i m Released] i by simp
qed

lemma mutex_steps_work: "(mutex_step ^^ n) m m' \<Longrightarrow> mutex_work m = n + mutex_work m'"
proof (induction n arbitrary: m')
  case (Suc n)
  then obtain m1 where "(mutex_step ^^ n) m m1" "mutex_step m1 m'" by auto
  then show ?case using Suc.IH mutex_step_work by fastforce
qed simp

lemma mutex_work_bound: "mutex_work m \<le> 3 * length (tasks m)"
proof -
  have "phase_work p \<le> 3" for p by (cases p) auto
  then show ?thesis
    using sum_list_mono [of "tasks m" "\<lambda>t. phase_work (lt_phase t)" "\<lambda>_. 3"]
    by (simp add: mutex_work_def sum_list_triv mult.commute)
qed

lemma mutex_progress:
  assumes "mutex_inv m" "j < length (tasks m)" "lt_phase (tasks m ! j) \<noteq> Released"
  shows "\<exists>m'. mutex_step m m'"
  using assms(2,3)
proof (induction j rule: less_induct)
  case (less j)
  show ?case
  proof (cases "lt_phase (tasks m ! j)")
    case Waiting
    show ?thesis
    proof (cases "\<forall>p \<in> set (lt_prior (tasks m ! j)). settled m p")
      case True
      then have "can_start m j" using less.prems(1) Waiting by (simp add: can_start_def list_all_iff)
      then show ?thesis using mutex_step.start by blast
    next
      case False
      then obtain p where p: "p \<in> set (lt_prior (tasks m ! j))" "\<not> settled m p" by blast
      then have "p < j" using assms(1) less.prems(1) by (auto simp: mutex_inv_def prior_ok_def)
      then show ?thesis using less.IH [of p] less.prems(1) p(2) by (auto simp: settled_def)
    qed
  next
    case Running
    then show ?thesis using mutex_step.settle [of j m] less.prems(1) by blast
  next
    case Settled
    then show ?thesis using mutex_step.release [of j m] less.prems(1) by blast
  qed (use less.prems in simp)
qed

lemma mutex_steps_reachable: "mutex_step\<^sup>*\<^sup>* m m' \<Longrightarrow> mutex_reachable m \<Longrightarrow> mutex_reachable m'"
  by (induction rule: rtranclp_induct) (auto intro: mutex_reachable.stepped)


section \<open>Properties\<close>

text \<open>
  (C17) Mutual exclusion and order: in every state the mutex can reach, two operations that run share no
  key, and an operation that has started finds every earlier operation on one of its keys settled.
\<close>

theorem mutex_exclusive:
  assumes "mutex_reachable m" and "j < length (tasks m)" and "lt_phase (tasks m ! j) \<noteq> Waiting"
    and "i < j" and "k \<in> set (lt_keys (tasks m ! i))" and "k \<in> set (lt_keys (tasks m ! j))"
  shows "lt_phase (tasks m ! i) \<in> {Settled, Released}"
  using earlier_settled [OF reachable_inv [OF assms(1)] assms(2-6)] by (simp add: settled_def)

lemma mutex_exclusive_witness:
  "lt_phase (tasks (set_phase 1 Running (runExclusive [''p''] (set_phase 0 Settled (set_phase 0 Running
     (runExclusive [''p''] empty_mutex))))) ! 0) \<in> {Settled, Released}"
proof -
  let ?a = "runExclusive [''p''] empty_mutex"
  let ?b = "runExclusive [''p''] (set_phase 0 Settled (set_phase 0 Running ?a))"
  have a: "tasks ?a = [\<lparr>lt_keys = [''p''], lt_prior = [], lt_phase = Waiting\<rparr>]"
    by (simp add: empty_mutex_def List.map_filter_simps)
  have b: "tasks ?b = [\<lparr>lt_keys = [''p''], lt_prior = [], lt_phase = Settled\<rparr>,
      \<lparr>lt_keys = [''p''], lt_prior = [0], lt_phase = Waiting\<rparr>]"
    by (simp add: a set_phase_def List.map_filter_simps runExclusive_chains [of "[''p'']" empty_mutex "''p''"])
      (simp add: empty_mutex_def)
  have "mutex_step ?a (set_phase 0 Running ?a)"
    by (rule mutex_step.start) (simp only: can_start_def a, simp)
  moreover have "mutex_step (set_phase 0 Running ?a) (set_phase 0 Settled (set_phase 0 Running ?a))"
    by (rule mutex_step.settle) (simp_all add: set_phase_def a del: runExclusive_sel)
  moreover have "mutex_step ?b (set_phase 1 Running ?b)"
    by (rule mutex_step.start) (simp only: can_start_def b, simp add: settled_def b del: runExclusive_sel)
  ultimately have "mutex_reachable (set_phase 1 Running ?b)"
    by (meson mutex_reachable.intros)
  then show ?thesis
    by (rule mutex_exclusive [where j = 1 and k = "''p''"]) (simp_all only: set_phase_tasks [of 1] b, simp_all)
qed



end
