(* ===== verification/Events.thy ===== *)
theory Events
  imports Paths Storage_Types "HOL-Library.Multiset"
begin

text \<open>
  Change events: the emitter every backend extends (\<open>packages/storage/src/events.ts\<close>), the backend that
  posts events to the other tabs (\<open>broadcast.ts\<close>) and the subscription of a collection
  (\<open>packages/core/src/storage/index.ts\<close>).

  A listener is named by a key; \<open>run\<close> says what the listener with a key does with an event to the state
  of the program. The tabs of one origin are a list; each has the queue of the messages its channel has
  not delivered yet, and the events its own listeners were given.
\<close>

section \<open>The emitter\<close>

definition onDidChange :: "'k \<Rightarrow> 'k list \<Rightarrow> 'k list" where
  "onDidChange cb listeners = (if cb \<in> set listeners then listeners else listeners @ [cb])"

definition unsubscribe :: "'k \<Rightarrow> 'k list \<Rightarrow> 'k list" where
  "unsubscribe cb listeners = removeAll cb listeners"

definition emit :: "('k \<Rightarrow> change_event \<Rightarrow> ('w, unit) act) \<Rightarrow> 'k list \<Rightarrow> change_event \<Rightarrow> ('w, unit) act" where
  "emit run listeners event = afor (\<lambda>cb. acatch (run cb event) (\<lambda>_. aret ())) listeners"

lemma onDidChange_distinct: "distinct ls \<Longrightarrow> distinct (onDidChange cb ls) \<and> distinct (unsubscribe cb ls)"
  by (simp add: onDidChange_def unsubscribe_def distinct_removeAll)

lemma emit_reaches_all:
  "emit run ls event s = (Inr (), fold (\<lambda>cb w. snd (run cb event w)) ls s)"
  by (induction ls arbitrary: s) (auto simp: emit_def act_simps split: prod.split sum.split)

section \<open>Tabs\<close>

record bc_message =
  bm_sender :: string
  bm_event :: change_event

record bc_tab =
  bt_sender :: string
  bt_channel :: "string option"
  bt_heard :: "change_event list"
  bt_queue :: "bc_message list"

definition open_tab :: "string \<Rightarrow> string option \<Rightarrow> bc_tab" where
  "open_tab sender scope =
     \<lparr>bt_sender = sender, bt_channel = map_option (\<lambda>s. ''tactile:storage:'' @ s) scope,
      bt_heard = [], bt_queue = []\<rparr>"

definition emit_local :: "change_event \<Rightarrow> bc_tab \<Rightarrow> bc_tab" where
  "emit_local event t = t\<lparr>bt_heard := bt_heard t @ [event]\<rparr>"

definition inner_change :: "nat \<Rightarrow> change_event \<Rightarrow> bc_tab list \<Rightarrow> bc_tab list" where
  "inner_change i event ts =
     (let t = ts ! i; message = \<lparr>bm_sender = bt_sender t, bm_event = event\<rparr>
      in map (\<lambda>j. let u = ts ! j in
                if j = i then emit_local event u
                else if bt_channel t \<noteq> None \<and> bt_channel u = bt_channel t
                then u\<lparr>bt_queue := bt_queue u @ [message]\<rparr> else u) [0..<length ts])"

definition on_message :: "bc_message \<Rightarrow> bc_tab \<Rightarrow> bc_tab" where
  "on_message data t = (if bm_sender data = bt_sender t then t else emit_local (bm_event data) t)"

definition deliver :: "nat \<Rightarrow> bc_tab list \<Rightarrow> bc_tab list" where
  "deliver i ts =
     (case bt_queue (ts ! i) of [] \<Rightarrow> ts
      | m # ms \<Rightarrow> ts[i := on_message m ((ts ! i)\<lparr>bt_queue := ms\<rparr>)])"

text \<open>The states the tabs reach, with the log of the changes made: which tab, which event.\<close>

inductive tabs_reach :: "bc_tab list \<Rightarrow> (nat \<times> change_event) list \<Rightarrow> bc_tab list \<Rightarrow> bool" for ts0 where
  opened: "\<forall>t \<in> set ts0. bt_heard t = [] \<and> bt_queue t = [] \<Longrightarrow> tabs_reach ts0 [] ts0"
| changed: "tabs_reach ts0 log ts \<Longrightarrow> i < length ts \<Longrightarrow> tabs_reach ts0 (log @ [(i, e)]) (inner_change i e ts)"
| delivered: "tabs_reach ts0 log ts \<Longrightarrow> i < length ts \<Longrightarrow> tabs_reach ts0 log (deliver i ts)"

section \<open>What every tab hears\<close>

abbreviation tab_names :: "bc_tab list \<Rightarrow> (string \<times> string option) list" where
  "tab_names ts \<equiv> map (\<lambda>t. (bt_sender t, bt_channel t)) ts"

definition linked :: "bc_tab list \<Rightarrow> nat \<Rightarrow> nat \<Rightarrow> bool" where
  "linked ts i j \<longleftrightarrow> i = j \<or> bt_channel (ts ! i) \<noteq> None \<and> bt_channel (ts ! i) = bt_channel (ts ! j)"

definition made_by :: "nat \<Rightarrow> (nat \<times> change_event) list \<Rightarrow> change_event list" where
  "made_by j log = map snd (filter (\<lambda>x. fst x = j) log)"

definition all_heard :: "bc_tab \<Rightarrow> change_event list" where
  "all_heard t = bt_heard t @ map bm_event (bt_queue t)"

definition tab_ok :: "bc_tab list \<Rightarrow> (nat \<times> change_event) list \<Rightarrow> bc_tab list \<Rightarrow> nat \<Rightarrow> bool" where
  "tab_ok ts0 log ts i \<longleftrightarrow>
     mset (all_heard (ts ! i)) = mset (map snd (filter (\<lambda>x. linked ts0 (fst x) i) log))
     \<and> (\<forall>j < length ts0. linked ts0 j i \<longrightarrow> subseq (made_by j log) (all_heard (ts ! i)))
     \<and> subseq (made_by i log) (bt_heard (ts ! i))
     \<and> (\<forall>m \<in> set (bt_queue (ts ! i)). \<exists>j < length ts0. j \<noteq> i \<and> bm_sender m = bt_sender (ts0 ! j))"

lemma length_inner_change [simp]: "length (inner_change i e ts) = length ts"
  by (simp add: inner_change_def Let_def)

lemma inner_change_nth:
  "j < length ts \<Longrightarrow> inner_change i e ts ! j =
     (if j = i then emit_local e (ts ! i)
      else if bt_channel (ts ! i) \<noteq> None \<and> bt_channel (ts ! j) = bt_channel (ts ! i)
      then (ts ! j)\<lparr>bt_queue := bt_queue (ts ! j) @ [\<lparr>bm_sender = bt_sender (ts ! i), bm_event = e\<rparr>]\<rparr> else ts ! j)"
  by (simp add: inner_change_def Let_def)

lemma tabs_reach_names: "tabs_reach ts0 log ts \<Longrightarrow> tab_names ts = tab_names ts0"
proof (induction rule: tabs_reach.induct)
  case (changed log ts i e)
  have "tab_names (inner_change i e ts) = tab_names ts"
    by (rule nth_equalityI) (simp_all add: inner_change_nth emit_local_def)
  then show ?case using changed by simp
next
  case (delivered log ts i)
  have "tab_names (deliver i ts) = tab_names ts"
    using delivered.hyps(2)
    by (intro nth_equalityI) (auto simp: deliver_def on_message_def emit_local_def nth_list_update split: list.split)
  then show ?case using delivered by simp
qed simp

lemma tab_names_nth:
  assumes "tab_names ts = tab_names ts0"
  shows "length ts = length ts0" "i < length ts0 \<Longrightarrow> bt_sender (ts ! i) = bt_sender (ts0 ! i)"
    "i < length ts0 \<Longrightarrow> bt_channel (ts ! i) = bt_channel (ts0 ! i)"
proof -
  show len: "length ts = length ts0" using assms map_eq_imp_length_eq by blast
  assume "i < length ts0"
  then have "tab_names ts ! i = tab_names ts0 ! i" "i < length ts" using assms len by auto
  then show "bt_sender (ts ! i) = bt_sender (ts0 ! i)" "bt_channel (ts ! i) = bt_channel (ts0 ! i)"
    using \<open>i < length ts0\<close> by simp_all
qed

lemma made_by_snoc: "made_by j (log @ [(i, e)]) = made_by j log @ (if i = j then [e] else [])"
  by (simp add: made_by_def)

lemma subseq_insert: "subseq xs (ys @ zs) \<Longrightarrow> subseq xs (ys @ e # zs)"
proof -
  have "subseq (ys @ zs) (ys @ e # zs)" by (rule list_emb_append_mono) auto
  then show "subseq xs (ys @ zs) \<Longrightarrow> subseq xs (ys @ e # zs)" using subseq_order.order_trans by blast
qed

lemma subseq_snoc: "subseq xs ys \<Longrightarrow> subseq (xs @ [e]) (ys @ [e])"
  by (simp add: list_emb_append_mono)

lemma subseq_longer: "subseq xs ys \<Longrightarrow> subseq xs (ys @ zs)"
  using list_emb_append2 by fastforce

lemma tabs_inv:
  assumes "tabs_reach ts0 log ts" "distinct (map bt_sender ts0)" "k < length ts0"
  shows "tab_ok ts0 log ts k"
  using assms(1,3)
proof (induction arbitrary: k rule: tabs_reach.induct)
  case opened
  then show ?case by (simp add: tab_ok_def all_heard_def made_by_def)
next
  case (changed log ts i e)
  note names = tab_names_nth [OF tabs_reach_names [OF changed.hyps(1)]]
  have ok: "tab_ok ts0 log ts k" using changed by blast
  have k: "k < length ts" "i < length ts0" using changed names(1) by simp_all
  show ?case
  proof (cases "k = i")
    case True
    then have nth: "inner_change i e ts ! k = emit_local e (ts ! k)" using k by (simp add: inner_change_nth)
    have heard: "all_heard (emit_local e (ts ! k)) = bt_heard (ts ! k) @ e # map bm_event (bt_queue (ts ! k))"
      by (simp add: all_heard_def emit_local_def)
    have "subseq (made_by j (log @ [(i, e)])) (all_heard (emit_local e (ts ! k)))"
      if "j < length ts0" "linked ts0 j k" for j
    proof (cases "j = k")
      case True
      have "subseq (made_by k log @ [e]) (bt_heard (ts ! k) @ [e])"
        using ok by (simp add: tab_ok_def subseq_snoc)
      then have "subseq (made_by k log @ [e]) (bt_heard (ts ! k) @ e # map bm_event (bt_queue (ts ! k)))"
        using subseq_longer [of _ "bt_heard (ts ! k) @ [e]"] by simp
      then show ?thesis unfolding heard using True \<open>k = i\<close> by (simp add: made_by_snoc)
    next
      case False
      have "subseq (made_by j log) (bt_heard (ts ! k) @ map bm_event (bt_queue (ts ! k)))"
        using ok that by (simp add: tab_ok_def all_heard_def)
      from subseq_insert [OF this, of e] show ?thesis
        unfolding heard using False \<open>k = i\<close> by (simp add: made_by_snoc)
    qed
    moreover have "mset (all_heard (emit_local e (ts ! k))) = mset (all_heard (ts ! k)) + {#e#}"
      unfolding heard by (simp add: all_heard_def)
    moreover have "subseq (made_by i (log @ [(i, e)])) (bt_heard (emit_local e (ts ! k)))"
      using ok \<open>k = i\<close> by (simp add: made_by_snoc emit_local_def tab_ok_def subseq_snoc)
    ultimately show ?thesis using ok \<open>k = i\<close>
      by (auto simp: tab_ok_def nth [unfolded True] linked_def [of _ i i]) (simp add: emit_local_def)
  next
    case False
    show ?thesis
    proof (cases "linked ts0 i k")
      case True
      let ?m = "\<lparr>bm_sender = bt_sender (ts0 ! i), bm_event = e\<rparr>"
      have nth: "inner_change i e ts ! k = (ts ! k)\<lparr>bt_queue := bt_queue (ts ! k) @ [?m]\<rparr>"
        using True \<open>k \<noteq> i\<close> k names changed.prems by (auto simp: inner_change_nth linked_def)
      have heard: "all_heard ((ts ! k)\<lparr>bt_queue := bt_queue (ts ! k) @ [?m]\<rparr>) = all_heard (ts ! k) @ [e]"
        by (simp add: all_heard_def)
      have "subseq (made_by j (log @ [(i, e)])) (all_heard (ts ! k) @ [e])" if "j < length ts0" "linked ts0 j k" for j
        using ok that by (auto simp: tab_ok_def made_by_snoc subseq_snoc subseq_longer)
      moreover have "made_by k (log @ [(i, e)]) = made_by k log" using \<open>k \<noteq> i\<close> by (simp add: made_by_snoc)
      ultimately show ?thesis using ok True \<open>k \<noteq> i\<close> k names(2)
        by (auto simp: tab_ok_def nth heard)
    next
      case False
      have "inner_change i e ts ! k = ts ! k"
        using False \<open>k \<noteq> i\<close> k names changed.prems by (auto simp: inner_change_nth linked_def)
      moreover have "made_by j (log @ [(i, e)]) = made_by j log" if "linked ts0 j k" for j
        using False that by (auto simp: made_by_snoc)
      moreover have "made_by k (log @ [(i, e)]) = made_by k log" using \<open>k \<noteq> i\<close> by (simp add: made_by_snoc)
      ultimately show ?thesis using ok False by (auto simp: tab_ok_def)
    qed
  qed
next
  case (delivered log ts i)
  note names = tab_names_nth [OF tabs_reach_names [OF delivered.hyps(1)]]
  have ok: "tab_ok ts0 log ts k" using delivered by blast
  show ?case
  proof (cases "k = i \<and> bt_queue (ts ! k) \<noteq> []")
    case True
    then obtain m ms where q: "bt_queue (ts ! i) = m # ms" by (cases "bt_queue (ts ! i)") auto
    obtain j where j: "j < length ts0" "j \<noteq> i" "bm_sender m = bt_sender (ts0 ! j)"
      using ok True q by (auto simp: tab_ok_def)
    then have "bm_sender m \<noteq> bt_sender (ts ! i)"
      using assms(2) delivered.hyps(2) names by (auto simp: distinct_conv_nth)
    then have "deliver i ts ! i = emit_local (bm_event m) ((ts ! i)\<lparr>bt_queue := ms\<rparr>)"
      using delivered.hyps(2) by (simp add: deliver_def q on_message_def)
    then have "all_heard (deliver i ts ! i) = all_heard (ts ! i)"
      "bt_heard (deliver i ts ! i) = bt_heard (ts ! i) @ [bm_event m]" "bt_queue (deliver i ts ! i) = ms"
      by (simp_all add: all_heard_def emit_local_def q)
    then show ?thesis using ok True q by (auto simp: tab_ok_def subseq_longer)
  next
    case False
    then have "deliver i ts ! k = ts ! k" by (auto simp: deliver_def split: list.split)
    then show ?thesis using ok by (simp add: tab_ok_def)
  qed
qed

section \<open>Subscribing to a collection\<close>

text \<open>
  \<open>subscribeCollectionChanges\<close> calls its callback \<open>debounceMs\<close> after the last relevant event; the timer
  is the time at which it will fire.
\<close>

definition visible_change :: "string \<Rightarrow> string \<Rightarrow> bool res" where
  "visible_change path collection =
     res_bind (isUnder path collection) (\<lambda>u.
       if u then res_bind (isInternalPath path) (\<lambda>i. Inr (\<not> i)) else Inr False)"

definition relevant_change :: "string \<Rightarrow> change_event \<Rightarrow> bool res" where
  "relevant_change collection event =
     res_bind (visible_change (ev_path event) collection) (\<lambda>v.
       if v then Inr True
       else case oldPath event of None \<Rightarrow> Inr False | Some old \<Rightarrow> visible_change old collection)"

definition on_change :: "bool \<Rightarrow> nat \<Rightarrow> nat \<Rightarrow> nat option \<Rightarrow> nat option" where
  "on_change relevant debounceMs now timer = (if relevant then Some (now + debounceMs) else timer)"

fun fire :: "nat \<Rightarrow> nat option \<Rightarrow> nat option \<times> bool" where
  "fire now None = (None, False)"
| "fire now (Some at) = (if at \<le> now then (None, True) else (Some at, False))"

section \<open>Properties\<close>

text \<open>
  (C34) When all messages are delivered, every tab has given its listeners exactly the changes made in
  the tabs of its channel and its own, each once, and the changes of each tab in the order they were made.
\<close>

theorem broadcast_reaches_all:
  assumes "tabs_reach ts0 log ts" and "distinct (map bt_sender ts0)" and "k < length ts0"
    and "bt_queue (ts ! k) = []"
  shows "mset (bt_heard (ts ! k)) = mset (map snd (filter (\<lambda>x. linked ts0 (fst x) k) log))
    \<and> (\<forall>j < length ts0. linked ts0 j k \<longrightarrow> subseq (made_by j log) (bt_heard (ts ! k)))"
  using tabs_inv [OF assms(1-3)] assms(4) by (simp add: tab_ok_def all_heard_def)

lemma broadcast_reaches_all_witness:
  "let e = \<lparr>ev_path = ''/N/a'', ev_kind = Written, ev_origin = Local, oldPath = None\<rparr>;
       ts0 = [open_tab ''x'' (Some ''t''), open_tab ''y'' (Some ''t'')]
   in mset (bt_heard (deliver 1 (inner_change 0 e ts0) ! 1)) = {#e#}"
proof -
  define e where "e = \<lparr>ev_path = ''/N/a'', ev_kind = Written, ev_origin = Local, oldPath = None\<rparr>"
  define ts0 where "ts0 = [open_tab ''x'' (Some ''t''), open_tab ''y'' (Some ''t'')]"
  have "tabs_reach ts0 [] ts0" by (rule tabs_reach.opened) (simp add: ts0_def open_tab_def)
  then have "tabs_reach ts0 ([] @ [(0, e)]) (inner_change 0 e ts0)" by (rule tabs_reach.changed) (simp add: ts0_def)
  then have "tabs_reach ts0 ([] @ [(0, e)]) (deliver 1 (inner_change 0 e ts0))"
    by (rule tabs_reach.delivered) (simp add: ts0_def)
  moreover have "bt_queue (deliver 1 (inner_change 0 e ts0) ! 1) = []"
    by (simp add: deliver_def inner_change_nth ts0_def open_tab_def on_message_def emit_local_def)
  ultimately have "mset (bt_heard (deliver 1 (inner_change 0 e ts0) ! 1))
      = mset (map snd (filter (\<lambda>x. linked ts0 (fst x) 1) ([] @ [(0, e)])))"
    using broadcast_reaches_all [of ts0 "[] @ [(0, e)]" "deliver 1 (inner_change 0 e ts0)" 1]
    by (simp add: ts0_def open_tab_def)
  then show ?thesis
    unfolding Let_def e_def [symmetric] ts0_def [symmetric]
    by (simp add: linked_def ts0_def open_tab_def)
qed

end
