(* ===== verification/Json.thy ===== *)
theory Json
  imports Prelude
begin

text \<open>
  \<open>JSON.stringify\<close> and \<open>JSON.parse\<close> for the values the program stores: objects, arrays, strings,
  integers, booleans and null. An object is the list of its members in order. \<open>gap\<close> is the
  indentation of one level, empty for the compact form. The parser accepts white space wherever JSON
  does; it takes integers only, which are the only numbers the program writes, and no escape for a
  character outside the alphabet of the model. Its fuel is the length of the text, which is enough.

  The locale \<open>text_codec\<close> is what the components that store values rely on; it is interpreted on this
  printer and parser.
\<close>

section \<open>Printing\<close>

datatype json = JNull | JBool bool | JNum int | JStr string | JArr "json list" | JObj "(string \<times> json) list"

definition show_int :: "int \<Rightarrow> string" where
  "show_int n = (if n < 0 then CHR ''-'' # show_nat (nat (- n)) else show_nat (nat n))"

definition json_escape :: "char \<Rightarrow> string" where
  "json_escape c =
     (let n = (of_char c :: nat) in
      if n = 34 then [CHR 0x5C, c] else if n = 92 then [CHR 0x5C, c]
      else if n = 8 then [CHR 0x5C, CHR ''b''] else if n = 9 then [CHR 0x5C, CHR ''t'']
      else if n = 10 then [CHR 0x5C, CHR ''n''] else if n = 12 then [CHR 0x5C, CHR ''f'']
      else if n = 13 then [CHR 0x5C, CHR ''r'']
      else if n < 32 then [CHR 0x5C, CHR ''u'', CHR ''0'', CHR ''0'', digit_char (n div 16), digit_char (n mod 16)]
      else [c])"

definition json_string :: "string \<Rightarrow> string" where
  "json_string s = CHR 0x22 # concat (map json_escape s) @ [CHR 0x22]"

definition newline :: "string \<Rightarrow> nat \<Rightarrow> string" where
  "newline gap l = (if gap = [] then [] else CHR 0x0A # concat (replicate l gap))"

definition colon :: "string \<Rightarrow> string" where
  "colon gap = (if gap = [] then '':'' else '': '')"

fun print_json :: "string \<Rightarrow> nat \<Rightarrow> json \<Rightarrow> string" where
  "print_json gap l JNull = ''null''"
| "print_json gap l (JBool b) = (if b then ''true'' else ''false'')"
| "print_json gap l (JNum n) = show_int n"
| "print_json gap l (JStr s) = json_string s"
| "print_json gap l (JArr vs) =
     (if vs = [] then ''[]''
      else ''['' @ newline gap (Suc l) @ join_with ('','' @ newline gap (Suc l)) (map (print_json gap (Suc l)) vs)
           @ newline gap l @ '']'')"
| "print_json gap l (JObj ms) =
     (if ms = [] then ''{}''
      else ''{'' @ newline gap (Suc l)
           @ join_with ('','' @ newline gap (Suc l))
               (map (\<lambda>m. json_string (fst m) @ colon gap @ print_json gap (Suc l) (snd m)) ms)
           @ newline gap l @ ''}'')"

abbreviation stringify :: "json \<Rightarrow> string" where
  "stringify j \<equiv> print_json [] 0 j"

section \<open>Parsing\<close>

definition json_space :: "char \<Rightarrow> bool" where
  "json_space c = ((of_char c :: nat) \<in> {9, 10, 13, 32})"

definition skip_ws :: "string \<Rightarrow> string" where
  "skip_ws s = dropWhile json_space s"

definition hex_val :: "char \<Rightarrow> nat option" where
  "hex_val c =
     (let n = (of_char c :: nat) in
      if 48 \<le> n \<and> n \<le> 57 then Some (n - 48)
      else if 65 \<le> n \<and> n \<le> 70 then Some (n - 55)
      else if 97 \<le> n \<and> n \<le> 102 then Some (n - 87) else None)"

definition unescape :: "char \<Rightarrow> char option" where
  "unescape c =
     (if c = CHR 0x22 \<or> c = CHR 0x5C \<or> c = CHR ''/'' then Some c
      else if c = CHR ''b'' then Some CHR 0x08 else if c = CHR ''t'' then Some CHR 0x09
      else if c = CHR ''n'' then Some CHR 0x0A else if c = CHR ''f'' then Some CHR 0x0C
      else if c = CHR ''r'' then Some CHR 0x0D else None)"

definition hex4 :: "char \<Rightarrow> char \<Rightarrow> char \<Rightarrow> char \<Rightarrow> char option" where
  "hex4 a b c d =
     (case (hex_val a, hex_val b, hex_val c, hex_val d) of
        (Some 0, Some 0, Some x, Some y) \<Rightarrow> Some (char_of (16 * x + y)) | _ \<Rightarrow> None)"

definition push_char :: "char option \<Rightarrow> (string \<times> string) option \<Rightarrow> (string \<times> string) option" where
  "push_char c r = (case (c, r) of (Some x, Some (w, rest)) \<Rightarrow> Some (x # w, rest) | _ \<Rightarrow> None)"

fun parse_chars :: "string \<Rightarrow> (string \<times> string) option" where
  "parse_chars [] = None"
| "parse_chars (c # cs) =
     (if c = CHR 0x22 then Some ([], cs)
      else if c = CHR 0x5C then
        (case cs of
           [] \<Rightarrow> None
         | e # es \<Rightarrow>
             if e = CHR ''u'' then
               (case es of x # y # z # w # r \<Rightarrow> push_char (hex4 x y z w) (parse_chars r) | _ \<Rightarrow> None)
             else push_char (unescape e) (parse_chars es))
      else if (of_char c :: nat) < 32 then None
      else push_char (Some c) (parse_chars cs))"

definition is_digit :: "char \<Rightarrow> bool" where
  "is_digit c = (let n = (of_char c :: nat) in 48 \<le> n \<and> n \<le> 57)"

definition parse_num :: "string \<Rightarrow> (json \<times> string) option" where
  "parse_num s =
     (let neg = (s \<noteq> [] \<and> hd s = CHR ''-''); t = (if neg then tl s else s);
          ds = takeWhile is_digit t; r = dropWhile is_digit t
      in if ds = [] \<or> length ds > 1 \<and> hd ds = CHR ''0'' then None
         else Some (JNum (if neg then - int (read_nat ds) else int (read_nat ds)), r))"

fun parse_value :: "nat \<Rightarrow> string \<Rightarrow> (json \<times> string) option"
  and parse_elems :: "nat \<Rightarrow> string \<Rightarrow> (json list \<times> string) option"
  and parse_members :: "nat \<Rightarrow> string \<Rightarrow> ((string \<times> json) list \<times> string) option" where
  "parse_value 0 s = None"
| "parse_value (Suc f) s =
     (let t = skip_ws s in
      if prefix ''null'' t then Some (JNull, drop 4 t)
      else if prefix ''true'' t then Some (JBool True, drop 4 t)
      else if prefix ''false'' t then Some (JBool False, drop 5 t)
      else if prefix [CHR 0x22] t then map_option (\<lambda>(w, r). (JStr w, r)) (parse_chars (tl t))
      else if prefix ''['' t then
        (if prefix '']'' (skip_ws (tl t)) then Some (JArr [], tl (skip_ws (tl t)))
         else map_option (\<lambda>(vs, r). (JArr vs, r)) (parse_elems f (tl t)))
      else if prefix ''{'' t then
        (if prefix ''}'' (skip_ws (tl t)) then Some (JObj [], tl (skip_ws (tl t)))
         else map_option (\<lambda>(ms, r). (JObj ms, r)) (parse_members f (tl t)))
      else parse_num t)"
| "parse_elems 0 s = None"
| "parse_elems (Suc f) s =
     (case parse_value f s of None \<Rightarrow> None
      | Some (v, r) \<Rightarrow>
          (let t = skip_ws r in
           if prefix '','' t then map_option (\<lambda>(vs, r'). (v # vs, r')) (parse_elems f (tl t))
           else if prefix '']'' t then Some ([v], tl t) else None))"
| "parse_members 0 s = None"
| "parse_members (Suc f) s =
     (let t = skip_ws s in
      if \<not> prefix [CHR 0x22] t then None
      else case parse_chars (tl t) of None \<Rightarrow> None
      | Some (k, r) \<Rightarrow>
          (if \<not> prefix '':'' (skip_ws r) then None
           else case parse_value f (tl (skip_ws r)) of None \<Rightarrow> None
           | Some (v, r2) \<Rightarrow>
               (let u = skip_ws r2 in
                if prefix '','' u then map_option (\<lambda>(ms, r'). ((k, v) # ms, r')) (parse_members f (tl u))
                else if prefix ''}'' u then Some ([(k, v)], tl u) else None)))"

definition parse_json :: "string \<Rightarrow> json option" where
  "parse_json s =
     (case parse_value (Suc (length s)) s of None \<Rightarrow> None
      | Some (v, r) \<Rightarrow> if skip_ws r = [] then Some v else None)"

text \<open>The member of an object with a key: the last one counts.\<close>

fun member :: "string \<Rightarrow> json \<Rightarrow> json option" where
  "member k (JObj ms) = map_of (rev ms) k"
| "member k _ = None"

section \<open>Parsing reads back what was printed\<close>

lemma skip_ws_append [simp]: "list_all json_space w \<Longrightarrow> skip_ws (w @ s) = skip_ws s"
  by (induction w) (auto simp: skip_ws_def)

lemma skip_ws_Cons [simp]: "skip_ws (c # s) = (if json_space c then skip_ws s else c # s)"
  by (simp add: skip_ws_def)

lemma skip_ws_Nil [simp]: "skip_ws [] = []"
  by (simp add: skip_ws_def)

lemma newline_space: "list_all json_space g \<Longrightarrow> list_all json_space (newline g l)"
  by (induction l) (auto simp: newline_def json_space_def list_all_iff)

lemma skip_newline [simp]: "list_all json_space g \<Longrightarrow> skip_ws (newline g l @ s) = skip_ws s"
  by (simp add: newline_space)

lemma hex_val_digit: "d < 16 \<Longrightarrow> hex_val (digit_char d) = Some d"
  by (auto simp: hex_val_def digit_char_def of_char_of Let_def)

lemma char_eq_code: "c = d \<longleftrightarrow> (of_char c :: nat) = of_char d"
  by simp

lemma parse_escape: "parse_chars (json_escape c @ t) = push_char (Some c) (parse_chars t)"
proof -
  let ?n = "of_char c :: nat"
  consider "c = CHR 0x22" | "c = CHR 0x5C" | "c = CHR 0x08" | "c = CHR 0x09" | "c = CHR 0x0A" | "c = CHR 0x0C" | "c = CHR 0x0D"
    | "?n < 32" "?n \<notin> {8, 9, 10, 12, 13}" | "32 \<le> ?n" "?n \<noteq> 34" "?n \<noteq> 92"
    by (simp only: char_eq_code) fastforce
  then show ?thesis
  proof cases
    case 8
    have "hex4 CHR ''0'' CHR ''0'' (digit_char (?n div 16)) (digit_char (?n mod 16)) = Some c"
      using 8 by (simp add: hex4_def hex_val_digit) (simp add: hex_val_def)
    then show ?thesis using 8 by (simp add: json_escape_def Let_def)
  next
    case 9
    then have "c \<noteq> CHR 0x22" "c \<noteq> CHR 0x5C" by auto
    then show ?thesis using 9 by (simp add: json_escape_def Let_def)
  qed (simp_all add: json_escape_def unescape_def)
qed

lemma parse_chars_string: "parse_chars (concat (map json_escape s) @ CHR 0x22 # rest) = Some (s, rest)"
  by (induction s) (simp_all add: parse_escape push_char_def)

lemma digits_of_nat: "list_all is_digit (show_nat n)"
proof -
  have "is_digit c" if c: "c \<in> set (show_nat n)" for c
  proof -
    obtain d where "d < 10" "c = digit_char d" using show_base_chars [of 10 c n] c by auto
    then show ?thesis by (simp add: is_digit_def digit_char_def of_char_of)
  qed
  then show ?thesis by (simp add: list_all_iff)
qed

lemma show_nat_Nil [simp]: "show_nat n \<noteq> []"
  by (subst show_base.simps) auto

lemma show_nat_hd: "9 < n \<Longrightarrow> hd (show_nat n) \<noteq> CHR ''0''"
proof (induction n rule: less_induct)
  case (less n)
  show ?case
  proof (cases "n div 10 < 10")
    case True
    moreover have "0 < n div 10" using less.prems by simp
    ultimately show ?thesis using less.prems
      by (simp add: show_base_step) (simp add: digit_char_def char_eq_code of_char_of)
  next
    case False
    then show ?thesis using less by (simp add: show_base_step)
  qed
qed

lemma show_nat_no_zero: "length (show_nat n) \<le> 1 \<or> hd (show_nat n) \<noteq> CHR ''0''"
  using show_nat_hd [of n] show_base_small [of n 10] by (cases "n < 10") auto

definition no_digit :: "string \<Rightarrow> bool" where
  "no_digit rest \<longleftrightarrow> rest = [] \<or> \<not> is_digit (hd rest)"

lemma parse_num_int: "no_digit rest \<Longrightarrow> parse_num (show_int n @ rest) = Some (JNum n, rest)"
proof -
  assume rest: "no_digit rest"
  have ds: "takeWhile is_digit (show_nat m @ rest) = show_nat m" "dropWhile is_digit (show_nat m @ rest) = rest" for m
    using digits_of_nat [of m] rest
    by (auto simp: list_all_iff takeWhile_append dropWhile_append no_digit_def takeWhile_eq_Nil_iff dropWhile_eq_self_iff)
  have neg: "hd (show_nat m @ rest) \<noteq> CHR ''-''" for m
  proof -
    have "is_digit (hd (show_nat m))" using digits_of_nat [of m] by (simp add: list_all_iff)
    then show ?thesis by (auto simp: is_digit_def)
  qed
  show ?thesis
    using ds neg [of "nat n"] show_nat_no_zero [of "nat n"] show_nat_no_zero [of "nat (- n)"]
    by (auto simp: parse_num_def show_int_def Let_def)
qed

fun jneed :: "json \<Rightarrow> nat" where
  "jneed (JArr vs) = Suc (sum_list (map (\<lambda>v. Suc (jneed v)) vs))"
| "jneed (JObj ms) = Suc (sum_list (map (\<lambda>m. Suc (jneed (snd m))) ms))"
| "jneed _ = 1"

lemma length_join_with:
  "ws \<noteq> [] \<Longrightarrow> 1 \<le> length sep \<Longrightarrow> sum_list (map (\<lambda>w. Suc (length w)) ws) \<le> Suc (length (join_with sep ws))"
  by (induction ws) (auto simp: join_with_Cons)

lemma show_int_length: "1 \<le> length (show_int n)"
  using show_nat_Nil by (simp add: show_int_def Suc_le_eq)

lemma jneed_le: "jneed j \<le> length (print_json g l j)"
proof (induction j arbitrary: l)
  case (JNum n)
  then show ?case using show_int_length by simp
next
  case (JArr vs)
  have "sum_list (map (\<lambda>v. Suc (jneed v)) vs) \<le> sum_list (map (\<lambda>v. Suc (length (print_json g (Suc l) v))) vs)"
    using JArr by (intro sum_list_mono) auto
  moreover have "sum_list (map (\<lambda>v. Suc (length (print_json g (Suc l) v))) vs)
      \<le> Suc (length (join_with ('','' @ newline g (Suc l)) (map (print_json g (Suc l)) vs)))" if "vs \<noteq> []"
    using that length_join_with [of "map (print_json g (Suc l)) vs" "'','' @ newline g (Suc l)"]
    by (simp add: o_def)
  ultimately show ?case by auto
next
  case (JObj ms)
  let ?p = "\<lambda>m. json_string (fst m) @ colon g @ print_json g (Suc l) (snd m)"
  have "jneed (snd m) \<le> length (?p m)" if "m \<in> set ms" for m
    using JObj [of m "snd m" "Suc l"] that by (cases m) auto
  then have "sum_list (map (\<lambda>m. Suc (jneed (snd m))) ms) \<le> sum_list (map (\<lambda>m. Suc (length (?p m))) ms)"
    by (intro sum_list_mono) auto
  moreover have "sum_list (map (\<lambda>m. Suc (length (?p m))) ms)
      \<le> Suc (length (join_with ('','' @ newline g (Suc l)) (map ?p ms)))" if "ms \<noteq> []"
    using that length_join_with [of "map ?p ms" "'','' @ newline g (Suc l)"]
    by (simp add: o_def)
  ultimately show ?case by auto
qed (auto simp: json_string_def)

lemma not_space [simp]:
  "\<not> json_space CHR '',''" "\<not> json_space CHR '']''" "\<not> json_space CHR ''}''" "\<not> json_space CHR 0x22" "\<not> json_space CHR '':''"
  "\<not> json_space CHR ''[''" "\<not> json_space CHR ''{''"
  by (simp_all add: json_space_def)

lemma skip_string [simp]: "skip_ws (json_string k @ s) = json_string k @ s" "prefix [CHR 0x22] (json_string k @ s)"
  by (simp_all add: json_string_def)

text \<open>The first character of a printed value.\<close>

lemma print_first:
  "\<exists>c cs. print_json g l j = c # cs \<and> \<not> json_space c \<and> c \<noteq> CHR '']''"
proof (cases j)
  case (JNum n)
  have "\<not> json_space c \<and> c \<noteq> CHR '']''" if "is_digit c" for c
    using that by (auto simp: is_digit_def json_space_def)
  then show ?thesis
    using JNum digits_of_nat [of "nat n"] show_nat_Nil [of "nat n"]
    by (cases "show_nat (nat n)") (auto simp: show_int_def json_space_def)
qed (auto simp: json_string_def json_space_def)

lemma skip_print [simp]: "skip_ws (print_json g l j @ rest) = print_json g l j @ rest"
  using print_first [of g l j] by auto

lemma no_digit_simps [simp]:
  "no_digit (CHR '','' # s)" "no_digit (CHR '']'' # s)" "no_digit (CHR ''}'' # s)" "no_digit []"
  by (auto simp: no_digit_def is_digit_def)

lemma no_digit_newline: "list_all json_space g \<Longrightarrow> no_digit s \<Longrightarrow> no_digit (newline g l @ s)"
  by (cases "newline g l") (auto simp: no_digit_def newline_def is_digit_def split: if_splits)

lemma parse_value_ws: "parse_value f (skip_ws s) = parse_value f s"
proof (cases f)
  case (Suc f')
  have "skip_ws (skip_ws s) = skip_ws s"
    by (induction s) auto
  then show ?thesis using Suc by simp
qed simp

lemma parse_value_newline: "list_all json_space g \<Longrightarrow> parse_value f (newline g l @ s) = parse_value f s"
  using parse_value_ws [of f "newline g l @ s"] parse_value_ws [of f s] by simp

lemma parse_members_newline: "list_all json_space g \<Longrightarrow> parse_members f (newline g l @ s) = parse_members f s"
  by (cases f) simp_all

lemma parse_elems_newline: "list_all json_space g \<Longrightarrow> parse_elems f (newline g l @ s) = parse_elems f s"
  by (cases f) (simp_all add: parse_value_newline)

definition reads_back :: "string \<Rightarrow> json \<Rightarrow> bool" where
  "reads_back g j \<longleftrightarrow>
     (\<forall>f l rest. jneed j \<le> f \<longrightarrow> no_digit rest \<longrightarrow> parse_value f (print_json g l j @ rest) = Some (j, rest))"

lemma parse_elems_print:
  assumes "list_all json_space g" "vs \<noteq> []" "\<forall>v \<in> set vs. reads_back g v"
    and "sum_list (map (\<lambda>v. Suc (jneed v)) vs) \<le> f"
  shows "parse_elems f (join_with ('','' @ newline g l) (map (print_json g l) vs) @ newline g l' @ '']'' @ rest)
    = Some (vs, rest)"
  using assms(2-)
proof (induction vs arbitrary: f)
  case Nil
  then show ?case by simp
next
  case (Cons v vs)
  obtain f' where f: "f = Suc f'" "jneed v \<le> f'" "sum_list (map (\<lambda>v. Suc (jneed v)) vs) \<le> f'"
    using Cons.prems(3) by (cases f) auto
  have v: "parse_value f' (print_json g l v @ s) = Some (v, s)" if "no_digit s" for s
    using Cons.prems(2) f(2) that by (simp add: reads_back_def)
  show ?case
  proof (cases "vs = []")
    case True
    then show ?thesis using assms(1) v by (simp add: f(1) no_digit_newline)
  next
    case False
    then have "parse_elems f' (join_with ('','' @ newline g l) (map (print_json g l) vs) @ newline g l' @ '']'' @ rest)
        = Some (vs, rest)"
      using Cons f(3) by simp
    then show ?thesis
      using False v assms(1) by (simp add: f(1) join_with_Cons parse_elems_newline)
  qed
qed

lemma json_string_parse: "parse_chars (tl (json_string k @ s)) = Some (k, s)"
  using parse_chars_string [of k s] by (simp add: json_string_def)

lemma parse_members_print:
  assumes "list_all json_space g" "ms \<noteq> []" "\<forall>m \<in> set ms. reads_back g (snd m)"
    and "sum_list (map (\<lambda>m. Suc (jneed (snd m))) ms) \<le> f"
  shows "parse_members f (join_with ('','' @ newline g l)
      (map (\<lambda>m. json_string (fst m) @ colon g @ print_json g l (snd m)) ms) @ newline g l' @ ''}'' @ rest)
    = Some (ms, rest)"
  using assms(2-)
proof (induction ms arbitrary: f)
  case Nil
  then show ?case by simp
next
  case (Cons m ms)
  let ?p = "\<lambda>m. json_string (fst m) @ colon g @ print_json g l (snd m)"
  obtain f' where f: "f = Suc f'" "jneed (snd m) \<le> f'" "sum_list (map (\<lambda>m. Suc (jneed (snd m))) ms) \<le> f'"
    using Cons.prems(3) by (cases f) auto
  have "parse_value f' (print_json g l (snd m) @ s) = Some (snd m, s)" if "no_digit s" for s
    using Cons.prems(2) f(2) that by (simp add: reads_back_def)
  moreover have "skip_ws (colon g @ s) = CHR '':'' # tl (colon g) @ s" for s
    by (simp add: colon_def json_space_def)
  moreover have "parse_value f' (tl (colon g) @ s) = parse_value f' s" for s
    using parse_value_ws [of f' "tl (colon g) @ s"] parse_value_ws [of f' s] by (auto simp: colon_def json_space_def split: if_splits)
  ultimately have v: "parse_members f (?p m @ s) =
      (let u = skip_ws s in
       if prefix '','' u then map_option (\<lambda>(ms, r'). (m # ms, r')) (parse_members f' (tl u))
       else if prefix ''}'' u then Some ([m], tl u) else None)" if "no_digit s" for s
    using that json_string_parse [of "fst m" "colon g @ print_json g l (snd m) @ s"]
    by (simp add: f(1) Let_def)
  show ?case
  proof (cases "ms = []")
    case True
    then show ?thesis using assms(1) v [of "newline g l' @ ''}'' @ rest"]
      by (simp add: no_digit_newline json_space_def)
  next
    case False
    then have "parse_members f' (join_with ('','' @ newline g l) (map ?p ms) @ newline g l' @ ''}'' @ rest)
        = Some (ms, rest)"
      using Cons f(3) by simp
    then show ?thesis
      using False assms(1)
        v [of "'','' @ newline g l @ join_with ('','' @ newline g l) (map ?p ms) @ newline g l' @ ''}'' @ rest"]
      by (simp add: join_with_Cons parse_members_newline json_space_def)
  qed
qed

lemma print_not_bracket: "\<not> prefix '']'' (print_json g l j @ rest)"
  using print_first [of g l j] by auto

lemma show_int_first: "\<exists>c cs. show_int n = c # cs \<and> (c = CHR ''-'' \<or> is_digit c)"
  using digits_of_nat [of "nat n"] show_nat_Nil [of "nat n"]
  by (cases "show_nat (nat n)") (auto simp: show_int_def)

lemma join_first:
  "ws \<noteq> [] \<Longrightarrow> \<exists>s. join_with sep ws = hd ws @ s"
  by (cases ws rule: list.exhaust [case_names Nil Cons]) (auto simp: join_with_Cons)

lemma print_reads_back: "list_all json_space g \<Longrightarrow> reads_back g j"
proof (induction j)
  case JNull
  show ?case unfolding reads_back_def by (auto simp: Suc_le_eq gr0_conv_Suc json_space_def)
next
  case (JBool b)
  show ?case unfolding reads_back_def by (cases b) (auto simp: Suc_le_eq gr0_conv_Suc json_space_def)
next
  case (JNum n)
  obtain c cs where c: "show_int n = c # cs" "c = CHR ''-'' \<or> is_digit c" using show_int_first by blast
  then have "\<not> json_space c" "c \<notin> {CHR ''n'', CHR ''t'', CHR ''f'', CHR 0x22, CHR ''['', CHR ''{''}"
    by (auto simp: is_digit_def json_space_def)
  then show ?case
    unfolding reads_back_def using parse_num_int [of _ n] c(1)
    by (auto simp: Suc_le_eq gr0_conv_Suc)
next
  case (JStr s)
  show ?case
    unfolding reads_back_def using parse_chars_string [of s]
    by (auto simp: Suc_le_eq gr0_conv_Suc json_string_def)
next
  case (JArr vs)
  show ?case
    unfolding reads_back_def
  proof (intro allI impI)
    fix f l rest
    assume need: "jneed (JArr vs) \<le> f" and rest: "no_digit rest"
    obtain f' where f: "f = Suc f'" using need by (cases f) auto
    show "parse_value f (print_json g l (JArr vs) @ rest) = Some (JArr vs, rest)"
    proof (cases "vs = []")
      case True
      then show ?thesis by (simp add: f)
    next
      case False
      let ?body = "join_with ('','' @ newline g (Suc l)) (map (print_json g (Suc l)) vs)"
      have "parse_elems f' (newline g (Suc l) @ ?body @ newline g l @ '']'' @ rest) = Some (vs, rest)"
        using JArr False need f parse_elems_print [of g vs f' "Suc l" l rest] by (simp add: parse_elems_newline)
      moreover obtain s where s: "?body = print_json g (Suc l) (hd vs) @ s"
        using join_first [of "map (print_json g (Suc l)) vs"] False by (auto simp: hd_map)
      have "\<not> prefix '']'' (skip_ws (newline g (Suc l) @ ?body @ newline g l @ '']'' @ rest))"
        unfolding s skip_newline [OF JArr.prems] using print_not_bracket by simp
      ultimately show ?thesis using False by (simp add: f)
    qed
  qed
next
  case (JObj ms)
  show ?case
    unfolding reads_back_def
  proof (intro allI impI)
    fix f l rest
    assume need: "jneed (JObj ms) \<le> f" and rest: "no_digit rest"
    obtain f' where f: "f = Suc f'" using need by (cases f) auto
    show "parse_value f (print_json g l (JObj ms) @ rest) = Some (JObj ms, rest)"
    proof (cases "ms = []")
      case True
      then show ?thesis by (simp add: f)
    next
      case False
      let ?p = "\<lambda>m. json_string (fst m) @ colon g @ print_json g (Suc l) (snd m)"
      let ?body = "join_with ('','' @ newline g (Suc l)) (map ?p ms)"
      have "\<forall>m \<in> set ms. reads_back g (snd m)" using JObj by (metis prod.collapse snds.intros)
      then have "parse_members f' (newline g (Suc l) @ ?body @ newline g l @ ''}'' @ rest) = Some (ms, rest)"
        using JObj.prems False need f parse_members_print [of g ms f' "Suc l" l rest]
        by (simp add: parse_members_newline)
      moreover obtain s where s: "?body = json_string (fst (hd ms)) @ s"
        using join_first [of "map ?p ms"] False by (auto simp: hd_map)
      have "\<not> prefix ''}'' (skip_ws (newline g (Suc l) @ ?body @ newline g l @ ''}'' @ rest))"
        unfolding s skip_newline [OF JObj.prems] by (simp add: json_string_def)
      ultimately show ?thesis using False by (simp add: f)
    qed
  qed
qed

lemma parse_print_json [simp]:
  assumes "list_all json_space g"
  shows "parse_json (print_json g l j) = Some j"
proof -
  have "jneed j \<le> Suc (length (print_json g l j))" using jneed_le [of j g l] by simp
  then have "parse_value (Suc (length (print_json g l j))) (print_json g l j @ []) = Some (j, [])"
    using print_reads_back [OF assms, of j] no_digit_simps(4) unfolding reads_back_def by blast
  then show ?thesis by (simp add: parse_json_def)
qed

section \<open>Stored values\<close>

text \<open>
  What a component relies on when it stores its values as text: it reads back what it wrote.
\<close>

locale text_codec =
  fixes encode :: "'v \<Rightarrow> string" and decode :: "string \<Rightarrow> 'v option"
  assumes decode_encode: "decode (encode v) = Some v"
begin

lemma encode_inj: "encode v = encode w \<longleftrightarrow> v = w"
  by (metis decode_encode option.inject)

lemma encode_inj_on: "inj encode"
  by (simp add: inj_def encode_inj)

end

interpretation json_text: text_codec stringify parse_json
  by unfold_locales simp

end
