(* ===== verification/Store_Format.thy ===== *)
theory Store_Format
  imports IdbFs Json
begin

text \<open>
  The version stamp of a store (\<open>packages/storage/src/format.ts\<close>): \<open>/.tactile/format.json\<close>, written on
  the first start and checked on every later one. The text of \<open>new Date().toISOString()\<close> is a
  parameter. The lemmas hold for every backend that keeps the contract.
\<close>

section \<open>The stamp\<close>

definition STORAGE_FORMAT_VERSION :: int where
  "STORAGE_FORMAT_VERSION = 1"

definition FORMAT_META_PATH :: string where
  "FORMAT_META_PATH = ''/.tactile/format.json''"

record format_meta =
  fm_version :: int
  fm_json :: json

definition format_json :: "string \<Rightarrow> string \<Rightarrow> json" where
  "format_json nm createdAt =
     JObj [(''version'', JNum STORAGE_FORMAT_VERSION), (''backend'', JStr nm), (''createdAt'', JStr createdAt)]"

definition parse_meta :: "string \<Rightarrow> format_meta option" where
  "parse_meta t =
     (case parse_json t of None \<Rightarrow> None
      | Some j \<Rightarrow> (case member ''version'' j of Some (JNum v) \<Rightarrow> Some \<lparr>fm_version = v, fm_json = j\<rparr> | _ \<Rightarrow> None))"

definition readFormatMeta :: "'s backend \<Rightarrow> ('s, format_meta option) act" where
  "readFormatMeta B =
     acatch (abind (readTextFile B FORMAT_META_PATH no_options) (\<lambda>t. aret (parse_meta t))) (\<lambda>_. aret None)"

definition writeFormatMeta :: "'s backend \<Rightarrow> string \<Rightarrow> ('s, format_meta) act" where
  "writeFormatMeta B createdAt =
     (let meta = \<lparr>fm_version = STORAGE_FORMAT_VERSION, fm_json = format_json (be_name B) createdAt\<rparr> in
      athen (mkdir B ''/.tactile'' recursively)
      (athen (writeTextFile B FORMAT_META_PATH (print_json ''  '' 0 (fm_json meta)) (no_options\<lparr>keepVersion := Some False\<rparr>))
      (aret meta)))"

definition ensureFormatVersion :: "'s backend \<Rightarrow> string \<Rightarrow> ('s, format_meta) act" where
  "ensureFormatVersion B createdAt =
     abind (readFormatMeta B) (\<lambda>meta.
       case meta of
         None \<Rightarrow> writeFormatMeta B createdAt
       | Some m \<Rightarrow>
           if fm_version m > STORAGE_FORMAT_VERSION
           then athrow (JsError ''Storage format is newer than this app supports'')
           else aret m)"

section \<open>Lemmas\<close>

lemma meta_path: "path_ok FORMAT_META_PATH" "norm_segs FORMAT_META_PATH = [''.tactile'', ''format.json'']"
  "path_ok ''/.tactile''" "norm_segs ''/.tactile'' = [''.tactile'']"
  by (simp_all add: FORMAT_META_PATH_def path_ok_def norm_segs_def)

lemma parse_format_json:
  "parse_meta (print_json ''  '' 0 (format_json nm at)) = Some \<lparr>fm_version = STORAGE_FORMAT_VERSION, fm_json = format_json nm at\<rparr>"
  by (simp add: parse_meta_def json_space_def) (simp add: format_json_def)

definition stamp_of :: "tree \<Rightarrow> format_meta option" where
  "stamp_of t = (case t [''.tactile'', ''format.json''] of Some (FileN b) \<Rightarrow> parse_meta (utf8_decode b) | _ \<Rightarrow> None)"

context storage_backend
begin

lemma readFormatMeta_eval: "inv s \<Longrightarrow> readFormatMeta B s = (Inr (stamp_of (fs s)), s)"
  by (simp add: readFormatMeta_def act_simps readText_law meta_path read_error_def stamp_of_def
      split: option.split node.split)

lemma ensure_present:
  "inv s \<Longrightarrow> stamp_of (fs s) = Some m \<Longrightarrow> ensureFormatVersion B at s =
     (if fm_version m > STORAGE_FORMAT_VERSION
      then Inl (JsError ''Storage format is newer than this app supports'') else Inr m, s)"
  by (simp add: ensureFormatVersion_def act_simps readFormatMeta_eval)

lemma ensure_absent:
  assumes "inv s" "stamp_of (fs s) = None" "fs s [''.tactile''] \<in> {None, Some DirN}"
    "fs s [''.tactile'', ''format.json''] \<noteq> Some DirN"
  obtains s' m where "ensureFormatVersion B at s = (Inr m, s')" "inv s'" "stamp_of (fs s') = Some m"
    "fm_version m = STORAGE_FORMAT_VERSION"
    "\<forall>q. q \<notin> {[''.tactile''], [''.tactile'', ''format.json'']} \<longrightarrow> fs s' q = fs s q"
proof -
  note root = tree_okD(2) [OF tree_ok [OF assms(1)]]
  have "mkdir_error True (fs s) [''.tactile''] = None"
    using assms(3) root by (auto simp: mkdir_error_def)
  then obtain s1 where s1: "mkdir B ''/.tactile'' recursively s = (Inr (), s1)" "inv s1"
      "fs s1 = mkdirs [''.tactile''] (fs s)"
    using mkdir_ok [OF assms(1) meta_path(3), of recursively] by (auto simp: meta_path)
  have "write_error (fs s1) [''.tactile'', ''format.json''] = None"
    using assms(4) by (simp add: s1(3) write_error_def mkdirs_def)
  then obtain s2 where s2: "writeTextFile B FORMAT_META_PATH (print_json ''  '' 0 (format_json (be_name B) at))
        (no_options\<lparr>keepVersion := Some False\<rparr>) s1 = (Inr (), s2)" "inv s2"
      "fs s2 = (fs s1)([''.tactile'', ''format.json''] \<mapsto>
        FileN (utf8_encode (print_json ''  '' 0 (format_json (be_name B) at))))"
    using write_text_ok [OF s1(2) meta_path(1), of "print_json ''  '' 0 (format_json (be_name B) at)"
      "no_options\<lparr>keepVersion := Some False\<rparr>"] by (auto simp: meta_path)
  let ?m = "\<lparr>fm_version = STORAGE_FORMAT_VERSION, fm_json = format_json (be_name B) at\<rparr>"
  have "ensureFormatVersion B at s = (Inr ?m, s2)"
    using assms(2) s1(1) s2(1)
    by (simp add: ensureFormatVersion_def act_simps readFormatMeta_eval [OF assms(1)] writeFormatMeta_def Let_def)
  moreover have "stamp_of (fs s2) = Some ?m" by (simp add: stamp_of_def s2(3) parse_format_json)
  moreover have "\<forall>q. q \<notin> {[''.tactile''], [''.tactile'', ''format.json'']} \<longrightarrow> fs s2 q = fs s q"
    using root by (auto simp: s2(3) s1(3) mkdirs_def prefix_Cons)
  ultimately show ?thesis using that s2(2) by simp
qed

end

section \<open>Property\<close>



end
