(* ===== verification/Encoding.thy ===== *)
theory Encoding
  imports Storage_Types
begin

text \<open>
  The byte and text codecs of \<open>packages/core/src/utils/encoding.ts\<close>: hexadecimal, base64 and its
  URL-safe form, and the 64-bit little-endian integer. \<open>parseInt\<close>, \<open>btoa\<close> and \<open>atob\<close> of the
  platform are written out, \<open>atob\<close> with its errors. The properties are the round trips.
\<close>

section \<open>Hexadecimal\<close>

definition hex_digit :: "char \<Rightarrow> nat option" where
  "hex_digit c =
     (let n = (of_char c :: nat) in
      if 48 \<le> n \<and> n \<le> 57 then Some (n - 48)
      else if 97 \<le> n \<and> n \<le> 102 then Some (n - 87)
      else if 65 \<le> n \<and> n \<le> 70 then Some (n - 55) else None)"

text \<open>
  \<open>parseInt(s, 16)\<close>: leading space, a sign, an optional \<open>0x\<close>, then the longest run of digits;
  \<open>None\<close> is \<open>NaN\<close>.
\<close>

fun hex_run :: "nat option \<Rightarrow> string \<Rightarrow> nat option" where
  "hex_run acc [] = acc"
| "hex_run acc (c # cs) =
     (case hex_digit c of
        None \<Rightarrow> acc
      | Some d \<Rightarrow> hex_run (Some ((case acc of None \<Rightarrow> 0 | Some a \<Rightarrow> a) * 16 + d)) cs)"

definition skip_0x :: "string \<Rightarrow> string" where
  "skip_0x s = (if starts_with s ''0x'' \<or> starts_with s ''0X'' then drop 2 s else s)"

definition parseInt16 :: "string \<Rightarrow> int option" where
  "parseInt16 s =
     (let t = dropWhile is_space s in
      if starts_with t ''-'' then map_option (\<lambda>n. - int n) (hex_run None (skip_0x (drop 1 t)))
      else map_option int (hex_run None (skip_0x (if starts_with t ''+'' then drop 1 t else t))))"

definition bytesToHex :: "bytes \<Rightarrow> string" where
  "bytesToHex bytes = concat (map (\<lambda>b. pad_start 2 CHR ''0'' (show_hex (unat b))) bytes)"

text \<open>Assigning to a \<open>Uint8Array\<close> keeps the value modulo 256, and \<open>NaN\<close> as 0.\<close>

definition hexToBytes :: "string \<Rightarrow> bytes" where
  "hexToBytes hex =
     map (\<lambda>i. case parseInt16 (take 2 (drop (i * 2) hex)) of None \<Rightarrow> 0 | Some n \<Rightarrow> word_of_int n)
       [0..<length hex div 2]"

section \<open>Base64\<close>

definition b64_char :: "nat \<Rightarrow> char" where
  "b64_char n =
     (if n < 26 then char_of (65 + n) else if n < 52 then char_of (71 + n)
      else if n < 62 then char_of (n - 4) else if n = 62 then CHR ''+'' else CHR ''/'')"

definition b64_value :: "char \<Rightarrow> nat option" where
  "b64_value c =
     (let n = (of_char c :: nat) in
      if 65 \<le> n \<and> n \<le> 90 then Some (n - 65)
      else if 97 \<le> n \<and> n \<le> 122 then Some (n - 71)
      else if 48 \<le> n \<and> n \<le> 57 then Some (n + 4)
      else if n = 43 then Some 62 else if n = 47 then Some 63 else None)"

fun sextets :: "nat list \<Rightarrow> nat list" where
  "sextets [] = []"
| "sextets [a] = [a div 4, a mod 4 * 16]"
| "sextets [a, b] = [a div 4, a mod 4 * 16 + b div 16, b mod 16 * 4]"
| "sextets (a # b # c # r) =
     a div 4 # (a mod 4 * 16 + b div 16) # (b mod 16 * 4 + c div 64) # c mod 64 # sextets r"

fun octets :: "nat list \<Rightarrow> nat list" where
  "octets (a # b # c # d # r) =
     (a * 4 + b div 16) # (b mod 16 * 16 + c div 4) # (c mod 4 * 64 + d) # octets r"
| "octets [a, b, c] = [a * 4 + b div 16, b mod 16 * 16 + c div 4]"
| "octets [a, b] = [a * 4 + b div 16]"
| "octets _ = []"

text \<open>\<open>btoa\<close> of a string of characters up to U+00FF, and \<open>atob\<close>, which throws on a bad input.\<close>

definition padding :: "nat \<Rightarrow> string" where
  "padding n = replicate ((4 - n mod 4) mod 4) CHR ''=''"

definition btoa :: "string \<Rightarrow> string" where
  "btoa s = (let t = map b64_char (sextets (map of_char s)) in t @ padding (length t))"

definition invalid_character :: js_error where
  "invalid_character = JsError ''InvalidCharacterError''"

definition drop_padding :: "string \<Rightarrow> string" where
  "drop_padding s =
     (if length s mod 4 \<noteq> 0 then s
      else if ends_with s ''=='' then take (length s - 2) s
      else if ends_with s ''='' then take (length s - 1) s else s)"

definition atob :: "string \<Rightarrow> string res" where
  "atob s =
     (let t = drop_padding (filter (\<lambda>c. \<not> (c = CHR '' '' \<or> (of_char c :: nat) \<in> {9, 10, 12, 13})) s) in
      if length t mod 4 = 1 then Inl invalid_character
      else if list_ex (\<lambda>c. b64_value c = None) t then Inl invalid_character
      else Inr (map char_of (octets (map (\<lambda>c. the (b64_value c)) t))))"

definition CHUNK :: nat where
  "CHUNK = 0x8000"

function binary_from :: "bytes \<Rightarrow> nat \<Rightarrow> string \<Rightarrow> string" where
  "binary_from bytes i binary =
     (if i < length bytes
      then binary_from bytes (i + CHUNK)
             (binary @ map (\<lambda>b. char_of (unat b)) (take CHUNK (drop i bytes)))
      else binary)"
  by pat_completeness auto
termination
  by (relation "measure (\<lambda>(bytes, i, binary). length bytes - i)") (auto simp: CHUNK_def)

declare binary_from.simps [simp del]

definition bytesToBase64 :: "bytes \<Rightarrow> string" where
  "bytesToBase64 bytes = btoa (binary_from bytes 0 [])"

definition base64ToBytes :: "string \<Rightarrow> bytes res" where
  "base64ToBytes b64 = res_bind (atob b64) (\<lambda>binary. Inr (map (\<lambda>c. word_of_nat (of_char c)) binary))"

definition replace_char :: "char \<Rightarrow> char \<Rightarrow> string \<Rightarrow> string" where
  "replace_char x y s = map (\<lambda>c. if c = x then y else c) s"

definition bytesToBase64Url :: "bytes \<Rightarrow> string" where
  "bytesToBase64Url bytes =
     rev (dropWhile (\<lambda>c. c = CHR ''='')
       (rev (replace_char CHR ''/'' CHR ''_'' (replace_char CHR ''+'' CHR ''-'' (bytesToBase64 bytes)))))"

definition base64UrlToBytes :: "string \<Rightarrow> bytes res" where
  "base64UrlToBytes b64url =
     (let b64 = replace_char CHR ''_'' CHR ''/'' (replace_char CHR ''-'' CHR ''+'' b64url) in
      base64ToBytes (b64 @ padding (length b64)))"

section \<open>Integers\<close>

text \<open>\<open>setBigInt64\<close>, little endian: the two's complement modulo \<open>2 ^ 64\<close>.\<close>

definition int64LE :: "int \<Rightarrow> bytes" where
  "int64LE value = map (\<lambda>i. word_of_int (value mod 2 ^ 64 div 256 ^ i)) [0..<8]"

section \<open>Lemmas\<close>

lemma of_char_digit: "d < 16 \<Longrightarrow> of_char (digit_char d) = (if d < 10 then 48 + d else 87 + d)"
  by (simp add: digit_char_def of_char_of)

lemma hex_digit_char [simp]: "d < 16 \<Longrightarrow> hex_digit (digit_char d) = Some d"
  by (simp add: hex_digit_def of_char_digit Let_def)

lemma char_eq_of_char: "c = d \<longleftrightarrow> (of_char c :: nat) = of_char d"
  by (metis char_of_char)

lemma digit_char_plain:
  assumes "d < 16"
  shows "\<not> is_space (digit_char d)" "digit_char d \<noteq> CHR ''-''" "digit_char d \<noteq> CHR ''+''"
    "digit_char d \<noteq> CHR ''x''" "digit_char d \<noteq> CHR ''X''"
  using assms by (auto simp: is_space_def of_char_digit Let_def char_eq_of_char)

lemma hex_zero_digit: "CHR ''0'' = digit_char 0"
  unfolding char_eq_of_char by (simp add: of_char_digit)

lemma hex_byte: "n < 256 \<Longrightarrow> pad_start 2 CHR ''0'' (show_hex n) = [digit_char (n div 16), digit_char (n mod 16)]"
proof (cases "n < 16")
  case True
  then show ?thesis by (simp add: pad_start_def hex_zero_digit)
next
  case False
  assume "n < 256"
  then have "n div 16 < 16" by simp
  then show ?thesis using False by (simp add: pad_start_def show_base_step)
qed

lemma parse_hex_pair:
  assumes "a < 16" "b < 16"
  shows "parseInt16 [digit_char a, digit_char b] = Some (int (a * 16 + b))"
  using digit_char_plain [OF assms(1)] digit_char_plain [OF assms(2)] assms
  by (simp add: parseInt16_def skip_0x_def)

lemma pairs_nth:
  "(\<And>x. x \<in> set xs \<Longrightarrow> length (f x) = 2) \<Longrightarrow> i < length xs \<Longrightarrow>
     take 2 (drop (i * 2) (concat (map f xs))) = f (xs ! i)"
proof (induction xs arbitrary: i)
  case (Cons x xs)
  then show ?case by (cases i) auto
qed simp

lemma b64_value_char [simp]: "n < 64 \<Longrightarrow> b64_value (b64_char n) = Some n"
proof -
  assume "n < 64"
  then consider "n < 26" | "26 \<le> n" "n < 52" | "52 \<le> n" "n < 62" | "n = 62" | "n = 63" by linarith
  then show ?thesis
    by cases (auto simp: b64_char_def b64_value_def Let_def of_char_of)
qed

lemma sextets_lt: "\<forall>b \<in> set bs. b < 256 \<Longrightarrow> \<forall>x \<in> set (sextets bs). x < 64"
proof (induction bs rule: sextets.induct)
  case (2 a)
  have "a mod 4 * 16 < 64" by simp
  with 2 show ?case by auto
next
  case (3 a b)
  have "a mod 4 < 4" "b mod 16 < 16" "b div 16 < 16" using 3 by auto
  then have "a mod 4 * 16 + b div 16 < 64" "b mod 16 * 4 < 64" by linarith+
  with 3 show ?case by auto
next
  case (4 a b c r)
  have "a mod 4 < 4" "b mod 16 < 16" "b div 16 < 16" "c div 64 < 4" using 4 by auto
  then have "a mod 4 * 16 + b div 16 < 64" "b mod 16 * 4 + c div 64 < 64" by linarith+
  with 4 show ?case by auto
qed simp

lemma split_div: "c < m \<Longrightarrow> (a * m + c) div m = a" "c < m \<Longrightarrow> (a * m + c) mod m = (c :: nat)"
  by simp_all

lemma octets_sextets: "\<forall>b \<in> set bs. b < 256 \<Longrightarrow> octets (sextets bs) = bs"
proof (induction bs rule: sextets.induct)
  case (2 a)
  have "a mod 4 * 16 div 16 = a mod 4" by simp
  then show ?case by simp
next
  case (3 a b)
  have "b div 16 < 16" using 3 by auto
  then show ?case by (simp add: split_div)
next
  case (4 a b c r)
  have "b div 16 < 16" "c div 64 < 4" using 4 by auto
  then show ?case using 4 by (simp add: split_div)
qed simp

lemma sextets_length: "length (sextets bs) mod 4 \<noteq> 1"
proof (induction bs rule: sextets.induct)
  case (4 a b c r)
  then show ?case by simp
qed simp_all

lemma b64_char_plain:
  assumes "n < 64"
  shows "b64_char n \<noteq> CHR ''=''" "b64_char n \<noteq> CHR ''-''" "b64_char n \<noteq> CHR ''_''"
    "b64_char n \<noteq> CHR '' ''" "of_char (b64_char n) \<notin> {9, 10, 12, 13 :: nat}"
proof -
  have "b64_value (b64_char n) = Some n" using assms by simp
  moreover have "b64_value CHR ''='' = None" "b64_value CHR ''-'' = None" "b64_value CHR ''_'' = None"
    "b64_value CHR '' '' = None"
    by (simp_all add: b64_value_def)
  moreover have "b64_value c = None" if "of_char c \<in> {9, 10, 12, 13 :: nat}" for c
    using that by (auto simp: b64_value_def Let_def)
  ultimately show "b64_char n \<noteq> CHR ''=''" "b64_char n \<noteq> CHR ''-''" "b64_char n \<noteq> CHR ''_''"
    "b64_char n \<noteq> CHR '' ''" "of_char (b64_char n) \<notin> {9, 10, 12, 13 :: nat}" by force+
qed

lemma binary_from_eq: "binary_from bs i acc = acc @ map (\<lambda>b. char_of (unat b)) (drop i bs)"
proof (induction "length bs - i" arbitrary: i acc rule: less_induct)
  case less
  show ?case
  proof (cases "i < length bs")
    case True
    have "drop i bs = take CHUNK (drop i bs) @ drop (i + CHUNK) bs"
      by (metis append_take_drop_id drop_drop add.commute)
    then have "map f (take CHUNK (drop i bs)) @ map f (drop (i + CHUNK) bs) = map f (drop i bs)" for f :: "8 word \<Rightarrow> char"
      by (metis map_append)
    then show ?thesis
      using less [of "i + CHUNK"] True by (subst binary_from.simps) (simp add: CHUNK_def)
  qed (simp add: binary_from.simps)
qed

definition b64_core :: "bytes \<Rightarrow> string" where
  "b64_core bs = map b64_char (sextets (map unat bs))"

lemma byte_lt: "unat (b :: 8 word) < 256"
  using unsigned_less [of b] by simp

lemma bytesToBase64_eq: "bytesToBase64 bs = b64_core bs @ padding (length (b64_core bs))"
  by (simp add: bytesToBase64_def binary_from_eq btoa_def b64_core_def Let_def comp_def of_char_of byte_lt)

lemma b64_core_chars: "c \<in> set (b64_core bs) \<Longrightarrow> \<exists>n < 64. c = b64_char n"
  using sextets_lt [of "map unat bs"] byte_lt by (auto simp: b64_core_def)

lemma suffix_replicate: "c \<notin> set xs \<Longrightarrow> suffix (replicate k c) (xs @ replicate j c) \<longleftrightarrow> k \<le> j"
proof
  assume c: "c \<notin> set xs" "suffix (replicate k c) (xs @ replicate j c)"
  show "k \<le> j"
  proof (rule ccontr)
    assume "\<not> k \<le> j"
    then have "replicate k c = replicate (k - j) c @ replicate j c" by (simp flip: replicate_add)
    then have "suffix (replicate (k - j) c) xs" using c(2) by simp
    then show False using c(1) \<open>\<not> k \<le> j\<close> by (auto simp: suffix_def)
  qed
next
  assume "k \<le> j"
  then have "replicate j c = replicate (j - k) c @ replicate k c" by (simp flip: replicate_add)
  then show "suffix (replicate k c) (xs @ replicate j c)" by (auto simp: suffix_def)
qed

lemma drop_padding_core:
  assumes "CHR ''='' \<notin> set s" "length s mod 4 \<noteq> 1"
  shows "drop_padding (s @ padding (length s)) = s"
proof -
  have "length s mod 4 < 4" by simp
  then consider "length s mod 4 = 0" | "length s mod 4 = 2" | "length s mod 4 = 3" using assms(2) by linarith
  then show ?thesis
  proof cases
    case 1
    then show ?thesis
      using assms(1) suffix_replicate [OF assms(1), of 2 0] suffix_replicate [OF assms(1), of 1 0]
      by (simp add: drop_padding_def padding_def numeral_2_eq_2)
  next
    case 2
    then have "(length s + 2) mod 4 = 0" by presburger
    then show ?thesis
      using 2 suffix_replicate [OF assms(1), of 2 2]
      by (simp add: drop_padding_def padding_def numeral_2_eq_2)
  next
    case 3
    then have "(length s + 1) mod 4 = 0" by presburger
    then show ?thesis
      using 3 suffix_replicate [OF assms(1), of 2 1] suffix_replicate [OF assms(1), of 1 1]
      by (simp add: drop_padding_def padding_def numeral_2_eq_2)
  qed
qed

lemma base64ToBytes_core:
  "base64ToBytes (b64_core bs @ padding (length (b64_core bs))) = Inr bs"
proof -
  let ?s = "b64_core bs"
  have plain: "c \<noteq> CHR ''='' \<and> c \<noteq> CHR '' '' \<and> of_char c \<notin> {9, 10, 12, 13 :: nat} \<and> b64_value c \<noteq> None"
    if "c \<in> set ?s" for c
    using b64_core_chars [OF that] b64_char_plain by auto
  have "filter (\<lambda>c. \<not> (c = CHR '' '' \<or> (of_char c :: nat) \<in> {9, 10, 12, 13})) (?s @ padding (length ?s))
      = ?s @ padding (length ?s)"
    using plain by (intro filter_True) (auto simp: padding_def)
  moreover have "length ?s mod 4 \<noteq> 1" using sextets_length by (simp add: b64_core_def)
  moreover have "CHR ''='' \<notin> set ?s" using plain by blast
  moreover have "\<not> list_ex (\<lambda>c. b64_value c = None) ?s" using plain by (auto simp: list_ex_iff)
  moreover have "map (\<lambda>c. the (b64_value c)) ?s = sextets (map unat bs)"
    using sextets_lt [of "map unat bs"] byte_lt by (auto simp: b64_core_def map_idI)
  moreover have "octets (sextets (map unat bs)) = map unat bs"
    using byte_lt by (intro octets_sextets) auto
  ultimately show ?thesis
    by (simp add: base64ToBytes_def atob_def Let_def drop_padding_core comp_def of_char_of byte_lt map_idI)
qed

lemma base64_both:
  "base64ToBytes (bytesToBase64 bs) = Inr bs \<and> base64UrlToBytes (bytesToBase64Url bs) = Inr bs
   \<and> set (bytesToBase64Url bs) \<inter> {CHR ''+'', CHR ''/'', CHR ''=''} = {}"
proof -
  let ?s = "b64_core bs"
  let ?u = "replace_char CHR ''/'' CHR ''_'' (replace_char CHR ''+'' CHR ''-'' ?s)"
  have eq: "CHR ''='' \<notin> set ?s" "CHR ''-'' \<notin> set ?s" "CHR ''_'' \<notin> set ?s"
    by (auto dest!: b64_core_chars dest: b64_char_plain(1-3) [THEN notE, OF _ sym])
  then have u: "CHR ''='' \<notin> set ?u" by (auto simp: replace_char_def)
  have pad: "replace_char x y (padding n) = padding n" if "x \<noteq> CHR ''=''" for x y n
    using that by (simp add: replace_char_def padding_def map_replicate_const)
  have strip: "rev (dropWhile (\<lambda>c. c = CHR ''='') (rev (?u @ padding n))) = ?u" for n
  proof -
    have "dropWhile (\<lambda>c. c = CHR ''='') (rev ?u) = rev ?u"
      unfolding dropWhile_eq_self_iff using u hd_in_set [of "rev ?u"] by (metis set_rev)
    moreover have "dropWhile (\<lambda>c. c = CHR ''='') (replicate k CHR ''='' @ t) = dropWhile (\<lambda>c. c = CHR ''='') t" for k t
      by (induction k) auto
    ultimately show ?thesis by (simp add: padding_def)
  qed
  have url: "bytesToBase64Url bs = ?u"
    unfolding bytesToBase64Url_def bytesToBase64_eq
    using strip pad by (simp add: replace_char_def)
  have restored: "replace_char CHR ''_'' CHR ''/'' (replace_char CHR ''-'' CHR ''+'' ?u) = ?s"
    unfolding replace_char_def map_map by (rule map_idI) (use eq in auto)
  have "base64UrlToBytes (bytesToBase64Url bs) = Inr bs"
    using base64ToBytes_core [of bs] by (simp add: base64UrlToBytes_def url restored)
  moreover have "set (bytesToBase64Url bs) \<inter> {CHR ''+'', CHR ''/'', CHR ''=''} = {}"
    unfolding url using u by (auto simp: replace_char_def)
  ultimately show ?thesis using base64ToBytes_core bytesToBase64_eq by simp
qed

lemma base64_reads_back [simp]:
  "base64ToBytes (bytesToBase64 bs) = Inr bs" "base64UrlToBytes (bytesToBase64Url bs) = Inr bs"
  using base64_both by blast+

lemma base64Url_plain: "set (bytesToBase64Url bs) \<inter> {CHR ''+'', CHR ''/'', CHR ''=''} = {}"
  using base64_both by blast

lemma bytesToBase64_inj [simp]: "bytesToBase64 a = bytesToBase64 b \<longleftrightarrow> a = b"
  using base64_reads_back(1) by (metis sum.inject(2))

lemma hex_both:
  "hexToBytes (bytesToHex bs) = bs \<and> length (bytesToHex bs) = 2 * length bs
   \<and> list_all (\<lambda>c. \<exists>d < 16. c = digit_char d) (bytesToHex bs)"
proof -
  let ?f = "\<lambda>b :: 8 word. pad_start 2 CHR ''0'' (show_hex (unat b))"
  have f: "?f b = [digit_char (unat b div 16), digit_char (unat b mod 16)]" for b
    using hex_byte [OF byte_lt] by simp
  have len: "length (bytesToHex bs) = 2 * length bs"
    unfolding bytesToHex_def f by (induction bs) auto
  have d: "unat b div 16 < 16" "unat b mod 16 < 16" for b :: "8 word" using byte_lt [of b] by auto
  have "take 2 (drop (i * 2) (bytesToHex bs)) = ?f (bs ! i)" if "i < length bs" for i
    unfolding bytesToHex_def using that by (intro pairs_nth) (simp_all add: f)
  then have "hexToBytes (bytesToHex bs) = map (\<lambda>i. word_of_nat (unat (bs ! i))) [0..<length bs]"
    unfolding hexToBytes_def using len by (auto simp: f parse_hex_pair [OF d] simp flip: of_nat_mult of_nat_add)
  then have "hexToBytes (bytesToHex bs) = bs" by (simp add: map_nth)
  moreover have "list_all (\<lambda>c. \<exists>d < 16. c = digit_char d) (bytesToHex bs)"
  proof -
    have "\<exists>d < 16. digit_char n = digit_char d" if "n < 16" for n using that by blast
    then show ?thesis using d unfolding bytesToHex_def f list_all_iff by simp
  qed
  ultimately show ?thesis using len by blast
qed

lemma hex_reads_back:
  "hexToBytes (bytesToHex bs) = bs" "length (bytesToHex bs) = 2 * length bs"
  "list_all (\<lambda>c. \<exists>d < 16. c = digit_char d) (bytesToHex bs)"
  using hex_both [of bs] by blast+

section \<open>Properties\<close>

text \<open>
  Hexadecimal text reads back to the bytes it was made from, has two characters for each byte,
  and uses lower-case digits only.
\<close>

theorem hex_roundtrip:
  "hexToBytes (bytesToHex bs) = bs \<and> length (bytesToHex bs) = 2 * length bs
   \<and> list_all (\<lambda>c. \<exists>d < 16. c = digit_char d) (bytesToHex bs)"
  using hex_reads_back [of bs] by blast

text \<open>
  Base64 and its URL-safe form read back to the bytes they were made from, and the URL-safe
  form contains no \<open>+\<close>, \<open>/\<close> or \<open>=\<close>.
\<close>

theorem base64_roundtrip:
  "base64ToBytes (bytesToBase64 bs) = Inr bs \<and> base64UrlToBytes (bytesToBase64Url bs) = Inr bs
   \<and> set (bytesToBase64Url bs) \<inter> {CHR ''+'', CHR ''/'', CHR ''=''} = {}"
  using base64_reads_back [of bs] base64Url_plain [of bs] by simp

text \<open>
  \<open>int64LE\<close> is the little-endian two's complement of its argument: eight bytes whose value in
  base 256, least significant first, is the argument modulo \<open>2 ^ 64\<close>.
\<close>

theorem int64LE_value:
  "length (int64LE v) = 8 \<and> (\<Sum>i < 8. int (unat (int64LE v ! i)) * 256 ^ i) = v mod 2 ^ 64"
proof -
  define m where "m = v mod 2 ^ 64"
  have m: "0 \<le> m" "m < 2 ^ 64" by (simp_all add: m_def)
  have byte: "uint (word_of_int x :: 8 word) = x mod 256" for x :: int
    by (simp add: uint_word_of_int)
  have nth: "int (unat (int64LE v ! i)) = m div 256 ^ i mod 256" if "i < 8" for i
    using that unfolding int64LE_def m_def [symmetric] by (simp add: byte)
  have "(\<Sum>i < 8. int (unat (int64LE v ! i)) * 256 ^ i) = (\<Sum>i < 8. m div 256 ^ i mod 256 * 256 ^ i)"
    using nth by simp
  also have "\<dots> = m"
  proof -
    have "(\<Sum>i < k. m div 256 ^ i mod 256 * 256 ^ i) = m mod 256 ^ k" for k :: nat
    proof (induction k)
      case (Suc k)
      have "m mod (256 ^ k * 256) = 256 ^ k * (m div 256 ^ k mod 256) + m mod 256 ^ k"
        by (rule zmod_zmult2_eq) simp
      with Suc show ?case by (simp add: mult.commute)
    qed simp
    from this [of 8] show ?thesis using m by simp
  qed
  finally show ?thesis by (simp add: int64LE_def m_def)
qed

end
