(* ===== verification/Zip.thy ===== *)
theory Zip
  imports Storage_Types
begin

text \<open>
  The ZIP writer (\<open>packages/core/src/utils/zip.ts\<close>): the table-driven CRC, the sanitised and
  deduplicated names, and the archive as a list of bytes written in order. The properties are the
  agreement of the table-driven CRC with the bitwise one, the uniqueness and safety of the names, and
  that a reader which follows the format finds every entry.
\<close>

unbundle bit_operations_syntax

section \<open>Checksums\<close>

definition crc_step :: "32 word \<Rightarrow> 32 word" where
  "crc_step c = (if bit c 0 then 0xedb88320 XOR drop_bit 1 c else drop_bit 1 c)"

definition crc_entry :: "nat \<Rightarrow> 32 word" where
  "crc_entry n = (crc_step ^^ 8) (word_of_nat n)"

definition CRC_TABLE :: "32 word list" where
  "CRC_TABLE = map crc_entry [0..<256]"

fun crc_loop :: "32 word \<Rightarrow> bytes \<Rightarrow> 32 word" where
  "crc_loop crc [] = crc"
| "crc_loop crc (b # data) =
     crc_loop (CRC_TABLE ! unat ((crc XOR ucast b) AND 0xff) XOR drop_bit 8 crc) data"

definition crc32 :: "bytes \<Rightarrow> 32 word" where
  "crc32 data = crc_loop 0xffffffff data XOR 0xffffffff"

section \<open>Names and dates\<close>

definition sanitizeName :: "string \<Rightarrow> string" where
  "sanitizeName nm =
     join_with ''/'' (filter (\<lambda>segment. segment \<noteq> '''' \<and> segment \<noteq> ''.'' \<and> segment \<noteq> ''..'')
       (split_on CHR ''/'' (map (\<lambda>c. if c = CHR 0x5C then CHR ''/'' else c) nm)))"

record js_date =
  fullYear :: int
  month :: nat
  day :: nat
  hours :: nat
  minutes :: nat
  seconds :: nat

definition dos_time :: "js_date \<Rightarrow> nat" where
  "dos_time d = push_bit 11 (hours d) OR push_bit 5 (minutes d) OR (seconds d div 2)"

definition dos_date :: "js_date \<Rightarrow> nat" where
  "dos_date d = push_bit 9 (nat (max 0 (fullYear d - 1980))) OR push_bit 5 (month d + 1) OR day d"

record zip_entry =
  ze_name :: string
  ze_data :: bytes
  ze_modified :: "js_date option"

record prepared =
  nameBytes :: bytes
  pr_data :: bytes
  pr_crc :: "32 word"
  pr_time :: nat
  pr_date :: nat

definition numbered_name :: "string \<Rightarrow> string \<Rightarrow> nat \<Rightarrow> string" where
  "numbered_name stem ext i = stem @ '' ('' @ show_nat i @ '')'' @ ext"

definition unique_name :: "string list \<Rightarrow> string \<Rightarrow> string" where
  "unique_name usedNames nm =
     (if nm \<in> set usedNames
      then let dot = last_index_of CHR ''.'' nm;
               stem = (case dot of Some d \<Rightarrow> if d > 0 then take d nm else nm | None \<Rightarrow> nm);
               ext = (case dot of Some d \<Rightarrow> if d > 0 then drop d nm else '''' | None \<Rightarrow> '''')
           in case first_free (Suc (length usedNames)) (\<lambda>i. numbered_name stem ext i \<in> set usedNames) 1 of
                Some i \<Rightarrow> numbered_name stem ext i
              | None \<Rightarrow> nm
      else nm)"

text \<open>\<open>dates\<close> are the successive values of \<open>new Date()\<close>, read for an entry without \<open>modified\<close>.\<close>

fun prepare :: "zip_entry list \<Rightarrow> string list \<Rightarrow> (nat \<Rightarrow> js_date) \<Rightarrow> prepared list" where
  "prepare [] usedNames dates = []"
| "prepare (entry # rest) usedNames dates =
     (let clean = sanitizeName (ze_name entry);
          nm = unique_name usedNames (if clean = '''' then ''untitled'' else clean);
          d = (case ze_modified entry of Some d \<Rightarrow> d | None \<Rightarrow> dates 0)
      in \<lparr>nameBytes = utf8_encode nm, pr_data = ze_data entry, pr_crc = crc32 (ze_data entry),
          pr_time = dos_time d, pr_date = dos_date d\<rparr>
         # prepare rest (usedNames @ [nm])
             (if ze_modified entry = None then (\<lambda>n. dates (Suc n)) else dates))"

section \<open>The archive\<close>

text \<open>\<open>setUint16\<close> and \<open>setUint32\<close>, little endian: the value modulo \<open>2 ^ 16\<close> or \<open>2 ^ 32\<close>.\<close>

definition le16 :: "nat \<Rightarrow> bytes" where
  "le16 v = [word_of_nat v, word_of_nat (v div 256)]"

definition le32 :: "nat \<Rightarrow> bytes" where
  "le32 v = [word_of_nat v, word_of_nat (v div 256), word_of_nat (v div 65536), word_of_nat (v div 16777216)]"

definition local_header :: "prepared \<Rightarrow> bytes" where
  "local_header e =
     le32 0x04034b50 @ le16 20 @ le16 0x0800 @ le16 0 @ le16 (pr_time e) @ le16 (pr_date e)
     @ le32 (unat (pr_crc e)) @ le32 (length (pr_data e)) @ le32 (length (pr_data e))
     @ le16 (length (nameBytes e)) @ le16 0"

definition central_header :: "prepared \<Rightarrow> nat \<Rightarrow> bytes" where
  "central_header e off =
     le32 0x02014b50 @ le16 20 @ le16 20 @ le16 0x0800 @ le16 0 @ le16 (pr_time e) @ le16 (pr_date e)
     @ le32 (unat (pr_crc e)) @ le32 (length (pr_data e)) @ le32 (length (pr_data e))
     @ le16 (length (nameBytes e)) @ le16 0 @ le16 0 @ le16 0 @ le16 0 @ le32 0 @ le32 off"

fun write_locals :: "prepared list \<Rightarrow> bytes \<Rightarrow> nat list \<Rightarrow> bytes \<times> nat list" where
  "write_locals [] out offsets = (out, offsets)"
| "write_locals (e # es) out offsets =
     write_locals es (out @ local_header e @ nameBytes e @ pr_data e) (offsets @ [length out])"

fun write_central :: "prepared list \<Rightarrow> nat list \<Rightarrow> bytes \<Rightarrow> bytes" where
  "write_central (e # es) (off # offs) out = write_central es offs (out @ central_header e off @ nameBytes e)"
| "write_central _ _ out = out"

definition end_record :: "nat \<Rightarrow> nat \<Rightarrow> nat \<Rightarrow> bytes" where
  "end_record n sz start =
     le32 0x06054b50 @ le16 0 @ le16 0 @ le16 n @ le16 n @ le32 sz @ le32 start @ le16 0"

definition createZip :: "zip_entry list \<Rightarrow> (nat \<Rightarrow> js_date) \<Rightarrow> bytes" where
  "createZip entries dates =
     (let prepared = prepare entries [] dates;
          (out, centralOffsets) = write_locals prepared [] [];
          centralStart = length out;
          out = write_central prepared centralOffsets out
      in out @ end_record (length prepared) (length out - centralStart) centralStart)"

section \<open>The checksum\<close>

lemma crc_step_xor: "crc_step (x XOR y) = crc_step x XOR crc_step y"
  by (simp add: crc_step_def bit_simps ac_simps)

lemma crc_steps_xor: "(crc_step ^^ n) (x XOR y) = (crc_step ^^ n) x XOR (crc_step ^^ n) y"
  by (induction n) (simp_all add: crc_step_xor)

lemma crc_steps_shift: "take_bit n x = 0 \<Longrightarrow> (crc_step ^^ n) x = drop_bit n x"
proof (induction n arbitrary: x)
  case (Suc n)
  have bits: "\<not> bit x i" if "i < Suc n" for i
    using Suc.prems that by (metis bit_0_eq bit_take_bit_iff bot_apply bot_bool_def)
  then have "crc_step x = drop_bit 1 x" by (simp add: crc_step_def)
  moreover have "take_bit n (drop_bit 1 x) = 0"
    using bits by (intro bit_eqI) (simp add: bit_simps)
  ultimately show ?case
    using Suc.IH [of "drop_bit 1 x"] by (simp add: funpow_Suc_right del: funpow.simps)
qed simp

text \<open>One byte at a time without the table.\<close>

definition crc_byte :: "32 word \<Rightarrow> 8 word \<Rightarrow> 32 word" where
  "crc_byte crc b = (crc_step ^^ 8) (crc XOR ucast b)"

lemma CRC_TABLE_nth: "unat x < 256 \<Longrightarrow> CRC_TABLE ! unat x = (crc_step ^^ 8) x"
  by (simp add: CRC_TABLE_def crc_entry_def del: funpow.simps)

lemma crc_table_byte:
  "CRC_TABLE ! unat ((crc XOR ucast b) AND 0xff) XOR drop_bit 8 crc = crc_byte crc b"
proof -
  define x where "x = crc XOR ucast (b :: 8 word)"
  have lo: "x AND 0xff = take_bit 8 x" by (simp add: take_bit_eq_mask mask_numeral)
  have "unat (take_bit 8 x) < 2 ^ 8" using take_bit_nat_less_exp [of 8 "unat x"] by (simp only: unsigned_take_bit_eq)
  then have "CRC_TABLE ! unat (x AND 0xff) = (crc_step ^^ 8) (take_bit 8 x)"
    unfolding lo by (intro CRC_TABLE_nth) simp
  moreover have "drop_bit 8 crc = (crc_step ^^ 8) (x XOR take_bit 8 x)"
  proof -
    have "take_bit 8 (x XOR take_bit 8 x) = 0" by (simp add: take_bit_xor)
    then have "(crc_step ^^ 8) (x XOR take_bit 8 x) = drop_bit 8 (x XOR take_bit 8 x)"
      by (rule crc_steps_shift)
    also have "\<dots> = drop_bit 8 crc" by (intro bit_eqI) (auto simp: x_def bit_simps dest: bit_imp_le_length)
    finally show ?thesis by simp
  qed
  ultimately have "CRC_TABLE ! unat (x AND 0xff) XOR drop_bit 8 crc
      = (crc_step ^^ 8) (take_bit 8 x XOR (x XOR take_bit 8 x))"
    by (simp only: crc_steps_xor)
  also have "take_bit 8 x XOR (x XOR take_bit 8 x) = x" by (simp add: xor.left_commute)
  finally show ?thesis by (simp add: crc_byte_def x_def)
qed

lemma crc_loop_bytes: "crc_loop crc data = foldl crc_byte crc data"
  by (induction data arbitrary: crc) (simp_all add: crc_table_byte)

section \<open>Names\<close>

lemma sanitizeName_segments:
  assumes "s \<in> set (split_on CHR ''/'' (sanitizeName nm))" "sanitizeName nm \<noteq> []"
  shows "s \<noteq> '''' \<and> s \<noteq> ''.'' \<and> s \<noteq> ''..'' \<and> CHR ''/'' \<notin> set s"
proof -
  let ?ws = "filter (\<lambda>s. s \<noteq> '''' \<and> s \<noteq> ''.'' \<and> s \<noteq> ''..'')
    (split_on CHR ''/'' (map (\<lambda>c. if c = CHR 0x5C then CHR ''/'' else c) nm))"
  have "sanitizeName nm = join_with ''/'' ?ws" by (simp add: sanitizeName_def)
  then have ne: "?ws \<noteq> []" using assms(2) by fastforce
  have piece: "CHR ''/'' \<notin> set w" if "w \<in> set ?ws" for w
    using that by (auto dest: split_on_pieces)
  then have "split_on CHR ''/'' (sanitizeName nm) = ?ws"
    unfolding sanitizeName_def by (intro split_join ne ballI)
  then have s: "s \<in> set ?ws" using assms(1) by simp
  with piece [OF s] show ?thesis by simp
qed

lemma numbered_name_inj: "inj (numbered_name stem ext)"
  by (rule injI) (simp add: numbered_name_def)

lemma unique_name_fresh: "unique_name used nm \<notin> set used"
proof (cases "nm \<in> set used")
  case True
  define stem where "stem = (case last_index_of CHR ''.'' nm of Some d \<Rightarrow> if d > 0 then take d nm else nm | None \<Rightarrow> nm)"
  define ext where "ext = (case last_index_of CHR ''.'' nm of Some d \<Rightarrow> if d > 0 then drop d nm else '''' | None \<Rightarrow> '''')"
  have "first_free (Suc (length used)) (\<lambda>i. numbered_name stem ext i \<in> set used) 1 \<noteq> None"
    by (rule first_free_names [OF numbered_name_inj]) simp
  then obtain i where i: "first_free (Suc (length used)) (\<lambda>i. numbered_name stem ext i \<in> set used) 1 = Some i"
    by blast
  then have "unique_name used nm = numbered_name stem ext i"
    using True unfolding unique_name_def Let_def stem_def ext_def by simp
  then show ?thesis using first_free_Some [OF i] by simp
qed (simp add: unique_name_def)

lemma prepare_names:
  "\<exists>nms. map nameBytes (prepare es used dates) = map utf8_encode nms \<and> distinct nms
     \<and> set nms \<inter> set used = {}"
proof (induction es arbitrary: used dates)
  case (Cons e es)
  let ?nm = "unique_name used (if sanitizeName (ze_name e) = '''' then ''untitled'' else sanitizeName (ze_name e))"
  let ?dates = "if ze_modified e = None then (\<lambda>n. dates (Suc n)) else dates"
  obtain nms where "map nameBytes (prepare es (used @ [?nm]) ?dates) = map utf8_encode nms" "distinct nms"
    "set nms \<inter> set (used @ [?nm]) = {}"
    using Cons.IH by blast
  moreover have "?nm \<notin> set used" by (rule unique_name_fresh)
  ultimately show ?case by (intro exI [of _ "?nm # nms"]) (auto simp: Let_def)
qed simp

lemma prepare_data:
  "map pr_data (prepare es used dates) = map ze_data es"
  "e \<in> set (prepare es used dates) \<Longrightarrow> pr_crc e = crc32 (pr_data e)"
  by (induction es arbitrary: used dates) (auto simp: Let_def)


section \<open>Reading an archive\<close>

text \<open>
  A reader of the format: it finds the end record, walks the central directory it points to, and for
  each entry follows the offset to the local header, whose name must agree, and takes the data there.
\<close>

definition u16 :: "bytes \<Rightarrow> nat \<Rightarrow> nat" where
  "u16 bs k = unat (bs ! k) + 256 * unat (bs ! (k + 1))"

definition u32 :: "bytes \<Rightarrow> nat \<Rightarrow> nat" where
  "u32 bs k = u16 bs k + 65536 * u16 bs (k + 2)"

definition read_local :: "bytes \<Rightarrow> (bytes \<times> bytes) option" where
  "read_local h =
     (if u32 h 0 = 0x04034b50
      then Some (take (u16 h 26) (drop 30 h), take (u32 h 18) (drop (30 + u16 h 26 + u16 h 28) h))
      else None)"

fun read_entries :: "nat \<Rightarrow> bytes \<Rightarrow> bytes \<Rightarrow> (bytes \<times> bytes \<times> nat) list option" where
  "read_entries 0 archive h = Some []"
| "read_entries (Suc n) archive h =
     (if u32 h 0 = 0x02014b50 then
        case read_local (drop (u32 h 42) archive) of
          None \<Rightarrow> None
        | Some (nm, data) \<Rightarrow>
            if nm = take (u16 h 28) (drop 46 h) then
              case read_entries n archive (drop (46 + u16 h 28 + u16 h 30 + u16 h 32) h) of
                None \<Rightarrow> None
              | Some es \<Rightarrow> Some ((nm, data, u32 h 16) # es)
            else None
      else None)"

definition read_zip :: "bytes \<Rightarrow> (bytes \<times> bytes \<times> nat) list option" where
  "read_zip archive =
     (let e = drop (length archive - 22) archive in
      if u32 e 0 = 0x06054b50 then read_entries (u16 e 10) archive (drop (u32 e 16) archive) else None)"

definition local_bytes :: "prepared \<Rightarrow> bytes" where
  "local_bytes e = local_header e @ nameBytes e @ pr_data e"

fun offsets_from :: "nat \<Rightarrow> prepared list \<Rightarrow> nat list" where
  "offsets_from n [] = []"
| "offsets_from n (e # es) = n # offsets_from (n + length (local_bytes e)) es"

fun central_bytes :: "prepared list \<Rightarrow> nat list \<Rightarrow> bytes" where
  "central_bytes (e # es) (off # offs) = central_header e off @ nameBytes e @ central_bytes es offs"
| "central_bytes _ _ = []"

lemma write_locals_eq:
  "write_locals es out offs = (out @ concat (map local_bytes es), offs @ offsets_from (length out) es)"
  by (induction es arbitrary: out offs) (simp_all add: local_bytes_def)

lemma write_central_eq: "write_central es offs out = out @ central_bytes es offs"
  by (induction es offs out rule: write_central.induct) simp_all

lemma createZip_eq:
  "createZip es dates =
     (let ps = prepare es [] dates;
          L = concat (map local_bytes ps);
          C = central_bytes ps (offsets_from 0 ps)
      in L @ C @ end_record (length ps) (length C) (length L))"
  by (simp add: createZip_def write_locals_eq write_central_eq Let_def)

lemma unat8: "unat (word_of_nat v :: 8 word) = v mod 256"
  by (simp add: unat_of_nat)

lemma le16_value: "v mod 256 + 256 * (v div 256 mod 256) = v mod (65536 :: nat)"
  using mod_mult2_eq [of v 256 256] by simp

lemma le32_value:
  "v mod 256 + 256 * (v div 256 mod 256) + 65536 * (v div 65536 mod 256 + 256 * (v div 16777216 mod 256))
    = v mod (4294967296 :: nat)"
proof -
  have "v mod (65536 * 65536) = 65536 * (v div 65536 mod 65536) + v mod 65536" by (rule mod_mult2_eq)
  moreover have "v div 65536 mod 256 + 256 * (v div 16777216 mod 256) = v div 65536 mod 65536"
    using le16_value [of "v div 65536"] by (simp add: div_mult2_eq [symmetric])
  ultimately show ?thesis using le16_value [of v] by simp
qed

lemma le32_sum:
  "v mod 65536 + (65536 * (v div 65536 mod 256) + 16777216 * (v div 16777216 mod 256)) = v mod (4294967296 :: nat)"
  using le32_value [of v] le16_value [of v] by simp

lemma unat32:
  fixes w :: "32 word"
  shows "unat (ucast w :: 8 word) = unat w mod 256" "unat w mod 4294967296 = unat w"
  using unsigned_less [of w, where ?'a = nat] by (simp_all add: unsigned_ucast_eq take_bit_eq_mod)

lemmas header_defs = le16_def le32_def u16_def u32_def unat8

lemma header_lengths [simp]:
  "length (local_header e) = 30" "length (central_header e off) = 46" "length (end_record n s t) = 22"
  by (simp_all add: local_header_def central_header_def end_record_def header_defs)

lemma local_fields:
  "u32 (local_header e @ r) 0 = 0x04034b50" "u16 (local_header e @ r) 26 = length (nameBytes e) mod 65536"
  "u32 (local_header e @ r) 18 = length (pr_data e) mod 4294967296" "u16 (local_header e @ r) 28 = 0"
  by (simp_all add: local_header_def header_defs le16_value le32_sum)

lemma central_fields:
  "u32 (central_header e off @ r) 0 = 0x02014b50" "u32 (central_header e off @ r) 16 = unat (pr_crc e)"
  "u16 (central_header e off @ r) 28 = length (nameBytes e) mod 65536"
  "u16 (central_header e off @ r) 30 = 0" "u16 (central_header e off @ r) 32 = 0"
  "u32 (central_header e off @ r) 42 = off mod 4294967296"
  by (simp_all add: central_header_def header_defs le16_value le32_sum unat32)

lemma end_fields:
  "u32 (end_record n s t) 0 = 0x06054b50" "u16 (end_record n s t) 10 = n mod 65536"
  "u32 (end_record n s t) 16 = t mod 4294967296"
  by (simp_all add: end_record_def header_defs le16_value le32_sum)

lemma read_local_bytes:
  assumes "length (nameBytes e) < 2 ^ 16" "length (pr_data e) < 2 ^ 32"
  shows "read_local (local_bytes e @ r) = Some (nameBytes e, pr_data e)"
  using assms by (simp add: read_local_def local_bytes_def local_fields)

lemma read_entries_ok:
  assumes "archive = concat (map local_bytes (pre @ es)) @ tail"
    and "length (concat (map local_bytes (pre @ es))) < 2 ^ 32"
    and "\<forall>e \<in> set es. length (nameBytes e) < 2 ^ 16"
  shows "read_entries (length es) archive
      (central_bytes es (offsets_from (length (concat (map local_bytes pre))) es) @ r)
    = Some (map (\<lambda>e. (nameBytes e, pr_data e, unat (pr_crc e))) es)"
  using assms
proof (induction es arbitrary: pre)
  case (Cons e es)
  let ?off = "length (concat (map local_bytes pre))"
  have off: "?off + length (local_bytes e) < 2 ^ 32" using Cons.prems(2) by simp
  have len: "length (nameBytes e) < 2 ^ 16" "length (pr_data e) < 2 ^ 32"
    using Cons.prems(3) off by (simp_all add: local_bytes_def)
  have "drop ?off archive = local_bytes e @ concat (map local_bytes es) @ tail" by (simp add: Cons.prems(1))
  then have loc: "read_local (drop ?off archive) = Some (nameBytes e, pr_data e)"
    using read_local_bytes [OF len] by simp
  have "read_entries (length es) archive (central_bytes es (offsets_from (?off + length (local_bytes e)) es) @ r)
      = Some (map (\<lambda>e. (nameBytes e, pr_data e, unat (pr_crc e))) es)"
    using Cons.IH [of "pre @ [e]"] Cons.prems by (simp add: add.assoc)
  then show ?case using loc len off by (simp add: central_fields)
qed simp

section \<open>Properties\<close>

text \<open>
  (C38) The table-driven CRC-32 is the bitwise one: every byte is xored into the low end of the register,
  which then takes eight steps of the reflected polynomial.
\<close>

theorem crc32_bitwise: "crc32 data = foldl crc_byte 0xffffffff data XOR 0xffffffff"
  by (simp add: crc32_def crc_loop_bytes)

lemma zip_reads_back:
  assumes "length (createZip es dates) < 2 ^ 32" and "length es < 2 ^ 16"
    and "\<forall>e \<in> set (prepare es [] dates). length (nameBytes e) < 2 ^ 16"
  shows "read_zip (createZip es dates)
       = Some (map (\<lambda>e. (nameBytes e, pr_data e, unat (crc32 (pr_data e)))) (prepare es [] dates))
     \<and> map pr_data (prepare es [] dates) = map ze_data es"
proof -
  let ?ps = "prepare es [] dates"
  let ?L = "concat (map local_bytes ?ps)" and ?C = "central_bytes ?ps (offsets_from 0 ?ps)"
  let ?E = "end_record (length ?ps) (length ?C) (length ?L)"
  have zip: "createZip es dates = ?L @ ?C @ ?E" by (simp add: createZip_eq Let_def)
  have L: "length ?L < 2 ^ 32" using assms(1) by (simp add: zip)
  have n: "length ?ps = length es" using arg_cong [OF prepare_data(1), of length es "[]" dates] by simp
  have "drop (length (createZip es dates) - 22) (createZip es dates) = ?E" by (simp add: zip)
  moreover have "drop (length ?L) (createZip es dates) = ?C @ ?E" by (simp add: zip)
  moreover have "read_entries (length ?ps) (createZip es dates) (?C @ ?E)
      = Some (map (\<lambda>e. (nameBytes e, pr_data e, unat (pr_crc e))) ?ps)"
    using read_entries_ok [of "createZip es dates" "[]" ?ps "?C @ ?E" ?E] zip L assms(3) by simp
  ultimately have "read_zip (createZip es dates)
      = Some (map (\<lambda>e. (nameBytes e, pr_data e, unat (pr_crc e))) ?ps)"
    using L assms(2) n by (simp add: read_zip_def Let_def end_fields)
  then show ?thesis using prepare_data [where es = es and used = "[]" and dates = dates] by simp
qed

text \<open>
  (C25) A reader that follows the format gets back from an archive, in order, every entry's name, data and
  checksum; the data are those of the entries. The archive stays below the 4 GiB that the format's
  offsets and sizes can express, with at most 65535 entries and names shorter than 64 KiB.
\<close>

theorem createZip_readable:
  assumes "length (createZip es dates) < 2 ^ 32" and "length es < 2 ^ 16"
    and "\<forall>e \<in> set (prepare es [] dates). length (nameBytes e) < 2 ^ 16"
  shows "read_zip (createZip es dates)
       = Some (map (\<lambda>e. (nameBytes e, pr_data e, unat (crc32 (pr_data e)))) (prepare es [] dates))
     \<and> map pr_data (prepare es [] dates) = map ze_data es"
  by (rule zip_reads_back [OF assms])

definition sample_entry :: zip_entry where
  "sample_entry = \<lparr>ze_name = ''a'', ze_data = [1, 2], ze_modified = None\<rparr>"

text \<open>An archive of one small file, where the bounds hold.\<close>

lemma createZip_readable_witness:
  "\<forall>dates. \<exists>nm crc. read_zip (createZip [sample_entry] dates) = Some [(nm, [1, 2], crc)]"
proof
  fix dates
  have p: "prepare [sample_entry] [] dates = [\<lparr>nameBytes = utf8_encode ''a'', pr_data = [1, 2],
      pr_crc = crc32 [1, 2], pr_time = dos_time (dates 0), pr_date = dos_date (dates 0)\<rparr>]"
    by (simp add: sample_entry_def Let_def sanitizeName_def unique_name_def)
  have "length (utf8_encode ''a'') = 1" by (simp add: utf8_encode_def utf8_char_def)
  then have len: "length (createZip [sample_entry] dates) < 2 ^ 32"
    by (simp add: p createZip_eq Let_def local_bytes_def del: prepare.simps)
  have "length [sample_entry] < 2 ^ 16" "\<forall>e \<in> set (prepare [sample_entry] [] dates). length (nameBytes e) < 2 ^ 16"
    using \<open>length (utf8_encode ''a'') = 1\<close> by (simp_all add: p del: prepare.simps)
  from createZip_readable [OF len this]
  show "\<exists>nm crc. read_zip (createZip [sample_entry] dates) = Some [(nm, [1, 2], crc)]" by (simp add: p del: prepare.simps)
qed

text \<open>
  No two entries of an archive have the same name.
\<close>

theorem zip_names_distinct: "distinct (map nameBytes (prepare es [] dates))"
proof -
  obtain nms where "map nameBytes (prepare es [] dates) = map utf8_encode nms" "distinct nms"
    using prepare_names [of es "[]" dates] by blast
  then show ?thesis by (simp add: distinct_map inj_on_def)
qed

text \<open>
  A sanitised name is empty or a relative path with no empty, \<open>.\<close> or \<open>..\<close> segment, backslashes read
  as separators, so extracting the archive cannot leave its directory.
\<close>

theorem sanitizeName_safe:
  "sanitizeName nm = [] \<or>
     list_all (\<lambda>s. s \<noteq> '''' \<and> s \<noteq> ''.'' \<and> s \<noteq> ''..'') (split_on CHR ''/'' (sanitizeName nm))
     \<and> CHR 0x5C \<notin> set (sanitizeName nm)"
proof (cases "sanitizeName nm = []")
  case False
  have sub: "set (join_with ''/'' ws) \<subseteq> insert CHR ''/'' (\<Union>w \<in> set ws. set w)" for ws
    by (induction ws) (auto simp: join_with_Cons)
  have joined: "w \<in> set ws \<Longrightarrow> set w \<subseteq> set (join_with sep ws)" for w sep and ws :: "string list"
    by (induction ws) (auto simp: join_with_Cons)
  have pieces: "set w \<subseteq> set s" if "w \<in> set (split_on c s)" for w c and s :: string
    using joined [OF that, of "[c]"] by simp
  have "CHR 0x5C \<notin> set (sanitizeName nm)"
  proof
    assume "CHR 0x5C \<in> set (sanitizeName nm)"
    then obtain w where "w \<in> set (split_on CHR ''/'' (map (\<lambda>c. if c = CHR 0x5C then CHR ''/'' else c) nm))"
      "CHR 0x5C \<in> set w"
      unfolding sanitizeName_def using sub by fastforce
    then have "CHR 0x5C \<in> set (map (\<lambda>c. if c = CHR 0x5C then CHR ''/'' else c) nm)" using pieces by blast
    then show False by auto
  qed
  then show ?thesis using False sanitizeName_segments [OF _ False] by (auto simp: list_all_iff)
qed simp

end
