(* ===== verification/Fuzzy.thy ===== *)
theory Fuzzy
  imports Prelude
begin

text \<open>
  Term matching and highlighting (\<open>packages/core/src/utils/fuzzy.ts\<close>). A match is a score and the
  indices of the matched characters. The lemmas relate the greedy scans to subsequences and
  substrings; highlighting is related to the pieces of text it marks.
\<close>

section \<open>The functions\<close>

record fuzzy_match =
  score :: int
  indices :: "nat list"

definition SCORE_MATCH :: int where "SCORE_MATCH = 10"
definition BONUS_BOUNDARY :: int where "BONUS_BOUNDARY = 8"
definition BONUS_CAMEL :: int where "BONUS_CAMEL = 6"
definition BONUS_CONSECUTIVE :: int where "BONUS_CONSECUTIVE = 8"
definition PENALTY_GAP :: int where "PENALTY_GAP = 1"

definition isLower :: "char \<Rightarrow> bool" where
  "isLower c = (CHR ''a'' \<le> c \<and> c \<le> CHR ''z'')"

definition isWordChar :: "char \<Rightarrow> bool" where
  "isWordChar c =
     (char_between CHR ''a'' CHR ''z'' c \<or> char_between CHR ''A'' CHR ''Z'' c \<or> char_between CHR ''0'' CHR ''9'' c)"

definition boundaryBonus :: "string \<Rightarrow> nat \<Rightarrow> int" where
  "boundaryBonus text i =
     (if i = 0 then BONUS_BOUNDARY
      else if \<not> isWordChar (text ! (i - 1)) then BONUS_BOUNDARY
      else if isLower (text ! (i - 1)) \<and> \<not> isLower (text ! i) then BONUS_CAMEL else 0)"

text \<open>\<open>haystack.indexOf(c, cursor)\<close> for a character and for a string.\<close>

definition index_from :: "'a \<Rightarrow> 'a list \<Rightarrow> nat \<Rightarrow> nat option" where
  "index_from c xs cursor = map_option (\<lambda>i. cursor + i) (index_of c (drop cursor xs))"

fun sub_index :: "'a list \<Rightarrow> 'a list \<Rightarrow> nat option" where
  "sub_index needle [] = (if needle = [] then Some 0 else None)"
| "sub_index needle (x # xs) =
     (if prefix needle (x # xs) then Some 0 else map_option Suc (sub_index needle xs))"

definition sub_index_from :: "'a list \<Rightarrow> 'a list \<Rightarrow> nat \<Rightarrow> nat option" where
  "sub_index_from needle xs cursor = map_option (\<lambda>i. cursor + i) (sub_index needle (drop cursor xs))"

fun fuzzy_loop ::
    "string \<Rightarrow> string \<Rightarrow> string \<Rightarrow> nat list \<Rightarrow> int \<Rightarrow> nat \<Rightarrow> nat option \<Rightarrow> fuzzy_match option" where
  "fuzzy_loop text haystack [] idx sc cursor previousIndex =
     Some \<lparr>score = sc, indices = idx\<rparr>"
| "fuzzy_loop text haystack (c # needle) idx sc cursor previousIndex =
     (case index_from c haystack cursor of
        None \<Rightarrow> None
      | Some found \<Rightarrow>
          fuzzy_loop text haystack needle (idx @ [found])
            (sc + SCORE_MATCH + boundaryBonus text found +
               (case previousIndex of
                  None \<Rightarrow> 0
                | Some p \<Rightarrow> if found = p + 1 then BONUS_CONSECUTIVE
                            else - (int found - int p - 1) * PENALTY_GAP))
            (found + 1) (Some found))"

definition fold_case :: "bool \<Rightarrow> string \<Rightarrow> string" where
  "fold_case caseSensitive s = (if caseSensitive then s else lower s)"

definition fuzzyMatch :: "string \<Rightarrow> string \<Rightarrow> bool \<Rightarrow> fuzzy_match option" where
  "fuzzyMatch pattern text caseSensitive =
     (if length pattern = 0 then Some \<lparr>score = 0, indices = []\<rparr>
      else if length pattern > length text then None
      else fuzzy_loop text (fold_case caseSensitive text) (fold_case caseSensitive pattern) [] 0 0 None)"

function word_loop :: "string \<Rightarrow> string \<Rightarrow> nat \<Rightarrow> fuzzy_match option" where
  "word_loop haystack needle cursor =
     (if cursor + length needle \<le> length haystack
      then case sub_index_from needle haystack cursor of
             None \<Rightarrow> None
           | Some found \<Rightarrow>
               let before = (if found = 0 then CHR '' '' else haystack ! (found - 1));
                   after = (if found + length needle \<ge> length haystack then CHR '' ''
                            else haystack ! (found + length needle))
               in if \<not> isWordChar before \<and> \<not> isWordChar after
                  then Some \<lparr>score = (SCORE_MATCH + BONUS_CONSECUTIVE) * int (length needle) + BONUS_BOUNDARY,
                             indices = map (\<lambda>i. found + i) [0..<length needle]\<rparr>
                  else word_loop haystack needle (found + 1)
      else None)"
  by pat_completeness auto
termination
  by (relation "measure (\<lambda>(haystack, needle, cursor). Suc (length haystack) - cursor)")
    (auto simp: sub_index_from_def)

declare word_loop.simps [simp del]

definition wordMatch :: "string \<Rightarrow> string \<Rightarrow> bool \<Rightarrow> fuzzy_match option" where
  "wordMatch pattern text caseSensitive =
     (if length pattern = 0 then Some \<lparr>score = 0, indices = []\<rparr>
      else word_loop (fold_case caseSensitive text) (fold_case caseSensitive pattern) 0)"

definition exactMatch :: "string \<Rightarrow> string \<Rightarrow> bool \<Rightarrow> fuzzy_match option" where
  "exactMatch pattern text caseSensitive =
     (if length pattern = 0 then Some \<lparr>score = 0, indices = []\<rparr>
      else let needle = fold_case caseSensitive pattern in
        case sub_index_from needle (fold_case caseSensitive text) 0 of
          None \<Rightarrow> None
        | Some found \<Rightarrow>
            Some \<lparr>score = (SCORE_MATCH + BONUS_CONSECUTIVE) * int (length needle)
                          + boundaryBonus text found + BONUS_BOUNDARY,
                  indices = map (\<lambda>i. found + i) [0..<length needle]\<rparr>)"

datatype match_mode = Fuzzy_mode | Word_mode | Exact_mode

definition matchTerm :: "string \<Rightarrow> string \<Rightarrow> match_mode \<Rightarrow> bool \<Rightarrow> fuzzy_match option" where
  "matchTerm term text mode caseSensitive =
     (if mode = Word_mode then wordMatch term text caseSensitive
      else let exact = exactMatch term text caseSensitive in
        if exact \<noteq> None \<or> mode = Exact_mode then exact else fuzzyMatch term text caseSensitive)"

fun range_loop :: "nat list \<Rightarrow> (nat \<times> nat) list \<Rightarrow> nat \<Rightarrow> nat \<Rightarrow> (nat \<times> nat) list" where
  "range_loop [] ranges start stop = ranges @ [(start, stop)]"
| "range_loop (x # xs) ranges start stop =
     (if x = stop then range_loop xs ranges start (x + 1)
      else range_loop xs (ranges @ [(start, stop)]) x (x + 1))"

definition toHighlightRanges :: "nat list \<Rightarrow> (nat \<times> nat) list" where
  "toHighlightRanges idx =
     (case sort idx of [] \<Rightarrow> [] | x # xs \<Rightarrow> range_loop xs [] x (x + 1))"

definition replace_with :: "char \<Rightarrow> string \<Rightarrow> string \<Rightarrow> string" where
  "replace_with c rep s = concat (map (\<lambda>x. if x = c then rep else [x]) s)"

definition escapeHtml :: "string \<Rightarrow> string" where
  "escapeHtml text =
     replace_with CHR 0x22 ''&quot;''
       (replace_with CHR ''>'' ''&gt;''
         (replace_with CHR ''<'' ''&lt;''
           (replace_with CHR ''&'' ''&amp;'' text)))"

text \<open>\<open>text.slice(a, b)\<close> for indexes that are not negative.\<close>

definition text_slice :: "string \<Rightarrow> nat \<Rightarrow> nat \<Rightarrow> string" where
  "text_slice s a b = take (b - a) (drop a s)"

definition mark :: "string \<Rightarrow> string \<Rightarrow> string" where
  "mark markClass s = ''<mark class='' @ [CHR 0x22] @ markClass @ [CHR 0x22] @ ''>'' @ s @ ''</mark>''"

fun highlight_loop :: "string \<Rightarrow> string \<Rightarrow> (nat \<times> nat) list \<Rightarrow> string \<Rightarrow> nat \<Rightarrow> string" where
  "highlight_loop text markClass [] out cursor = out @ escapeHtml (drop cursor text)"
| "highlight_loop text markClass ((start, stop) # ranges) out cursor =
     highlight_loop text markClass ranges
       (out @ escapeHtml (text_slice text cursor start) @ mark markClass (escapeHtml (text_slice text start stop)))
       stop"

definition applyHighlights :: "string \<Rightarrow> (nat \<times> nat) list \<Rightarrow> string \<Rightarrow> string" where
  "applyHighlights text ranges markClass =
     (if ranges = [] then escapeHtml text else highlight_loop text markClass ranges [] 0)"

section \<open>Scanning\<close>

lemma length_fold_case [simp]: "length (fold_case cs s) = length s"
  by (simp add: fold_case_def)

lemma fold_case_Nil [simp]: "fold_case cs s = [] \<longleftrightarrow> s = []" "fold_case cs [] = []"
  by (simp_all add: fold_case_def)

lemma index_of_first: "index_of c xs = Some k \<Longrightarrow> j < k \<Longrightarrow> xs ! j \<noteq> c"
proof (induction xs arbitrary: k j)
  case (Cons x xs)
  then show ?case by (cases j) (auto split: if_splits)
qed simp

lemma index_from_Some:
  assumes "index_from c xs cursor = Some i"
  shows "cursor \<le> i \<and> i < length xs \<and> xs ! i = c \<and> (\<forall>j. cursor \<le> j \<and> j < i \<longrightarrow> xs ! j \<noteq> c)"
proof -
  obtain k where k: "index_of c (drop cursor xs) = Some k" "i = cursor + k"
    using assms by (auto simp: index_from_def)
  note f = index_of_SomeD [OF k(1)]
  have "xs ! j \<noteq> c" if j: "cursor \<le> j" "j < i" for j
  proof -
    obtain t where t: "j = cursor + t" using j(1) le_Suc_ex by blast
    then have "drop cursor xs ! t \<noteq> c" using index_of_first [OF k(1)] j(2) k(2) by simp
    moreover have "cursor \<le> length xs" using conjunct1 [OF f] unfolding length_drop by linarith
    ultimately show ?thesis using t by simp
  qed
  then show ?thesis using f k(2) by auto
qed

lemma index_from_None: "index_from c xs cursor = None \<longleftrightarrow> c \<notin> set (drop cursor xs)"
  by (simp add: index_from_def)

text \<open>\<open>picks xs is ys\<close>: the strictly ascending indices \<open>is\<close> pick the list \<open>ys\<close> out of \<open>xs\<close>.\<close>

definition picks :: "'a list \<Rightarrow> nat list \<Rightarrow> 'a list \<Rightarrow> bool" where
  "picks xs is ys \<longleftrightarrow> sorted_wrt (<) is \<and> (\<forall>i \<in> set is. i < length xs) \<and> map (\<lambda>i. xs ! i) is = ys"

lemma fuzzy_loop_sound:
  "fuzzy_loop text hay needle idx sc cursor prev = Some m \<Longrightarrow> picks hay idx seen \<Longrightarrow>
     \<forall>i \<in> set idx. i < cursor \<Longrightarrow> picks hay (indices m) (seen @ needle)"
proof (induction needle arbitrary: idx sc cursor prev seen)
  case Nil
  then show ?case by auto
next
  case (Cons c needle)
  then obtain found where f: "index_from c hay cursor = Some found" by (cases "index_from c hay cursor") auto
  note found = index_from_Some [OF f]
  have "picks hay (idx @ [found]) (seen @ [c])"
    using Cons.prems(2,3) found by (fastforce simp: picks_def sorted_wrt_append)
  moreover have "\<forall>i \<in> set (idx @ [found]). i < found + 1" using Cons.prems(3) found by auto
  ultimately show ?case using Cons.IH [of "idx @ [found]" _ "found + 1" _ "seen @ [c]"] Cons.prems(1) f by simp
qed

lemma subseq_after_first:
  assumes "subseq (c # ys) xs" "index_of c xs = Some k"
  shows "subseq ys (drop (Suc k) xs)"
  using assms
proof (induction xs arbitrary: k rule: list.induct)
  case (Cons x xs)
  then show ?case by (cases "x = c") auto
qed simp

lemma fuzzy_loop_complete:
  "subseq needle (drop cursor hay) \<Longrightarrow> \<exists>m. fuzzy_loop text hay needle idx sc cursor prev = Some m"
proof (induction needle arbitrary: idx sc cursor prev)
  case (Cons c needle)
  then have "c \<in> set (drop cursor hay)" using set_nths_subset by (metis list.set_intros(1) subseq_conv_nths subsetD)
  then obtain k where k: "index_of c (drop cursor hay) = Some k" by (cases "index_of c (drop cursor hay)") auto
  have "subseq needle (drop (Suc k) (drop cursor hay))" by (rule subseq_after_first [OF Cons.prems k])
  then have "subseq needle (drop (cursor + k + 1) hay)" by (simp add: add.commute)
  from Cons.IH [OF this] show ?case by (simp add: index_from_def k)
qed simp

lemma picks_subseq:
  assumes "picks xs idx ys"
  shows "subseq ys xs"
proof -
  let ?f = "filter (\<lambda>i. i \<in> set idx) [0..<length xs]"
  have "sorted idx" "distinct idx" using assms by (auto simp: picks_def strict_sorted_iff)
  moreover have "sorted ?f" "distinct ?f" by (auto intro: sorted_wrt_filter)
  moreover have "set idx = set ?f" using assms by (auto simp: picks_def)
  ultimately have "idx = ?f" by (rule sorted_distinct_set_unique)
  then have "subseq idx [0..<length xs]" by (metis subseq_filter_left)
  then have "subseq (map (\<lambda>i. xs ! i) idx) (map (\<lambda>i. xs ! i) [0..<length xs])" by (rule subseq_map)
  then show ?thesis using assms by (simp add: picks_def map_nth)
qed

lemma sub_index_Some: "sub_index needle xs = Some i \<Longrightarrow> prefix needle (drop i xs) \<and> i \<le> length xs
    \<and> (\<forall>j < i. \<not> prefix needle (drop j xs))"
proof (induction xs arbitrary: i)
  case (Cons x xs)
  show ?case
  proof (cases "prefix needle (x # xs)")
    case True
    then show ?thesis using Cons.prems by simp
  next
    case False
    then obtain k where k: "sub_index needle xs = Some k" "i = Suc k" using Cons.prems by auto
    have "\<not> prefix needle (drop j (x # xs))" if "j < i" for j
      using that k Cons.IH [OF k(1)] False by (cases j) auto
    then show ?thesis using Cons.IH [OF k(1)] k by auto
  qed
qed (auto split: if_splits)

lemma sub_index_None: "sub_index needle xs = None \<longleftrightarrow> \<not> sublist needle xs"
  by (induction xs) (auto simp: sublist_Cons_right)

lemma prefix_picks:
  assumes "prefix needle (drop i xs)"
  shows "picks xs (map (\<lambda>k. i + k) [0..<length needle]) needle"
proof -
  obtain z where z: "drop i xs = needle @ z" using assms by (auto simp: prefix_def)
  have len: "length needle + length z = length xs - i" using arg_cong [OF z, of length] by simp
  then have lt: "i + k < length xs" if "k < length needle" for k using that by linarith
  have nth: "xs ! (i + k) = needle ! k" if k: "k < length needle" for k
  proof -
    have "xs ! (i + k) = drop i xs ! k" using lt [OF k] by simp
    then show ?thesis using k by (simp add: z nth_append)
  qed
  have "map (\<lambda>k. xs ! (i + k)) [0..<length needle] = map (\<lambda>k. needle ! k) [0..<length needle]"
    using nth by (intro map_cong) auto
  moreover have "sorted_wrt (<) (map (\<lambda>k. i + k) [0..<length needle])"
    by (simp add: sorted_wrt_map)
  moreover have "\<forall>x \<in> (\<lambda>k. i + k) ` {0..<length needle}. x < length xs" using len by auto
  ultimately show ?thesis by (simp add: picks_def map_nth comp_def)
qed


section \<open>Words\<close>

text \<open>An occurrence of the needle with no word character next to it.\<close>

definition word_at :: "string \<Rightarrow> string \<Rightarrow> nat \<Rightarrow> bool" where
  "word_at hay needle i \<longleftrightarrow> prefix needle (drop i hay) \<and> i + length needle \<le> length hay
     \<and> (0 < i \<longrightarrow> \<not> isWordChar (hay ! (i - 1)))
     \<and> (i + length needle < length hay \<longrightarrow> \<not> isWordChar (hay ! (i + length needle)))"

definition word_result :: "string \<Rightarrow> nat \<Rightarrow> fuzzy_match" where
  "word_result needle i = \<lparr>score = 18 * int (length needle) + 8, indices = map (\<lambda>k. i + k) [0..<length needle]\<rparr>"

lemma space_no_word [simp]: "\<not> isWordChar CHR '' ''"
  by (simp add: isWordChar_def less_eq_char_def)

lemma word_loop_spec:
  "case word_loop hay needle cursor of
     None \<Rightarrow> \<forall>i \<ge> cursor. \<not> word_at hay needle i
   | Some m \<Rightarrow> \<exists>i \<ge> cursor. word_at hay needle i \<and> (\<forall>j. cursor \<le> j \<and> j < i \<longrightarrow> \<not> word_at hay needle j)
               \<and> m = word_result needle i"
proof (induction hay needle cursor rule: word_loop.induct)
  case (1 hay needle cursor)
  show ?case
  proof (cases "cursor + length needle \<le> length hay")
    case False
    then show ?thesis by (subst word_loop.simps) (auto simp: word_at_def)
  next
    case le: True
    show ?thesis
    proof (cases "sub_index_from needle hay cursor")
      case None
      then have no: "\<not> sublist needle (drop cursor hay)" by (simp add: sub_index_from_def sub_index_None)
      have "\<not> prefix needle (drop i hay)" if "cursor \<le> i" for i
      proof
        assume "prefix needle (drop i hay)"
        moreover have "drop i hay = drop (i - cursor) (drop cursor hay)" using that by simp
        ultimately have "sublist needle (drop cursor hay)"
          by (metis prefix_imp_sublist sublist_drop sublist_order.order_trans)
        then show False using no by contradiction
      qed
      then show ?thesis using le None by (subst word_loop.simps) (auto simp: word_at_def)
    next
      case (Some found)
      then obtain k where k: "sub_index needle (drop cursor hay) = Some k" "found = cursor + k"
        by (auto simp: sub_index_from_def)
      note sub = sub_index_Some [OF k(1)]
      have pre: "prefix needle (drop found hay)" using sub k(2) by (simp add: add.commute)
      have fl: "found + length needle \<le> length hay"
        using prefix_length_le [OF pre] sub k(2) le by auto
      have skip: "\<not> word_at hay needle j" if "cursor \<le> j" "j < found" for j
      proof -
        have "j - cursor < k" using that k(2) by simp
        then have "\<not> prefix needle (drop (j - cursor) (drop cursor hay))" using sub by blast
        then show ?thesis using that(1) by (simp add: word_at_def)
      qed
      let ?ok = "\<not> isWordChar (if found = 0 then CHR '' '' else hay ! (found - 1))
          \<and> \<not> isWordChar (if found + length needle \<ge> length hay then CHR '' '' else hay ! (found + length needle))"
      have at: "word_at hay needle found \<longleftrightarrow> ?ok"
        using pre fl by (auto simp: word_at_def)
      show ?thesis
      proof (cases ?ok)
        case True
        then have "word_loop hay needle cursor = Some (word_result needle found)"
          using le Some by (subst word_loop.simps)
            (simp add: word_result_def SCORE_MATCH_def BONUS_CONSECUTIVE_def BONUS_BOUNDARY_def Let_def)
        moreover have "word_at hay needle found" "cursor \<le> found" using True at k(2) by simp_all
        ultimately show ?thesis using skip by auto
      next
        case False
        then have step: "word_loop hay needle cursor = word_loop hay needle (found + 1)"
          using le Some by (subst word_loop.simps) (auto simp: Let_def)
        have cov: "\<not> word_at hay needle j" if "cursor \<le> j" "j < found + 1" for j
          using that skip at False by (cases "j = found") auto
        have IH: "case word_loop hay needle (found + 1) of
            None \<Rightarrow> \<forall>i \<ge> found + 1. \<not> word_at hay needle i
          | Some m \<Rightarrow> \<exists>i \<ge> found + 1. word_at hay needle i \<and> (\<forall>j. found + 1 \<le> j \<and> j < i \<longrightarrow> \<not> word_at hay needle j)
               \<and> m = word_result needle i"
          using "1.IH" [OF le Some refl refl] False by auto
        show ?thesis
        proof (cases "word_loop hay needle (found + 1)")
          case None
          then have "\<not> word_at hay needle i" if "cursor \<le> i" for i
            using IH cov [OF that] by (cases "i < found + 1") auto
          then show ?thesis unfolding step None by simp
        next
          case (Some m)
          then obtain i where i: "found + 1 \<le> i" "word_at hay needle i" "m = word_result needle i"
            "\<And>j. found + 1 \<le> j \<Longrightarrow> j < i \<Longrightarrow> \<not> word_at hay needle j"
            using IH by auto
          have "\<not> word_at hay needle j" if "cursor \<le> j" "j < i" for j
            using cov [OF that(1)] i(4) [OF _ that(2)] by (cases "j < found + 1") auto
          moreover have "cursor \<le> i" using i(1) k(2) by simp
          ultimately show ?thesis unfolding step Some using i(2,3) by auto
        qed
      qed
    qed
  qed
qed


section \<open>Highlighting\<close>

lemma escapeHtml_append: "escapeHtml (s @ t) = escapeHtml s @ escapeHtml t"
  by (simp add: escapeHtml_def replace_with_def)

definition esc_char :: "char \<Rightarrow> string" where
  "esc_char c =
     (if c = CHR ''&'' then ''&amp;'' else if c = CHR ''<'' then ''&lt;''
      else if c = CHR ''>'' then ''&gt;'' else if c = CHR 0x22 then ''&quot;'' else [c])"

lemma escapeHtml_eq: "escapeHtml s = concat (map esc_char s)"
proof (induction s)
  case (Cons c s)
  have "escapeHtml [c] = esc_char c" by (simp add: escapeHtml_def replace_with_def esc_char_def)
  then show ?case using Cons escapeHtml_append [of "[c]" s] by simp
qed (simp add: escapeHtml_def replace_with_def)

text \<open>The character references \<open>escapeHtml\<close> writes, read back.\<close>

fun unescape_char :: "string \<Rightarrow> char \<times> string" where
  "unescape_char s =
     (if starts_with s ''&amp;'' then (CHR ''&'', drop 5 s)
      else if starts_with s ''&lt;'' then (CHR ''<'', drop 4 s)
      else if starts_with s ''&gt;'' then (CHR ''>'', drop 4 s)
      else if starts_with s ''&quot;'' then (CHR 0x22, drop 6 s)
      else (hd s, tl s))"

lemma unescape_esc: "unescape_char (esc_char c @ s) = (c, s)"
proof -
  consider "c = CHR ''&''" | "c = CHR ''<''" | "c = CHR ''>''" | "c = CHR 0x22"
    | "c \<notin> {CHR ''&'', CHR ''<'', CHR ''>'', CHR 0x22}" by blast
  then show ?thesis
  proof cases
    case 5
    then have "CHR ''&'' \<noteq> c" "esc_char c = [c]" by (auto simp: esc_char_def)
    then show ?thesis by simp
  qed (simp_all add: esc_char_def)
qed

lemma escapeHtml_inj: "escapeHtml s = escapeHtml t \<Longrightarrow> s = t"
proof (induction s arbitrary: t)
  case Nil
  then show ?case by (cases t) (auto simp: escapeHtml_eq esc_char_def split: if_splits)
next
  case (Cons c s)
  show ?case
  proof (cases t)
    case Nil
    then show ?thesis using Cons.prems by (auto simp: escapeHtml_eq esc_char_def split: if_splits)
  next
    case t: (Cons d t')
    then have "esc_char c @ escapeHtml s = esc_char d @ escapeHtml t'" using Cons.prems by (simp add: escapeHtml_eq)
    then have "(c, escapeHtml s) = (d, escapeHtml t')"
      using unescape_esc [of c "escapeHtml s"] unescape_esc [of d "escapeHtml t'"] by simp
    then show ?thesis using Cons.IH t by simp
  qed
qed

text \<open>
  Ranges are in order and apart when each begins after the one before it ends; the indices they
  cover.
\<close>

fun ranges_ok :: "nat \<Rightarrow> (nat \<times> nat) list \<Rightarrow> bool" where
  "ranges_ok n [] = True"
| "ranges_ok n ((a, b) # rs) = (n \<le> a \<and> a < b \<and> ranges_ok (b + 1) rs)"

definition covered :: "(nat \<times> nat) list \<Rightarrow> nat set" where
  "covered rs = (\<Union>(a, b) \<in> set rs. {a..<b})"

lemma range_loop_append: "range_loop xs rs a b = rs @ range_loop xs [] a b"
proof (induction xs arbitrary: rs a b)
  case (Cons x xs)
  show ?case
    using Cons [of "rs @ [(a, b)]"] Cons [of "[(a, b)]"] Cons [of rs] by simp
qed simp

lemma range_loop_ok:
  "sorted_wrt (<) xs \<Longrightarrow> \<forall>x \<in> set xs. b \<le> x \<Longrightarrow> n \<le> a \<Longrightarrow> a < b \<Longrightarrow>
     ranges_ok n (range_loop xs [] a b) \<and> covered (range_loop xs [] a b) = {a..<b} \<union> set xs"
proof (induction xs arbitrary: a b n)
  case Nil
  then show ?case by (simp add: covered_def)
next
  case (Cons x xs)
  have le: "\<forall>y \<in> set xs. x + 1 \<le> y" using Cons.prems(1) by auto
  show ?case
  proof (cases "x = b")
    case True
    then have "{a..<x + 1} = insert x {a..<b}" using Cons.prems(4) by auto
    then show ?thesis using True Cons.IH [OF _ le, of n a] Cons.prems by auto
  next
    case False
    then have "b + 1 \<le> x" using Cons.prems(2) by auto
    moreover have "{x..<x + 1} = {x}" by auto
    ultimately show ?thesis
      using False Cons.IH [OF _ le, of "b + 1" x] Cons.prems range_loop_append [of xs "[(a, b)]"]
      by (auto simp: covered_def)
  qed
qed

text \<open>The pieces of a highlighted text, and what is shown for one.\<close>

fun pieces :: "string \<Rightarrow> nat \<Rightarrow> (nat \<times> nat) list \<Rightarrow> (bool \<times> string) list" where
  "pieces text cursor [] = [(False, drop cursor text)]"
| "pieces text cursor ((a, b) # rs) =
     (False, text_slice text cursor a) # (True, text_slice text a b) # pieces text b rs"

definition show_piece :: "string \<Rightarrow> bool \<times> string \<Rightarrow> string" where
  "show_piece cls p = (if fst p then mark cls (escapeHtml (snd p)) else escapeHtml (snd p))"

lemma highlight_loop_pieces:
  "highlight_loop text cls rs out cursor = out @ concat (map (show_piece cls) (pieces text cursor rs))"
  by (induction "text" cls rs out cursor rule: highlight_loop.induct) (simp_all add: show_piece_def)

lemma ranges_ok_mono: "ranges_ok m rs \<Longrightarrow> n \<le> m \<Longrightarrow> ranges_ok n rs"
  by (cases rs) auto

lemma pieces_text: "ranges_ok cursor rs \<Longrightarrow> concat (map snd (pieces text cursor rs)) = drop cursor text"
proof (induction "text" cursor rs rule: pieces.induct)
  case (2 "text" cursor a b rs)
  then have ab: "cursor \<le> a" "a \<le> b" "ranges_ok b rs" by (auto intro: ranges_ok_mono)
  have slice: "text_slice text x y @ drop y text = drop x text" if "x \<le> y" for x y
    using that append_take_drop_id [of "y - x" "drop x text"] by (simp add: text_slice_def add.commute)
  show ?case using 2 ab slice by simp
qed simp


section \<open>Properties\<close>

lemma exactMatch_picks:
  assumes "exactMatch pattern text cs = Some m"
  shows "picks (fold_case cs text) (indices m) (fold_case cs pattern)"
proof (cases "pattern = []")
  case True
  then show ?thesis using assms by (auto simp: exactMatch_def picks_def)
next
  case False
  then obtain i where i: "sub_index (fold_case cs pattern) (fold_case cs text) = Some i"
    "indices m = map (\<lambda>k. i + k) [0..<length pattern]"
    using assms by (auto simp: exactMatch_def Let_def sub_index_from_def split: option.splits)
  then show ?thesis using prefix_picks [of "fold_case cs pattern" i "fold_case cs text"] sub_index_Some [OF i(1)] by simp
qed

lemma fuzzyMatch_picks:
  assumes "fuzzyMatch pattern text cs = Some m"
  shows "picks (fold_case cs text) (indices m) (fold_case cs pattern)"
proof (cases "pattern = []")
  case True
  then show ?thesis using assms by (auto simp: fuzzyMatch_def picks_def)
next
  case False
  then have "fuzzy_loop text (fold_case cs text) (fold_case cs pattern) [] 0 0 None = Some m"
    using assms by (auto simp: fuzzyMatch_def split: if_splits)
  from fuzzy_loop_sound [OF this, of "[]"] show ?thesis by (simp add: picks_def)
qed

lemma fuzzyMatch_total:
  assumes "subseq (fold_case cs pattern) (fold_case cs text)"
  shows "fuzzyMatch pattern text cs \<noteq> None"
proof (cases "pattern = []")
  case False
  have "length pattern \<le> length text"
    using list_emb_length [OF assms] by simp
  moreover obtain m where "fuzzy_loop text (fold_case cs text) (fold_case cs pattern) [] 0 0 None = Some m"
    using fuzzy_loop_complete [of "fold_case cs pattern" 0 "fold_case cs text" "text" "[]" 0 None] assms by auto
  ultimately show ?thesis using False by (simp add: fuzzyMatch_def)
qed (simp add: fuzzyMatch_def)

lemma exactMatch_iff: "exactMatch pattern text cs \<noteq> None \<longleftrightarrow> sublist (fold_case cs pattern) (fold_case cs text)"
  using sub_index_None [of "fold_case cs pattern" "fold_case cs text"]
  by (cases "pattern = []") (auto simp: exactMatch_def Let_def sub_index_from_def split: option.splits)

lemma wordMatch_spec:
  assumes "pattern \<noteq> []"
  shows "wordMatch pattern text cs =
     (if \<exists>i. word_at (fold_case cs text) (fold_case cs pattern) i
      then Some (word_result (fold_case cs pattern) (LEAST i. word_at (fold_case cs text) (fold_case cs pattern) i))
      else None)"
proof (cases "word_loop (fold_case cs text) (fold_case cs pattern) 0")
  case None
  then show ?thesis using assms word_loop_spec [of 0 "fold_case cs text" "fold_case cs pattern"]
    by (auto simp: wordMatch_def)
next
  case (Some m)
  then obtain i where i: "word_at (fold_case cs text) (fold_case cs pattern) i"
    "\<forall>j < i. \<not> word_at (fold_case cs text) (fold_case cs pattern) j" "m = word_result (fold_case cs pattern) i"
    using word_loop_spec [of 0 "fold_case cs text" "fold_case cs pattern"] by auto
  then have "(LEAST i. word_at (fold_case cs text) (fold_case cs pattern) i) = i"
    by (intro Least_equality) (auto simp: not_less [symmetric])
  then show ?thesis using Some i assms by (auto simp: wordMatch_def)
qed

lemma matchTerm_law:
  "let hay = fold_case cs text; needle = fold_case cs term; r = matchTerm term text mode cs in
   (r \<noteq> None) = (case mode of
        Fuzzy_mode \<Rightarrow> subseq needle hay
      | Exact_mode \<Rightarrow> sublist needle hay
      | Word_mode \<Rightarrow> needle = [] \<or> (\<exists>i. word_at hay needle i))
   \<and> (case r of None \<Rightarrow> True | Some m \<Rightarrow> picks hay (indices m) needle)"
proof -
  let ?hay = "fold_case cs text" and ?needle = "fold_case cs term"
  have ex: "subseq ?needle ?hay" if "sublist ?needle ?hay"
    using that by (rule sublist_imp_subseq)
  have word: "picks ?hay (indices m) ?needle" if m: "wordMatch term text cs = Some m" for m
  proof (cases "term = []")
    case True
    then show ?thesis using m by (auto simp: wordMatch_def picks_def)
  next
    case False
    then obtain i where "word_at ?hay ?needle i" "m = word_result ?needle i"
      using m wordMatch_spec [OF False, of "text" cs] LeastI_ex [of "word_at ?hay ?needle"]
      by (auto split: if_splits)
    then show ?thesis using prefix_picks [of ?needle i ?hay] by (simp add: word_at_def word_result_def)
  qed
  show ?thesis
  proof (cases mode)
    case Fuzzy_mode
    show ?thesis
    proof (cases "exactMatch term text cs")
      case None
      then show ?thesis
        using Fuzzy_mode fuzzyMatch_picks [of "term" "text" cs] fuzzyMatch_total [of cs "term" "text"] picks_subseq
        by (auto simp: matchTerm_def Let_def split: option.split)
    next
      case (Some m)
      then have "sublist ?needle ?hay" using exactMatch_iff [of "term" "text" cs] by simp
      then show ?thesis
        using Fuzzy_mode Some ex exactMatch_picks [OF Some] by (simp add: matchTerm_def Let_def)
    qed
  next
    case Word_mode
    then show ?thesis
      using word wordMatch_spec [of "term" "text" cs]
      by (cases "term = []") (auto simp: matchTerm_def Let_def wordMatch_def split: option.split)
  next
    case Exact_mode
    then show ?thesis
      using exactMatch_iff [of "term" "text" cs] exactMatch_picks [of "term" "text" cs]
      by (auto simp: matchTerm_def Let_def split: option.split)
  qed
qed

text \<open>
  (C33) A term matches a text, case folded unless \<open>caseSensitive\<close>, exactly when its characters occur in
  order (\<open>fuzzy\<close>), next to each other (\<open>exact\<close>), or next to each other with no word character on
  either side (\<open>word\<close>); and the indices of a match are strictly ascending positions of the text that
  spell the term.
\<close>

theorem matchTerm_spec:
  "let hay = fold_case cs text; needle = fold_case cs term; r = matchTerm term text mode cs in
   (r \<noteq> None) = (case mode of
        Fuzzy_mode \<Rightarrow> subseq needle hay
      | Exact_mode \<Rightarrow> sublist needle hay
      | Word_mode \<Rightarrow> needle = [] \<or> (\<exists>i. word_at hay needle i))
   \<and> (case r of None \<Rightarrow> True | Some m \<Rightarrow> picks hay (indices m) needle)"
  by (rule matchTerm_law)

text \<open>
  The highlight ranges of distinct indices are non-empty, in order and apart, and cover exactly the
  indices; and marking ranges that are in order shows the whole text, escaped, once: the pieces that
  are shown, marked or not, concatenate to the text.
\<close>

theorem highlights_cover:
  assumes "distinct idx"
  shows "ranges_ok 0 (toHighlightRanges idx) \<and> covered (toHighlightRanges idx) = set idx
    \<and> (\<exists>ps. applyHighlights text (toHighlightRanges idx) cls = concat (map (show_piece cls) ps)
          \<and> concat (map snd ps) = text
          \<and> map snd (filter fst ps) = map (\<lambda>(a, b). text_slice text a b) (toHighlightRanges idx))"
proof -
  have ranges: "ranges_ok 0 (toHighlightRanges idx) \<and> covered (toHighlightRanges idx) = set idx"
  proof (cases "sort idx")
    case Nil
    then have "idx = []" by (metis set_empty set_sort)
    then show ?thesis by (simp add: toHighlightRanges_def covered_def)
  next
    case (Cons x xs)
    have "sorted_wrt (<) (sort idx)" using assms by (simp add: strict_sorted_iff)
    then have "sorted_wrt (<) xs" "\<forall>y \<in> set xs. x + 1 \<le> y" by (auto simp: Cons)
    moreover have "set idx = insert x (set xs)" using Cons by (metis list.simps(15) set_sort)
    ultimately show ?thesis
      using range_loop_ok [of xs "x + 1" 0 x] Cons by (auto simp: toHighlightRanges_def)
  qed
  let ?rs = "toHighlightRanges idx"
  have marked: "map snd (filter fst (pieces text n rs)) = map (\<lambda>(a, b). text_slice text a b) rs" for n rs
    by (induction "text" n rs rule: pieces.induct) auto
  have "concat (map snd (pieces text 0 ?rs)) = text" using pieces_text [of 0 ?rs "text"] ranges by simp
  moreover have "applyHighlights text ?rs cls = concat (map (show_piece cls) (pieces text 0 ?rs))"
    by (simp add: applyHighlights_def highlight_loop_pieces show_piece_def)
  ultimately show ?thesis using ranges marked by blast
qed

lemma highlights_cover_witness:
  "covered (toHighlightRanges [3, 1, 2 :: nat]) = {1, 2, 3}"
  using highlights_cover [of "[3, 1, 2]" "''abcd''" "''hit''"] by auto

text \<open>
  Indices that repeat, as the merged indices of two overlapping terms do, give overlapping ranges,
  and the marked text then shows a character twice.
\<close>

theorem highlights_repeat_text:
  "toHighlightRanges [0, 1, 1] = [(0, 2), (1, 2)]
   \<and> applyHighlights ''ab'' (toHighlightRanges [0, 1, 1]) ''m'' = mark ''m'' ''ab'' @ mark ''m'' ''b''"
  by (simp add: toHighlightRanges_def applyHighlights_def text_slice_def escapeHtml_eq esc_char_def)

text \<open>
  Escaped text contains no \<open><\<close>, \<open>>\<close> or double quote, so it opens no tag and closes no attribute, and
  escaping loses nothing: different texts stay different.
\<close>

theorem escapeHtml_safe:
  "set (escapeHtml s) \<inter> {CHR ''<'', CHR ''>'', CHR 0x22} = {} \<and> (escapeHtml s = escapeHtml t) = (s = t)"
proof -
  have "CHR ''<'' \<notin> set (esc_char c) \<and> CHR ''>'' \<notin> set (esc_char c) \<and> CHR 0x22 \<notin> set (esc_char c)" for c
    by (auto simp: esc_char_def)
  then show ?thesis using escapeHtml_inj [of s t] by (auto simp: escapeHtml_eq)
qed

text \<open>
  A literal match does not always outrank a scattered one: in a run of separators every character
  earns the boundary bonus and most of them the consecutive bonus, so a fuzzy match with a gap scores
  above the exact match of the same term.
\<close>

theorem fuzzy_outranks_exact:
  "map_option score (matchTerm ''-----'' ''-----'' Fuzzy_mode True) = Some 106
   \<and> map_option score (matchTerm ''-----'' ''-- ---'' Fuzzy_mode True) = Some 113"
  by (simp add: matchTerm_def exactMatch_def fuzzyMatch_def fold_case_def sub_index_from_def index_from_def
      SCORE_MATCH_def BONUS_CONSECUTIVE_def BONUS_BOUNDARY_def BONUS_CAMEL_def PENALTY_GAP_def boundaryBonus_def
      isWordChar_def less_eq_char_def)

end
