(* ===== verification/Dates.thy ===== *)
theory Dates
  imports Prelude
begin

text \<open>
  The dates the program formats: milliseconds since 1970 as a civil date in UTC, and
  \<open>Date.prototype.toISOString\<close>. Used for the names of daily notes and of conflict copies.
\<close>

definition ms_per_day :: nat where "ms_per_day = 86400000"

text \<open>Year, month and day of a day number, by the 400-year cycle of the calendar.\<close>

definition civil_from_days :: "nat \<Rightarrow> nat \<times> nat \<times> nat" where
  "civil_from_days days =
     (let z = days + 719468; era = z div 146097; doe = z mod 146097;
          yoe = (doe + doe div 36524 - doe div 1460 - doe div 146096) div 365;
          doy = doe + yoe div 100 - 365 * yoe - yoe div 4;
          mp = (5 * doy + 2) div 153;
          d = doy + 1 - (153 * mp + 2) div 5;
          m = (if mp < 10 then mp + 3 else mp - 9)
      in (yoe + era * 400 + (if m \<le> 2 then 1 else 0), m, d))"

definition pad2 :: "nat \<Rightarrow> string" where
  "pad2 n = pad_start 2 CHR ''0'' (show_nat n)"

definition iso_date :: "nat \<Rightarrow> string" where
  "iso_date ms =
     (let (y, m, d) = civil_from_days (ms div ms_per_day) in
      pad_start 4 CHR ''0'' (show_nat y) @ ''-'' @ pad2 m @ ''-'' @ pad2 d)"

definition iso_time :: "nat \<Rightarrow> string" where
  "iso_time ms =
     (let s = ms div 1000 mod 86400 in
      pad2 (s div 3600) @ '':'' @ pad2 (s mod 3600 div 60) @ '':'' @ pad2 (s mod 60)
        @ ''.'' @ pad_start 3 CHR ''0'' (show_nat (ms mod 1000)))"

definition toISOString :: "nat \<Rightarrow> string" where
  "toISOString ms = iso_date ms @ ''T'' @ iso_time ms @ ''Z''"

lemma pad2_length: "n < 100 \<Longrightarrow> length (pad2 n) = 2"
  using show_base_length [of 10 n 1] by (simp add: pad2_def length_pad_start)

lemma iso_time_length: "length (iso_time ms) = 12"
proof -
  have "ms div 1000 mod 86400 div 3600 < 100" "ms div 1000 mod 86400 mod 3600 div 60 < 100"
    "ms div 1000 mod 86400 mod 60 < 100" by (simp_all add: less_mult_imp_div_less)
  moreover have "length (show_nat (ms mod 1000)) \<le> 3" using show_base_length [of 10 "ms mod 1000" 2] by simp
  ultimately show ?thesis by (simp add: iso_time_def Let_def pad2_length length_pad_start)
qed

end
