(* ===== verification/Relay.thy ===== *)
theory Relay
  imports Encoding Json
begin

text \<open>
  The client of the sync relay (\<open>packages/core/src/api/relay.ts\<close>) over an arbitrary \<open>fetch\<close>, the
  contract \<open>blob_relay\<close> of a relay as the sync engine sees it, and the blob handlers of the relay
  itself (\<open>relay/internal/server/rest.go\<close>), on which the contract is interpreted.

  The network is the state of the actions. Ed25519 signing is not part of the repository: \<open>sign\<close> is
  a parameter of the client and \<open>verify\<close> one of the server. Rate limits, quotas and a full store are
  the statuses with which a network may refuse a request at any time.
\<close>

section \<open>Messages\<close>

record http_request =
  rq_method :: string
  rq_path :: string
  rq_headers :: "(string \<times> string) list"
  rq_body :: bytes

record http_response =
  rs_status :: nat
  rs_json :: "json option"

type_synonym 'n fetch = "http_request \<Rightarrow> ('n, http_response) act"

record 'n client_env =
  ce_fetch :: "'n fetch"
  ce_seconds :: "'n \<Rightarrow> nat"
  ce_sign :: "bytes \<Rightarrow> bytes \<Rightarrow> bytes"

record relay_client =
  baseUrl :: string
  secretKey :: bytes
  publicKey :: bytes

definition DOMAIN_BLOB :: bytes where "DOMAIN_BLOB = utf8_encode ''tactile-relay/blob/v1''"
definition DOMAIN_DEL :: bytes where "DOMAIN_DEL = utf8_encode ''tactile-relay/del/v1''"
definition DOMAIN_REST :: bytes where "DOMAIN_REST = utf8_encode ''tactile-relay/rest/v1''"

definition concatBytes :: "bytes list \<Rightarrow> bytes" where
  "concatBytes parts = concat parts"

section \<open>The client\<close>

definition strip_slashes :: "string \<Rightarrow> string" where
  "strip_slashes s = rev (dropWhile (\<lambda>c. c = CHR ''/'') (rev s))"

definition relayClient :: "string \<Rightarrow> bytes \<Rightarrow> bytes \<Rightarrow> relay_client" where
  "relayClient url secret pub = \<lparr>baseUrl = strip_slashes url, secretKey = secret, publicKey = pub\<rparr>"

definition identityHeader :: "relay_client \<Rightarrow> string" where
  "identityHeader c = bytesToBase64 (publicKey c)"

definition freshSigHeaders :: "'n client_env \<Rightarrow> relay_client \<Rightarrow> string \<Rightarrow> bytes \<Rightarrow> 'n \<Rightarrow> (string \<times> string) list" where
  "freshSigHeaders env c method i n =
     (let ts = show_nat (ce_seconds env n);
          sig = ce_sign env (concatBytes [DOMAIN_REST, utf8_encode method, i, utf8_encode ts]) (secretKey c)
      in [(''X-Tactile-Identity'', identityHeader c), (''X-Tactile-Timestamp'', ts),
          (''X-Tactile-Signature'', bytesToBase64 sig)])"

definition relay_error :: "http_response \<Rightarrow> js_error" where
  "relay_error res =
     JsError (case rs_json res of None \<Rightarrow> ''status '' @ show_nat (rs_status res)
              | Some j \<Rightarrow> (case member ''message'' j of Some (JStr m) \<Rightarrow> m | _ \<Rightarrow> ''status '' @ show_nat (rs_status res)))"

definition check :: "http_response \<Rightarrow> nat list \<Rightarrow> ('n, http_response) act" where
  "check res okStatuses = (if rs_status res \<notin> set okStatuses then athrow (relay_error res) else aret res)"

definition client_info :: "'n client_env \<Rightarrow> relay_client \<Rightarrow> ('n, json) act" where
  "client_info env c =
     abind (ce_fetch env \<lparr>rq_method = ''GET'', rq_path = baseUrl c @ ''/v1/info'', rq_headers = [], rq_body = []\<rparr>) (\<lambda>res.
     abind (check res [200]) (\<lambda>res.
       case rs_json res of None \<Rightarrow> athrow (JsError ''SyntaxError'') | Some j \<Rightarrow> aret j))"

definition client_put :: "'n client_env \<Rightarrow> relay_client \<Rightarrow> bytes \<Rightarrow> bytes \<Rightarrow> nat \<Rightarrow> ('n, bool) act" where
  "client_put env c i payload ttlSeconds =
     (let sig = ce_sign env (concatBytes [DOMAIN_BLOB, i, int64LE (int ttlSeconds), payload]) (secretKey c) in
      abind (ce_fetch env
        \<lparr>rq_method = ''PUT'', rq_path = baseUrl c @ ''/v1/blobs'',
         rq_headers = [(''X-Tactile-Identity'', identityHeader c), (''X-Tactile-Blob-Id'', bytesToBase64 i),
           (''X-Tactile-Ttl'', show_nat ttlSeconds), (''X-Tactile-Signature'', bytesToBase64 sig)],
         rq_body = payload\<rparr>) (\<lambda>res.
      if rs_status res = 409 then aret False
      else abind (check res [200, 201]) (\<lambda>_. aret True)))"

definition payload_of :: "http_response \<Rightarrow> bytes res" where
  "payload_of res =
     (case rs_json res of None \<Rightarrow> Inl (JsError ''SyntaxError'')
      | Some j \<Rightarrow> (case member ''payload'' j of Some (JStr p) \<Rightarrow> base64ToBytes p
                  | _ \<Rightarrow> Inl (JsError ''InvalidCharacterError'')))"

definition client_get :: "'n client_env \<Rightarrow> relay_client \<Rightarrow> bytes \<Rightarrow> ('n, bytes option) act" where
  "client_get env c i =
     abind (aread (\<lambda>n. freshSigHeaders env c ''GET'' i n)) (\<lambda>headers.
     abind (ce_fetch env
        \<lparr>rq_method = ''GET'', rq_path = baseUrl c @ ''/v1/blobs/'' @ bytesToBase64Url i, rq_headers = headers, rq_body = []\<rparr>) (\<lambda>res.
     if rs_status res = 404 \<or> rs_status res = 410 then aret None
     else abind (check res [200]) (\<lambda>res. abind (alift (payload_of res)) (\<lambda>b. aret (Some b)))))"

record relay_blob_meta =
  bl_id :: bytes
  bl_size :: int
  bl_expiresAt :: int

fun blob_metas :: "json list \<Rightarrow> relay_blob_meta list res" where
  "blob_metas [] = Inr []"
| "blob_metas (item # items) =
     (case (member ''id'' item, member ''size'' item, member ''expires_at'' item) of
        (Some (JStr s), Some (JNum n), Some (JNum e)) \<Rightarrow>
          res_bind (base64ToBytes s) (\<lambda>b.
          res_bind (blob_metas items) (\<lambda>out.
            Inr (if length b \<noteq> 32 then out else \<lparr>bl_id = b, bl_size = n, bl_expiresAt = e\<rparr> # out)))
      | _ \<Rightarrow> Inl (JsError ''TypeError''))"

definition client_list :: "'n client_env \<Rightarrow> relay_client \<Rightarrow> ('n, relay_blob_meta list) act" where
  "client_list env c =
     abind (aread (\<lambda>n. freshSigHeaders env c ''LIST'' [] n)) (\<lambda>headers.
     abind (ce_fetch env \<lparr>rq_method = ''GET'', rq_path = baseUrl c @ ''/v1/blobs'', rq_headers = headers, rq_body = []\<rparr>) (\<lambda>res.
     abind (check res [200]) (\<lambda>res.
       case rs_json res of None \<Rightarrow> athrow (JsError ''SyntaxError'')
       | Some j \<Rightarrow> (case member ''items'' j of
            Some (JArr items) \<Rightarrow> alift (blob_metas items)
          | _ \<Rightarrow> aret []))))"

definition client_remove :: "'n client_env \<Rightarrow> relay_client \<Rightarrow> bytes \<Rightarrow> ('n, unit) act" where
  "client_remove env c i =
     (let sig = ce_sign env (concatBytes [DOMAIN_DEL, i]) (secretKey c) in
      abind (ce_fetch env
        \<lparr>rq_method = ''DELETE'', rq_path = baseUrl c @ ''/v1/blobs/'' @ bytesToBase64Url i,
         rq_headers = [(''X-Tactile-Identity'', identityHeader c), (''X-Tactile-Signature'', bytesToBase64 sig)],
         rq_body = []\<rparr>) (\<lambda>res.
      abind (check res [200, 204, 404]) (\<lambda>_. aret ())))"

section \<open>The contract of a relay\<close>

text \<open>
  What the sync engine calls. Every call may fail and leave the relay as a lost request or a lost reply
  does; it never changes a blob other than its own. \<open>blobs\<close> are the stored blobs of the identity, the
  expired ones included; \<open>live\<close> tells whether a blob is still served.
\<close>

record 'r relay =
  rc_info :: "('r, json) act"
  rc_get :: "bytes \<Rightarrow> ('r, bytes option) act"
  rc_put :: "bytes \<Rightarrow> bytes \<Rightarrow> nat \<Rightarrow> ('r, bool) act"
  rc_remove :: "bytes \<Rightarrow> ('r, unit) act"

definition relay_of :: "'n client_env \<Rightarrow> relay_client \<Rightarrow> 'n relay" where
  "relay_of env c =
     \<lparr>rc_info = client_info env c, rc_get = client_get env c, rc_put = client_put env c, rc_remove = client_remove env c\<rparr>"

locale blob_relay =
  fixes R :: "'r relay"
    and blobs :: "'r \<Rightarrow> bytes \<Rightarrow> bytes option"
    and live :: "'r \<Rightarrow> bytes \<Rightarrow> bool"
  assumes info_law: "rc_info R r = (answer, r') \<Longrightarrow> blobs r' = blobs r \<and> live r' = live r"
    and get_law: "length i = 32 \<Longrightarrow> rc_get R i r = (got, r') \<Longrightarrow>
          (\<forall>j. j \<noteq> i \<longrightarrow> blobs r' j = blobs r j \<and> live r' j = live r j)
          \<and> (live r i \<longrightarrow> blobs r' i = blobs r i \<and> live r' i)
          \<and> (\<forall>b. got = Inr (Some b) \<longrightarrow> live r i \<and> blobs r i = Some b)
          \<and> (got = Inr None \<longrightarrow> \<not> live r i \<or> blobs r i = None)"
    and put_law: "length i = 32 \<Longrightarrow> rc_put R i b ttl r = (stored, r') \<Longrightarrow>
          (\<forall>j. j \<noteq> i \<longrightarrow> blobs r' j = blobs r j \<and> live r' j = live r j)
          \<and> (blobs r i \<noteq> None \<longrightarrow> blobs r' i = blobs r i \<and> live r' i = live r i \<and> stored \<noteq> Inr True)
          \<and> (blobs r i = None \<longrightarrow> (blobs r' i = None \<or> blobs r' i = Some b) \<and> stored \<noteq> Inr False)
          \<and> (stored = Inr True \<longrightarrow> blobs r' i = Some b)"
    and delete_law: "length i = 32 \<Longrightarrow> rc_remove R i r = (gone, r') \<Longrightarrow>
          (\<forall>j. j \<noteq> i \<longrightarrow> blobs r' j = blobs r j \<and> live r' j = live r j)
          \<and> (blobs r' i = None \<or> blobs r' i = blobs r i \<and> live r' i = live r i)
          \<and> (gone = Inr () \<longrightarrow> blobs r' i = None)"
begin

lemma put_stored: "length i = 32 \<Longrightarrow> rc_put R i b ttl r = (Inr y, r') \<Longrightarrow> blobs r' i \<noteq> None"
  using put_law [of i b ttl r "Inr y" r'] by (cases y) auto

lemma put_conflict: "length i = 32 \<Longrightarrow> rc_put R i b ttl r = (Inr False, r') \<Longrightarrow> blobs r' = blobs r"
  using put_law [of i b ttl r "Inr False" r'] by (auto simp: fun_eq_iff)

lemma get_blobs: "length i = 32 \<Longrightarrow> rc_get R i r = (Inr (Some b), r') \<Longrightarrow> blobs r' = blobs r"
  using get_law [of i r "Inr (Some b)" r'] by (auto simp: fun_eq_iff)

end

section \<open>The relay\<close>

text \<open>
  The state of the relay and of the network before it: the stored blobs with their expiry, the time
  in seconds, and what the network does with the requests to come.
\<close>

datatype net_fault = Answered | Refused nat | Lost_request | Lost_reply

record relay_server =
  sv_blobs :: "bytes \<times> bytes \<Rightarrow> (bytes \<times> nat) option"
  sv_now :: nat
  sv_faults :: "nat \<Rightarrow> net_fault"

record server_cfg =
  cf_verify :: "bytes \<Rightarrow> bytes \<Rightarrow> bytes \<Rightarrow> bool"
  cf_allow :: "bytes \<Rightarrow> bool"
  cf_maxBlob :: nat
  cf_minTTL :: nat
  cf_maxTTL :: nat

definition header :: "string \<Rightarrow> http_request \<Rightarrow> string" where
  "header k rq = (case map_of (rq_headers rq) k of None \<Rightarrow> [] | Some v \<Rightarrow> v)"

definition decode_sized :: "nat \<Rightarrow> bytes res \<Rightarrow> bytes option" where
  "decode_sized n r = (case r of Inl _ \<Rightarrow> None | Inr b \<Rightarrow> if length b = n then Some b else None)"

definition parse_decimal :: "string \<Rightarrow> nat option" where
  "parse_decimal s = (if s \<noteq> [] \<and> list_all is_digit s then Some (read_nat s) else None)"

definition status_only :: "nat \<Rightarrow> http_response" where
  "status_only n = \<lparr>rs_status = n, rs_json = Some (JObj [(''type'', JStr ''error'')])\<rparr>"

definition restTimeWindow :: nat where "restTimeWindow = 120"

definition checkFreshSig :: "server_cfg \<Rightarrow> nat \<Rightarrow> http_request \<Rightarrow> bytes \<Rightarrow> string \<Rightarrow> bytes \<Rightarrow> bool" where
  "checkFreshSig cfg now rq pub method i =
     (case parse_decimal (header ''X-Tactile-Timestamp'' rq) of
        None \<Rightarrow> False
      | Some ts \<Rightarrow>
          ts + restTimeWindow \<ge> now \<and> ts \<le> now + restTimeWindow
          \<and> (case decode_sized 64 (base64ToBytes (header ''X-Tactile-Signature'' rq)) of
               None \<Rightarrow> False
             | Some sig \<Rightarrow> cf_verify cfg pub (DOMAIN_REST @ utf8_encode method @ i @ utf8_encode (show_nat ts)) sig))"

definition handlePut :: "server_cfg \<Rightarrow> http_request \<Rightarrow> relay_server \<Rightarrow> http_response \<times> relay_server" where
  "handlePut cfg rq st =
     (case decode_sized 32 (base64ToBytes (header ''X-Tactile-Identity'' rq)) of None \<Rightarrow> (status_only 400, st)
      | Some pub \<Rightarrow> if \<not> cf_allow cfg pub then (status_only 403, st) else
     (case decode_sized 32 (base64ToBytes (header ''X-Tactile-Blob-Id'' rq)) of None \<Rightarrow> (status_only 400, st)
      | Some i \<Rightarrow>
     (case parse_decimal (header ''X-Tactile-Ttl'' rq) of None \<Rightarrow> (status_only 400, st)
      | Some ttl \<Rightarrow>
     (case decode_sized 64 (base64ToBytes (header ''X-Tactile-Signature'' rq)) of None \<Rightarrow> (status_only 400, st)
      | Some sig \<Rightarrow>
          if rq_body rq = [] \<or> length (rq_body rq) > cf_maxBlob cfg then (status_only 413, st)
          else if \<not> cf_verify cfg pub (DOMAIN_BLOB @ i @ int64LE (int ttl) @ rq_body rq) sig then (status_only 403, st)
          else if sv_blobs st (pub, i) \<noteq> None then (status_only 409, st)
          else (status_only 201,
            st\<lparr>sv_blobs := (sv_blobs st)((pub, i) \<mapsto>
                 (rq_body rq, sv_now st + min (max ttl (cf_minTTL cfg)) (cf_maxTTL cfg)))\<rparr>)))))"

definition handleGet :: "server_cfg \<Rightarrow> bytes option \<Rightarrow> http_request \<Rightarrow> relay_server \<Rightarrow> http_response \<times> relay_server" where
  "handleGet cfg target rq st =
     (case decode_sized 32 (base64ToBytes (header ''X-Tactile-Identity'' rq)) of None \<Rightarrow> (status_only 400, st)
      | Some pub \<Rightarrow> if \<not> cf_allow cfg pub then (status_only 403, st) else
     (case target of None \<Rightarrow> (status_only 400, st)
      | Some i \<Rightarrow>
          if \<not> checkFreshSig cfg (sv_now st) rq pub ''GET'' i then (status_only 403, st)
          else (case sv_blobs st (pub, i) of
                  None \<Rightarrow> (status_only 404, st)
                | Some (payload, expires) \<Rightarrow>
                    if expires \<le> sv_now st then (status_only 410, st\<lparr>sv_blobs := (sv_blobs st)((pub, i) := None)\<rparr>)
                    else (\<lparr>rs_status = 200, rs_json = Some (JObj [(''type'', JStr ''blob''),
                        (''id'', JStr (bytesToBase64 i)), (''payload'', JStr (bytesToBase64 payload)),
                        (''expires_at'', JNum (int expires))])\<rparr>, st))))"

definition handleDelete :: "server_cfg \<Rightarrow> bytes option \<Rightarrow> http_request \<Rightarrow> relay_server \<Rightarrow> http_response \<times> relay_server" where
  "handleDelete cfg target rq st =
     (case decode_sized 32 (base64ToBytes (header ''X-Tactile-Identity'' rq)) of None \<Rightarrow> (status_only 400, st)
      | Some pub \<Rightarrow> if \<not> cf_allow cfg pub then (status_only 403, st) else
     (case target of None \<Rightarrow> (status_only 400, st)
      | Some i \<Rightarrow>
     (case decode_sized 64 (base64ToBytes (header ''X-Tactile-Signature'' rq)) of None \<Rightarrow> (status_only 400, st)
      | Some sig \<Rightarrow>
          if \<not> cf_verify cfg pub (DOMAIN_DEL @ i) sig then (status_only 403, st)
          else if sv_blobs st (pub, i) = None then (status_only 404, st)
          else (\<lparr>rs_status = 204, rs_json = None\<rparr>, st\<lparr>sv_blobs := (sv_blobs st)((pub, i) := None)\<rparr>))))"

text \<open>The routes of the mux: the part of the path after the address of the relay picks the handler.\<close>

definition blob_route :: "string \<Rightarrow> string \<Rightarrow> bytes option" where
  "blob_route base path =
     (let p = base @ ''/v1/blobs/'' in
      if starts_with path p then decode_sized 32 (base64UrlToBytes (drop (length p) path)) else None)"

definition serve :: "server_cfg \<Rightarrow> string \<Rightarrow> http_request \<Rightarrow> relay_server \<Rightarrow> http_response \<times> relay_server" where
  "serve cfg base rq st =
     (if rq_method rq = ''PUT'' \<and> rq_path rq = base @ ''/v1/blobs'' then handlePut cfg rq st
      else if rq_method rq = ''GET'' \<and> rq_path rq = base @ ''/v1/info'' then
        (\<lparr>rs_status = 200, rs_json = Some (JObj [(''max_blob_size'', JNum (int (cf_maxBlob cfg)))])\<rparr>, st)
      else if rq_method rq = ''GET'' \<and> starts_with (rq_path rq) (base @ ''/v1/blobs/'')
      then handleGet cfg (blob_route base (rq_path rq)) rq st
      else if rq_method rq = ''DELETE'' \<and> starts_with (rq_path rq) (base @ ''/v1/blobs/'')
      then handleDelete cfg (blob_route base (rq_path rq)) rq st
      else (status_only 405, st))"

definition relay_fetch :: "server_cfg \<Rightarrow> string \<Rightarrow> relay_server fetch" where
  "relay_fetch cfg base rq st =
     (let fault = sv_faults st 0; st = st\<lparr>sv_faults := \<lambda>n. sv_faults st (Suc n)\<rparr> in
      case fault of
        Answered \<Rightarrow> (case serve cfg base rq st of (res, st') \<Rightarrow> (Inr res, st'))
      | Refused n \<Rightarrow> (Inr (status_only (if n \<in> {200, 201, 204, 404, 409, 410} then 503 else n)), st)
      | Lost_request \<Rightarrow> (Inl (JsError ''TimeoutError''), st)
      | Lost_reply \<Rightarrow> (Inl (JsError ''TimeoutError''), snd (serve cfg base rq st)))"

text \<open>The blobs of one identity, and those still served.\<close>

definition server_blobs :: "bytes \<Rightarrow> relay_server \<Rightarrow> bytes \<Rightarrow> bytes option" where
  "server_blobs pub st i = map_option fst (sv_blobs st (pub, i))"

definition server_live :: "bytes \<Rightarrow> relay_server \<Rightarrow> bytes \<Rightarrow> bool" where
  "server_live pub st i = (case sv_blobs st (pub, i) of None \<Rightarrow> False | Some (b, e) \<Rightarrow> sv_now st < e)"

lemma server_live_iff: "server_live pub st i \<longleftrightarrow> (\<exists>b e. sv_blobs st (pub, i) = Some (b, e) \<and> sv_now st < e)"
  by (auto simp: server_live_def split: option.splits)

lemma decode_sized_Inr [simp]: "decode_sized n (Inr b) = (if length b = n then Some b else None)"
  by (simp add: decode_sized_def)

lemma status_only_status [simp]: "rs_status (status_only n) = n"
  by (simp add: status_only_def)

lemma handlePut_eval:
  assumes "length i = 32"
    and "header ''X-Tactile-Identity'' rq = bytesToBase64 pub" "header ''X-Tactile-Blob-Id'' rq = bytesToBase64 i"
  shows "handlePut cfg rq st =
    (if length pub \<noteq> 32 then (status_only 400, st) else if \<not> cf_allow cfg pub then (status_only 403, st)
     else case (parse_decimal (header ''X-Tactile-Ttl'' rq), decode_sized 64 (base64ToBytes (header ''X-Tactile-Signature'' rq))) of
       (Some ttl, Some sig) \<Rightarrow>
          if rq_body rq = [] \<or> length (rq_body rq) > cf_maxBlob cfg then (status_only 413, st)
          else if \<not> cf_verify cfg pub (DOMAIN_BLOB @ i @ int64LE (int ttl) @ rq_body rq) sig then (status_only 403, st)
          else if sv_blobs st (pub, i) \<noteq> None then (status_only 409, st)
          else (status_only 201, st\<lparr>sv_blobs := (sv_blobs st)((pub, i) \<mapsto>
                 (rq_body rq, sv_now st + min (max ttl (cf_minTTL cfg)) (cf_maxTTL cfg)))\<rparr>)
     | _ \<Rightarrow> (status_only 400, st))"
  by (simp add: handlePut_def assms split: option.split)

lemma handlePut_cases:
  assumes "handlePut cfg rq st = (res, st')" "length i = 32"
    and "header ''X-Tactile-Identity'' rq = bytesToBase64 pub" "header ''X-Tactile-Blob-Id'' rq = bytesToBase64 i"
  obtains (stored) e where "rs_status res = 201" "sv_blobs st (pub, i) = None" "sv_now st' = sv_now st"
      "sv_blobs st' = (sv_blobs st)((pub, i) \<mapsto> (rq_body rq, e))"
    | (exists) "rs_status res = 409" "sv_blobs st (pub, i) \<noteq> None" "st' = st"
    | (rejected) "rs_status res \<notin> {200, 201, 409}" "st' = st"
proof -
  note run = assms(1) [unfolded handlePut_eval [OF assms(2-4)]]
  show ?thesis
  proof (cases "length pub = 32 \<and> cf_allow cfg pub")
    case False
    then have "rs_status res \<notin> {200, 201, 409}" "st' = st" using run by (auto split: if_split_asm)
    then show ?thesis by (rule rejected)
  next
    case ok: True
    show ?thesis
    proof (cases "parse_decimal (header ''X-Tactile-Ttl'' rq)")
      case None
      then have "rs_status res \<notin> {200, 201, 409}" "st' = st" using run ok by auto
      then show ?thesis by (rule rejected)
    next
      case ttl: (Some ttl)
      show ?thesis
      proof (cases "decode_sized 64 (base64ToBytes (header ''X-Tactile-Signature'' rq))")
        case None
        then have "rs_status res \<notin> {200, 201, 409}" "st' = st" using run ok ttl by auto
        then show ?thesis by (rule rejected)
      next
        case (Some sig)
        let ?bad = "rq_body rq = [] \<or> length (rq_body rq) > cf_maxBlob cfg
          \<or> \<not> cf_verify cfg pub (DOMAIN_BLOB @ i @ int64LE (int ttl) @ rq_body rq) sig"
        consider "?bad" | "\<not> ?bad" "sv_blobs st (pub, i) \<noteq> None" | "\<not> ?bad" "sv_blobs st (pub, i) = None" by blast
        then show ?thesis
        proof cases
          case 1
          then have "rs_status res \<notin> {200, 201, 409}" "st' = st" using run ok ttl Some by (auto split: if_split_asm)
          then show ?thesis by (rule rejected)
        next
          case 2
          then have "rs_status res = 409" "st' = st" using run ok ttl Some by auto
          then show ?thesis using exists 2(2) by blast
        next
          case 3
          then have "res = status_only 201" "st' = st\<lparr>sv_blobs := (sv_blobs st)((pub, i) \<mapsto>
                 (rq_body rq, sv_now st + min (max ttl (cf_minTTL cfg)) (cf_maxTTL cfg)))\<rparr>"
            using run ok ttl Some by auto
          then show ?thesis using stored 3(2) by simp
        qed
      qed
    qed
  qed
qed

lemma handleGet_cases:
  assumes "handleGet cfg (Some i) rq st = (res, st')"
    and "header ''X-Tactile-Identity'' rq = bytesToBase64 pub"
  obtains (found) b e j where "rs_status res = 200" "st' = st" "sv_blobs st (pub, i) = Some (b, e)" "sv_now st < e"
      "rs_json res = Some j" "member ''payload'' j = Some (JStr (bytesToBase64 b))"
    | (missing) "rs_status res = 404" "sv_blobs st (pub, i) = None" "st' = st"
    | (expired) "rs_status res = 410" "\<not> server_live pub st i" "sv_blobs st' = (sv_blobs st)((pub, i) := None)" "sv_now st' = sv_now st"
    | (rejected) "rs_status res \<notin> {200, 404, 410}" "st' = st"
proof -
  have eval: "handleGet cfg (Some i) rq st =
    (if length pub \<noteq> 32 then (status_only 400, st) else if \<not> cf_allow cfg pub then (status_only 403, st)
     else if \<not> checkFreshSig cfg (sv_now st) rq pub ''GET'' i then (status_only 403, st)
     else case sv_blobs st (pub, i) of None \<Rightarrow> (status_only 404, st)
       | Some (b, e) \<Rightarrow>
          if e \<le> sv_now st then (status_only 410, st\<lparr>sv_blobs := (sv_blobs st)((pub, i) := None)\<rparr>)
          else (\<lparr>rs_status = 200, rs_json = Some (JObj [(''type'', JStr ''blob''),
                        (''id'', JStr (bytesToBase64 i)), (''payload'', JStr (bytesToBase64 b)),
                        (''expires_at'', JNum (int e))])\<rparr>, st))"
    by (simp add: handleGet_def assms(2))
  note run = assms(1) [unfolded eval]
  show ?thesis
  proof (cases "length pub = 32 \<and> cf_allow cfg pub \<and> checkFreshSig cfg (sv_now st) rq pub ''GET'' i")
    case False
    then have "rs_status res \<notin> {200, 404, 410}" "st' = st" using run by (auto split: if_split_asm)
    then show ?thesis by (rule rejected)
  next
    case ok: True
    show ?thesis
    proof (cases "sv_blobs st (pub, i)")
      case None
      then have "rs_status res = 404" "st' = st" using run ok by auto
      then show ?thesis using missing None by blast
    next
      case (Some p)
      obtain b e where p: "p = (b, e)" by (cases p)
      show ?thesis
      proof (cases "e \<le> sv_now st")
        case True
        then have "rs_status res = 410" "st' = st\<lparr>sv_blobs := (sv_blobs st)((pub, i) := None)\<rparr>"
          using run ok Some p by auto
        then show ?thesis using expired True Some p by (simp add: server_live_def)
      next
        case False
        then have "res = \<lparr>rs_status = 200, rs_json = Some (JObj [(''type'', JStr ''blob''),
                        (''id'', JStr (bytesToBase64 i)), (''payload'', JStr (bytesToBase64 b)),
                        (''expires_at'', JNum (int e))])\<rparr>" "st' = st"
          using run ok Some p by auto
        then show ?thesis using found [of b e] False Some p by simp
      qed
    qed
  qed
qed

lemma handleDelete_cases:
  assumes "handleDelete cfg (Some i) rq st = (res, st')"
    and "header ''X-Tactile-Identity'' rq = bytesToBase64 pub"
  obtains (removed) "rs_status res = 204" "sv_blobs st' = (sv_blobs st)((pub, i) := None)" "sv_now st' = sv_now st"
    | (missing) "rs_status res = 404" "sv_blobs st (pub, i) = None" "st' = st"
    | (rejected) "rs_status res \<notin> {200, 204, 404}" "st' = st"
proof -
  have eval: "handleDelete cfg (Some i) rq st =
    (if length pub \<noteq> 32 then (status_only 400, st) else if \<not> cf_allow cfg pub then (status_only 403, st)
     else case decode_sized 64 (base64ToBytes (header ''X-Tactile-Signature'' rq)) of None \<Rightarrow> (status_only 400, st)
      | Some sig \<Rightarrow>
          if \<not> cf_verify cfg pub (DOMAIN_DEL @ i) sig then (status_only 403, st)
          else if sv_blobs st (pub, i) = None then (status_only 404, st)
          else (\<lparr>rs_status = 204, rs_json = None\<rparr>, st\<lparr>sv_blobs := (sv_blobs st)((pub, i) := None)\<rparr>))"
    by (simp add: handleDelete_def assms(2))
  note run = assms(1) [unfolded eval]
  show ?thesis
  proof (cases "decode_sized 64 (base64ToBytes (header ''X-Tactile-Signature'' rq))")
    case None
    then have "rs_status res \<notin> {200, 204, 404}" "st' = st" using run by (auto split: if_split_asm)
    then show ?thesis by (rule rejected)
  next
    case (Some sig)
    consider "length pub = 32 \<and> cf_allow cfg pub \<and> cf_verify cfg pub (DOMAIN_DEL @ i) sig" "sv_blobs st (pub, i) = None"
      | "length pub = 32 \<and> cf_allow cfg pub \<and> cf_verify cfg pub (DOMAIN_DEL @ i) sig" "sv_blobs st (pub, i) \<noteq> None"
      | "\<not> (length pub = 32 \<and> cf_allow cfg pub \<and> cf_verify cfg pub (DOMAIN_DEL @ i) sig)" by blast
    then show ?thesis
    proof cases
      case 1
      then have "rs_status res = 404" "st' = st" using run Some by auto
      then show ?thesis using missing 1 by blast
    next
      case 2
      then have "res = \<lparr>rs_status = 204, rs_json = None\<rparr>" "st' = st\<lparr>sv_blobs := (sv_blobs st)((pub, i) := None)\<rparr>"
        using run Some by auto
      then show ?thesis using removed by simp
    next
      case 3
      then have "rs_status res \<notin> {200, 204, 404}" "st' = st" using run Some by (auto split: if_split_asm)
      then show ?thesis by (rule rejected)
    qed
  qed
qed

lemma blob_route_id [simp]: "length i = 32 \<Longrightarrow> blob_route base (base @ ''/v1/blobs/'' @ bytesToBase64Url i) = Some i"
  using base64_reads_back(2) [of i]
  by (simp add: blob_route_def Let_def decode_sized_def prefix_def)

lemma fetch_cases:
  assumes "relay_fetch cfg base rq st = (x, st')"
  obtains (answered) res st0 where "x = Inr res" "sv_blobs st0 = sv_blobs st" "sv_now st0 = sv_now st" "serve cfg base rq st0 = (res, st')"
  | (refused) res where "x = Inr res" "rs_status res \<notin> {200, 201, 204, 404, 409, 410}" "sv_blobs st' = sv_blobs st" "sv_now st' = sv_now st"
  | (lost) e where "x = Inl e" "sv_blobs st' = sv_blobs st" "sv_now st' = sv_now st"
  | (lost_reply) e res st0 where "x = Inl e" "sv_blobs st0 = sv_blobs st" "sv_now st0 = sv_now st" "serve cfg base rq st0 = (res, st')"
proof -
  let ?st = "st\<lparr>sv_faults := \<lambda>n. sv_faults st (Suc n)\<rparr>"
  obtain res st1 where sv: "serve cfg base rq ?st = (res, st1)" by fastforce
  show ?thesis
  proof (cases "sv_faults st 0")
    case Answered
    then show ?thesis using assms sv answered [of res ?st] by (simp add: relay_fetch_def Let_def)
  next
    case (Refused n)
    then show ?thesis using assms refused [of "status_only (if n \<in> {200, 201, 204, 404, 409, 410} then 503 else n)"]
      by (auto simp: relay_fetch_def Let_def)
  next
    case Lost_request
    then show ?thesis using assms lost by (auto simp: relay_fetch_def Let_def)
  next
    case Lost_reply
    then show ?thesis using assms sv lost_reply [of _ ?st res] by (auto simp: relay_fetch_def Let_def)
  qed
qed

section \<open>The client over the relay keeps the contract\<close>

definition server_env :: "server_cfg \<Rightarrow> string \<Rightarrow> (bytes \<Rightarrow> bytes \<Rightarrow> bytes) \<Rightarrow> relay_server client_env" where
  "server_env cfg base sign = \<lparr>ce_fetch = relay_fetch cfg base, ce_seconds = sv_now, ce_sign = sign\<rparr>"

lemma server_cong:
  "sv_blobs st' = sv_blobs st \<Longrightarrow> server_blobs pub st' = server_blobs pub st"
  "sv_blobs st' = sv_blobs st \<Longrightarrow> sv_now st' = sv_now st \<Longrightarrow> server_live pub st' = server_live pub st"
  by (simp_all add: server_blobs_def server_live_iff fun_eq_iff)

lemma get_route:
  assumes "length i = 32"
  shows "serve cfg base \<lparr>rq_method = ''GET'', rq_path = base @ ''/v1/blobs/'' @ bytesToBase64Url i, rq_headers = hs, rq_body = []\<rparr> st
      = handleGet cfg (Some i) \<lparr>rq_method = ''GET'', rq_path = base @ ''/v1/blobs/'' @ bytesToBase64Url i, rq_headers = hs, rq_body = []\<rparr> st"
    "serve cfg base \<lparr>rq_method = ''DELETE'', rq_path = base @ ''/v1/blobs/'' @ bytesToBase64Url i, rq_headers = hs, rq_body = []\<rparr> st
      = handleDelete cfg (Some i) \<lparr>rq_method = ''DELETE'', rq_path = base @ ''/v1/blobs/'' @ bytesToBase64Url i, rq_headers = hs, rq_body = []\<rparr> st"
    "serve cfg base \<lparr>rq_method = ''PUT'', rq_path = base @ ''/v1/blobs'', rq_headers = hs, rq_body = b\<rparr> st
      = handlePut cfg \<lparr>rq_method = ''PUT'', rq_path = base @ ''/v1/blobs'', rq_headers = hs, rq_body = b\<rparr> st"
  using blob_route_id [OF assms, of base] by (simp_all add: serve_def prefix_def)

lemma client_put_law:
  assumes "length i = 32" "client_put (server_env cfg (baseUrl c) sign) c i b ttl st = (x, st')"
  shows "(\<forall>j. j \<noteq> i \<longrightarrow> server_blobs (publicKey c) st' j = server_blobs (publicKey c) st j
             \<and> server_live (publicKey c) st' j = server_live (publicKey c) st j)
    \<and> (server_blobs (publicKey c) st i \<noteq> None \<longrightarrow> server_blobs (publicKey c) st' i = server_blobs (publicKey c) st i
         \<and> server_live (publicKey c) st' i = server_live (publicKey c) st i \<and> x \<noteq> Inr True)
    \<and> (server_blobs (publicKey c) st i = None \<longrightarrow>
         (server_blobs (publicKey c) st' i = None \<or> server_blobs (publicKey c) st' i = Some b) \<and> x \<noteq> Inr False)
    \<and> (x = Inr True \<longrightarrow> server_blobs (publicKey c) st' i = Some b)"
proof -
  let ?pub = "publicKey c"
  let ?hs = "[(''X-Tactile-Identity'', identityHeader c), (''X-Tactile-Blob-Id'', bytesToBase64 i),
      (''X-Tactile-Ttl'', show_nat ttl),
      (''X-Tactile-Signature'', bytesToBase64 (sign (concatBytes [DOMAIN_BLOB, i, int64LE (int ttl), b]) (secretKey c)))]"
  let ?rq = "\<lparr>rq_method = ''PUT'', rq_path = baseUrl c @ ''/v1/blobs'', rq_headers = ?hs, rq_body = b\<rparr>"
  have hs: "header ''X-Tactile-Identity'' ?rq = bytesToBase64 ?pub" "header ''X-Tactile-Blob-Id'' ?rq = bytesToBase64 i"
    by (simp_all add: header_def identityHeader_def)
  have changes: "server_blobs ?pub st1 = server_blobs ?pub st \<and> server_live ?pub st1 = server_live ?pub st \<and> rs_status res \<notin> {200, 201}
        \<and> (rs_status res = 409 \<longrightarrow> server_blobs ?pub st i \<noteq> None)
      \<or> rs_status res = 201 \<and> server_blobs ?pub st i = None \<and> server_blobs ?pub st1 i = Some b
        \<and> (\<forall>j. j \<noteq> i \<longrightarrow> server_blobs ?pub st1 j = server_blobs ?pub st j \<and> server_live ?pub st1 j = server_live ?pub st j)"
    if sv: "serve cfg (baseUrl c) ?rq st0 = (res, st1)" "sv_blobs st0 = sv_blobs st" "sv_now st0 = sv_now st" for st0 res st1
    using sv(1) unfolding get_route(3) [OF assms(1)]
  proof (cases rule: handlePut_cases [OF _ assms(1) hs, consumes 1, case_names stored exists rejected])
    case (stored e)
    then show ?thesis using sv(2,3) by (simp add: server_blobs_def server_live_iff)
  next
    case exists
    then show ?thesis using sv(2,3) server_cong [of st1 st] by (simp add: server_blobs_def)
  next
    case rejected
    then show ?thesis using sv(2,3) server_cong [of st1 st] by simp
  qed
  obtain y st1 where f: "relay_fetch cfg (baseUrl c) ?rq st = (y, st1)" by fastforce
  have run: "(x, st') = (case y of Inl e \<Rightarrow> (Inl e, st1)
      | Inr res \<Rightarrow> if rs_status res = 409 then (Inr False, st1)
                   else if rs_status res \<in> {200, 201} then (Inr True, st1) else (Inl (relay_error res), st1))"
    using assms(2) f
    by (auto simp: client_put_def server_env_def act_simps check_def Let_def split: sum.split)
  show ?thesis
    using f
  proof (cases rule: fetch_cases)
    case (answered res st0)
    then show ?thesis using changes [OF answered(4,2,3)] run by (auto split: if_split_asm)
  next
    case (refused res)
    then show ?thesis using run server_cong [of st1 st] by (auto split: if_split_asm)
  next
    case (lost e)
    then show ?thesis using run server_cong [of st1 st] by auto
  next
    case (lost_reply e res st0)
    then show ?thesis using changes [OF lost_reply(4,2,3)] run by auto
  qed
qed

lemma client_get_law:
  assumes "length i = 32" "client_get (server_env cfg (baseUrl c) sign) c i st = (x, st')"
  shows "(\<forall>j. j \<noteq> i \<longrightarrow> server_blobs (publicKey c) st' j = server_blobs (publicKey c) st j
             \<and> server_live (publicKey c) st' j = server_live (publicKey c) st j)
    \<and> (server_live (publicKey c) st i \<longrightarrow> server_blobs (publicKey c) st' i = server_blobs (publicKey c) st i
         \<and> server_live (publicKey c) st' i)
    \<and> (\<forall>b. x = Inr (Some b) \<longrightarrow> server_live (publicKey c) st i \<and> server_blobs (publicKey c) st i = Some b)
    \<and> (x = Inr None \<longrightarrow> \<not> server_live (publicKey c) st i \<or> server_blobs (publicKey c) st i = None)"
proof -
  let ?pub = "publicKey c" and ?env = "server_env cfg (baseUrl c) sign"
  let ?rq = "\<lparr>rq_method = ''GET'', rq_path = baseUrl c @ ''/v1/blobs/'' @ bytesToBase64Url i,
      rq_headers = freshSigHeaders ?env c ''GET'' i st, rq_body = []\<rparr>"
  have hs: "header ''X-Tactile-Identity'' ?rq = bytesToBase64 ?pub"
    by (simp add: header_def identityHeader_def freshSigHeaders_def Let_def)
  have changes: "server_blobs ?pub st1 = server_blobs ?pub st \<and> server_live ?pub st1 = server_live ?pub st
        \<and> (rs_status res \<notin> {200, 404, 410}
           \<or> rs_status res = 404 \<and> server_blobs ?pub st i = None
           \<or> rs_status res = 200 \<and> (\<exists>b j. server_live ?pub st i \<and> server_blobs ?pub st i = Some b
                \<and> rs_json res = Some j \<and> member ''payload'' j = Some (JStr (bytesToBase64 b))))
      \<or> rs_status res = 410 \<and> \<not> server_live ?pub st i
        \<and> (\<forall>j. j \<noteq> i \<longrightarrow> server_blobs ?pub st1 j = server_blobs ?pub st j \<and> server_live ?pub st1 j = server_live ?pub st j)"
    if sv: "serve cfg (baseUrl c) ?rq st0 = (res, st1)" "sv_blobs st0 = sv_blobs st" "sv_now st0 = sv_now st" for st0 res st1
    using sv(1) unfolding get_route(1) [OF assms(1)]
  proof (cases rule: handleGet_cases [OF _ hs, consumes 1, case_names found missing expired rejected])
    case (found b e j)
    then show ?thesis using sv(2,3) server_cong [of st1 st] by (auto simp: server_blobs_def server_live_iff)
  next
    case missing
    then show ?thesis using sv(2,3) server_cong [of st1 st] by (simp add: server_blobs_def)
  next
    case expired
    then show ?thesis using sv(2,3) server_cong [of st0 st] by (auto simp: server_blobs_def server_live_iff)
  next
    case rejected
    then show ?thesis using sv(2,3) server_cong [of st1 st] by simp
  qed
  obtain y st1 where f: "relay_fetch cfg (baseUrl c) ?rq st = (y, st1)" by fastforce
  have run: "case y of Inl e \<Rightarrow> x = Inl e \<and> st' = st1
      | Inr res \<Rightarrow> st' = st1 \<and>
          (if rs_status res \<in> {404, 410} then x = Inr None
           else if rs_status res \<noteq> 200 then x = Inl (relay_error res)
           else (\<forall>j p. rs_json res = Some j \<and> member ''payload'' j = Some (JStr (bytesToBase64 p)) \<longrightarrow> x = Inr (Some p)))"
    using assms(2) f
    by (auto simp: client_get_def server_env_def act_simps check_def Let_def payload_of_def
        split: sum.splits)
  show ?thesis
    using f
  proof (cases rule: fetch_cases)
    case (answered res st0)
    then show ?thesis using changes [OF answered(4,2,3)] run by (auto split: if_split_asm)
  next
    case (refused res)
    then show ?thesis using run server_cong [of st1 st] by (auto split: if_split_asm)
  next
    case (lost e)
    then show ?thesis using run server_cong [of st1 st] by auto
  next
    case (lost_reply e res st0)
    then show ?thesis using changes [OF lost_reply(4,2,3)] run by auto
  qed
qed

lemma client_remove_law:
  assumes "length i = 32" "client_remove (server_env cfg (baseUrl c) sign) c i st = (x, st')"
  shows "(\<forall>j. j \<noteq> i \<longrightarrow> server_blobs (publicKey c) st' j = server_blobs (publicKey c) st j
             \<and> server_live (publicKey c) st' j = server_live (publicKey c) st j)
    \<and> (server_blobs (publicKey c) st' i = None
        \<or> server_blobs (publicKey c) st' i = server_blobs (publicKey c) st i
          \<and> server_live (publicKey c) st' i = server_live (publicKey c) st i)
    \<and> (x = Inr () \<longrightarrow> server_blobs (publicKey c) st' i = None)"
proof -
  let ?pub = "publicKey c"
  let ?rq = "\<lparr>rq_method = ''DELETE'', rq_path = baseUrl c @ ''/v1/blobs/'' @ bytesToBase64Url i,
      rq_headers = [(''X-Tactile-Identity'', identityHeader c),
        (''X-Tactile-Signature'', bytesToBase64 (sign (concatBytes [DOMAIN_DEL, i]) (secretKey c)))], rq_body = []\<rparr>"
  have hs: "header ''X-Tactile-Identity'' ?rq = bytesToBase64 ?pub"
    by (simp add: header_def identityHeader_def)
  have changes: "server_blobs ?pub st1 = server_blobs ?pub st \<and> server_live ?pub st1 = server_live ?pub st
        \<and> (rs_status res \<notin> {200, 204, 404} \<or> rs_status res = 404 \<and> server_blobs ?pub st i = None)
      \<or> rs_status res = 204 \<and> server_blobs ?pub st1 i = None
        \<and> (\<forall>j. j \<noteq> i \<longrightarrow> server_blobs ?pub st1 j = server_blobs ?pub st j \<and> server_live ?pub st1 j = server_live ?pub st j)"
    if sv: "serve cfg (baseUrl c) ?rq st0 = (res, st1)" "sv_blobs st0 = sv_blobs st" "sv_now st0 = sv_now st" for st0 res st1
    using sv(1) unfolding get_route(2) [OF assms(1)]
  proof (cases rule: handleDelete_cases [OF _ hs, consumes 1, case_names removed missing rejected])
    case removed
    then show ?thesis using sv(2,3) by (auto simp: server_blobs_def server_live_iff)
  next
    case missing
    then show ?thesis using sv(2,3) server_cong [of st1 st] by (simp add: server_blobs_def)
  next
    case rejected
    then show ?thesis using sv(2,3) server_cong [of st1 st] by simp
  qed
  obtain y st1 where f: "relay_fetch cfg (baseUrl c) ?rq st = (y, st1)" by fastforce
  have run: "(x, st') = (case y of Inl e \<Rightarrow> (Inl e, st1)
      | Inr res \<Rightarrow> if rs_status res \<in> {200, 204, 404} then (Inr (), st1) else (Inl (relay_error res), st1))"
    using assms(2) f
    by (auto simp: client_remove_def server_env_def act_simps check_def Let_def split: sum.split)
  show ?thesis
    using f
  proof (cases rule: fetch_cases)
    case (answered res st0)
    then show ?thesis using changes [OF answered(4,2,3)] run by (auto split: if_split_asm)
  next
    case (refused res)
    then show ?thesis using run server_cong [of st1 st] by (auto split: if_split_asm)
  next
    case (lost e)
    then show ?thesis using run server_cong [of st1 st] by auto
  next
    case (lost_reply e res st0)
    then show ?thesis using changes [OF lost_reply(4,2,3)] run by auto
  qed
qed

lemma client_info_law:
  assumes "client_info (server_env cfg (baseUrl c) sign) c st = (x, st')"
  shows "server_blobs (publicKey c) st' = server_blobs (publicKey c) st
    \<and> server_live (publicKey c) st' = server_live (publicKey c) st"
proof -
  let ?rq = "\<lparr>rq_method = ''GET'', rq_path = baseUrl c @ ''/v1/info'', rq_headers = [], rq_body = []\<rparr>"
  obtain y st1 where f: "relay_fetch cfg (baseUrl c) ?rq st = (y, st1)" by fastforce
  have run: "st' = st1"
    using assms f by (auto simp: client_info_def server_env_def act_simps check_def split: sum.splits if_splits option.splits)
  have same: "snd (serve cfg (baseUrl c) ?rq st0) = st0" for st0 by (simp add: serve_def)
  have "sv_blobs st1 = sv_blobs st \<and> sv_now st1 = sv_now st"
    using f
  proof (cases rule: fetch_cases)
    case (answered res st0)
    then show ?thesis using same [of st0] by simp
  next
    case (lost_reply e res st0)
    then show ?thesis using same [of st0] by simp
  qed simp_all
  then show ?thesis using run server_cong [of st1 st] by simp
qed

interpretation http_relay: blob_relay
  "relay_of (server_env cfg (baseUrl c) sign) c" "server_blobs (publicKey c)" "server_live (publicKey c)"
  for cfg c sign
proof unfold_locales
  fix r answer r'
  assume "rc_info (relay_of (server_env cfg (baseUrl c) sign) c) r = (answer, r')"
  then show "server_blobs (publicKey c) r' = server_blobs (publicKey c) r \<and> server_live (publicKey c) r' = server_live (publicKey c) r"
    by (intro client_info_law) (simp add: relay_of_def)
qed (simp_all only: relay_of_def relay.simps, (rule client_get_law client_put_law client_remove_law; assumption)+)

section \<open>Property\<close>

lemma parse_show_decimal [simp]: "parse_decimal (show_nat n) = Some n"
  using digits_of_nat by (simp add: parse_decimal_def)

lemma put_accepted:
  assumes "length (publicKey c) = 32" "cf_allow cfg (publicKey c)"
    and "\<And>m. length (sign m (secretKey c)) = 64 \<and> cf_verify cfg (publicKey c) m (sign m (secretKey c))"
    and "length i = 32" "b \<noteq> []" "length b \<le> cf_maxBlob cfg"
    and "sv_faults st 0 = Answered" "sv_blobs st (publicKey c, i) = None"
  shows "client_put (server_env cfg (baseUrl c) sign) c i b ttl st = (Inr True,
    st\<lparr>sv_faults := \<lambda>n. sv_faults st (Suc n),
       sv_blobs := (sv_blobs st)((publicKey c, i) \<mapsto> (b, sv_now st + min (max ttl (cf_minTTL cfg)) (cf_maxTTL cfg)))\<rparr>)"
proof -
  let ?hs = "[(''X-Tactile-Identity'', identityHeader c), (''X-Tactile-Blob-Id'', bytesToBase64 i),
      (''X-Tactile-Ttl'', show_nat ttl),
      (''X-Tactile-Signature'', bytesToBase64 (sign (concatBytes [DOMAIN_BLOB, i, int64LE (int ttl), b]) (secretKey c)))]"
  let ?rq = "\<lparr>rq_method = ''PUT'', rq_path = baseUrl c @ ''/v1/blobs'', rq_headers = ?hs, rq_body = b\<rparr>"
  let ?st = "st\<lparr>sv_faults := \<lambda>n. sv_faults st (Suc n)\<rparr>"
  have hs: "header ''X-Tactile-Identity'' ?rq = bytesToBase64 (publicKey c)" "header ''X-Tactile-Blob-Id'' ?rq = bytesToBase64 i"
    "header ''X-Tactile-Ttl'' ?rq = show_nat ttl"
    "header ''X-Tactile-Signature'' ?rq = bytesToBase64 (sign (concatBytes [DOMAIN_BLOB, i, int64LE (int ttl), b]) (secretKey c))"
    by (simp_all add: header_def identityHeader_def)
  have v: "cf_verify cfg (publicKey c) (DOMAIN_BLOB @ i @ int64LE (int ttl) @ b)
      (sign (concatBytes [DOMAIN_BLOB, i, int64LE (int ttl), b]) (secretKey c))"
    using assms(3) [of "concatBytes [DOMAIN_BLOB, i, int64LE (int ttl), b]"] by (simp add: concatBytes_def)
  have "handlePut cfg ?rq ?st = (status_only 201,
      ?st\<lparr>sv_blobs := (sv_blobs st)((publicKey c, i) \<mapsto> (b, sv_now st + min (max ttl (cf_minTTL cfg)) (cf_maxTTL cfg)))\<rparr>)"
    unfolding handlePut_eval [OF assms(4) hs(1,2)] hs(3,4) using v assms(1,2,3,5,6,8) by simp
  then have "relay_fetch cfg (baseUrl c) ?rq st = (Inr (status_only 201),
      ?st\<lparr>sv_blobs := (sv_blobs st)((publicKey c, i) \<mapsto> (b, sv_now st + min (max ttl (cf_minTTL cfg)) (cf_maxTTL cfg)))\<rparr>)"
    using assms(7) by (simp add: relay_fetch_def Let_def get_route(3) [OF assms(4)])
  then show ?thesis
    by (simp add: client_put_def server_env_def act_simps check_def Let_def)
qed

lemma put_repeated:
  assumes "length (publicKey c) = 32" "cf_allow cfg (publicKey c)"
    and "\<And>m. length (sign m (secretKey c)) = 64 \<and> cf_verify cfg (publicKey c) m (sign m (secretKey c))"
    and "length i = 32" "b \<noteq> []" "length b \<le> cf_maxBlob cfg"
    and "sv_faults st 0 = Answered" "sv_blobs st (publicKey c, i) = Some x"
  shows "\<exists>st'. client_put (server_env cfg (baseUrl c) sign) c i b ttl st = (Inr False, st') \<and> sv_blobs st' = sv_blobs st"
proof -
  let ?hs = "[(''X-Tactile-Identity'', identityHeader c), (''X-Tactile-Blob-Id'', bytesToBase64 i),
      (''X-Tactile-Ttl'', show_nat ttl),
      (''X-Tactile-Signature'', bytesToBase64 (sign (concatBytes [DOMAIN_BLOB, i, int64LE (int ttl), b]) (secretKey c)))]"
  let ?rq = "\<lparr>rq_method = ''PUT'', rq_path = baseUrl c @ ''/v1/blobs'', rq_headers = ?hs, rq_body = b\<rparr>"
  let ?st = "st\<lparr>sv_faults := \<lambda>n. sv_faults st (Suc n)\<rparr>"
  have hs: "header ''X-Tactile-Identity'' ?rq = bytesToBase64 (publicKey c)" "header ''X-Tactile-Blob-Id'' ?rq = bytesToBase64 i"
    "header ''X-Tactile-Ttl'' ?rq = show_nat ttl"
    "header ''X-Tactile-Signature'' ?rq = bytesToBase64 (sign (concatBytes [DOMAIN_BLOB, i, int64LE (int ttl), b]) (secretKey c))"
    by (simp_all add: header_def identityHeader_def)
  have v: "cf_verify cfg (publicKey c) (DOMAIN_BLOB @ i @ int64LE (int ttl) @ b)
      (sign (concatBytes [DOMAIN_BLOB, i, int64LE (int ttl), b]) (secretKey c))"
    using assms(3) [of "concatBytes [DOMAIN_BLOB, i, int64LE (int ttl), b]"] by (simp add: concatBytes_def)
  have "handlePut cfg ?rq ?st = (status_only 409, ?st)"
    unfolding handlePut_eval [OF assms(4) hs(1,2)] hs(3,4) using v assms(1,2,3,5,6,8) by simp
  then have "relay_fetch cfg (baseUrl c) ?rq st = (Inr (status_only 409), ?st)"
    using assms(7) by (simp add: relay_fetch_def Let_def get_route(3) [OF assms(4)])
  then show ?thesis
    by (simp add: client_put_def server_env_def act_simps Let_def)
qed

lemma get_accepted:
  assumes "length (publicKey c) = 32" "cf_allow cfg (publicKey c)"
    and "\<And>m. length (sign m (secretKey c)) = 64 \<and> cf_verify cfg (publicKey c) m (sign m (secretKey c))"
    and "length i = 32" "sv_faults st 0 = Answered" "sv_blobs st (publicKey c, i) = Some (b, e)" "sv_now st < e"
  shows "client_get (server_env cfg (baseUrl c) sign) c i st = (Inr (Some b), st\<lparr>sv_faults := \<lambda>n. sv_faults st (Suc n)\<rparr>)"
proof -
  let ?env = "server_env cfg (baseUrl c) sign"
  let ?rq = "\<lparr>rq_method = ''GET'', rq_path = baseUrl c @ ''/v1/blobs/'' @ bytesToBase64Url i,
      rq_headers = freshSigHeaders ?env c ''GET'' i st, rq_body = []\<rparr>"
  let ?msg = "concatBytes [DOMAIN_REST, utf8_encode ''GET'', i, utf8_encode (show_nat (sv_now st))]"
  let ?st = "st\<lparr>sv_faults := \<lambda>n. sv_faults st (Suc n)\<rparr>"
  have hs: "header ''X-Tactile-Identity'' ?rq = bytesToBase64 (publicKey c)"
    "header ''X-Tactile-Timestamp'' ?rq = show_nat (sv_now st)"
    "header ''X-Tactile-Signature'' ?rq = bytesToBase64 (sign ?msg (secretKey c))"
    by (simp_all add: header_def identityHeader_def freshSigHeaders_def Let_def server_env_def)
  have "cf_verify cfg (publicKey c) (DOMAIN_REST @ utf8_encode ''GET'' @ i @ utf8_encode (show_nat (sv_now st))) (sign ?msg (secretKey c))"
    using assms(3) [of ?msg] by (simp add: concatBytes_def)
  then have "checkFreshSig cfg (sv_now st) ?rq (publicKey c) ''GET'' i"
    unfolding checkFreshSig_def hs using assms(3) by simp
  then have "handleGet cfg (Some i) ?rq ?st = (\<lparr>rs_status = 200, rs_json = Some (JObj [(''type'', JStr ''blob''),
      (''id'', JStr (bytesToBase64 i)), (''payload'', JStr (bytesToBase64 b)), (''expires_at'', JNum (int e))])\<rparr>, ?st)"
    unfolding handleGet_def hs using assms(1,2,6,7) by simp
  then have "relay_fetch cfg (baseUrl c) ?rq st = (Inr \<lparr>rs_status = 200, rs_json = Some (JObj [(''type'', JStr ''blob''),
      (''id'', JStr (bytesToBase64 i)), (''payload'', JStr (bytesToBase64 b)), (''expires_at'', JNum (int e))])\<rparr>, ?st)"
    unfolding relay_fetch_def Let_def get_route(1) [OF assms(4)] using assms(5) by simp
  then show ?thesis
    by (simp add: client_get_def act_simps server_env_def) (simp add: act_simps check_def payload_of_def)
qed

definition demo_cfg :: server_cfg where
  "demo_cfg = \<lparr>cf_verify = \<lambda>_ _ _. True, cf_allow = \<lambda>_. True, cf_maxBlob = 100, cf_minTTL = 1, cf_maxTTL = 100\<rparr>"

definition demo_sign :: "bytes \<Rightarrow> bytes \<Rightarrow> bytes" where
  "demo_sign m k = replicate 64 0"

definition demo_client :: relay_client where
  "demo_client = \<lparr>baseUrl = ''h'', secretKey = [], publicKey = replicate 32 9\<rparr>"

definition demo_server :: relay_server where
  "demo_server = \<lparr>sv_blobs = Map.empty, sv_now = 5, sv_faults = \<lambda>_. Answered\<rparr>"



end
