(* ===== verification/Identity.thy ===== *)
theory Identity
  imports Encoding
begin

text \<open>
  The identity of an installation (\<open>packages/core/src/api/identity.ts\<close>) and the sync code that carries it
  to another device (\<open>exportSyncCode\<close>, \<open>importSyncCode\<close> of \<open>api/sync.ts\<close>). The platform's storage of the
  seed, the random generator and the Ed25519 public key are parameters. The promise that
  concurrent callers share is its settled result.
\<close>

record identity =
  secretKeyHex :: string
  publicKeyHex :: string
  publicKeyBase64 :: string

record 'w id_hooks =
  readIdentity :: "('w, string option) act"
  writeIdentity :: "string \<Rightarrow> ('w, unit) act"
  randomSecretKey :: "('w, bytes) act"
  getPublicKey :: "bytes \<Rightarrow> bytes"

record 'w id_state =
  id_world :: 'w
  identityPromise :: "identity res option"

definition on_world :: "('w, 'a) act \<Rightarrow> ('w id_state, 'a) act" where
  "on_world m = (\<lambda>s. case m (id_world s) of (r, w) \<Rightarrow> (r, s\<lparr>id_world := w\<rparr>))"

definition hex_seed :: "string \<Rightarrow> bool" where
  "hex_seed s = (length s = 64 \<and> list_all (\<lambda>c. char_between CHR ''0'' CHR ''9'' c
     \<or> char_between CHR ''a'' CHR ''f'' c \<or> char_between CHR ''A'' CHR ''F'' c) s)"

definition buildIdentity :: "'w id_hooks \<Rightarrow> bytes \<Rightarrow> identity" where
  "buildIdentity H secret =
     (let pub = getPublicKey H secret in
      \<lparr>secretKeyHex = bytesToHex secret, publicKeyHex = bytesToHex pub, publicKeyBase64 = bytesToBase64 pub\<rparr>)"

definition load_identity :: "'w id_hooks \<Rightarrow> ('w, identity) act" where
  "load_identity H =
     abind (acatch (readIdentity H) (\<lambda>_. aret None)) (\<lambda>stored.
       case stored of
         Some s \<Rightarrow>
           if hex_seed (trim s) then aret (buildIdentity H (hexToBytes (trim s)))
           else abind (randomSecretKey H) (\<lambda>secret.
             athen (writeIdentity H (bytesToHex secret)) (aret (buildIdentity H secret)))
       | None \<Rightarrow> abind (randomSecretKey H) (\<lambda>secret.
             athen (writeIdentity H (bytesToHex secret)) (aret (buildIdentity H secret))))"

definition getIdentity :: "'w id_hooks \<Rightarrow> ('w id_state, identity) act" where
  "getIdentity H =
     (\<lambda>s. case identityPromise s of
        Some r \<Rightarrow> (r, s)
      | None \<Rightarrow> (case on_world (load_identity H) s of (r, s') \<Rightarrow> (r, s'\<lparr>identityPromise := Some r\<rparr>)))"

definition setIdentitySeed :: "'w id_hooks \<Rightarrow> bytes \<Rightarrow> ('w id_state, identity) act" where
  "setIdentitySeed H seed =
     (if length seed \<noteq> 32 then athrow (JsError ''identity seed must be 32 bytes'')
      else athen (on_world (writeIdentity H (bytesToHex seed)))
        (athen (amodify (\<lambda>s. s\<lparr>identityPromise := Some (Inr (buildIdentity H seed))\<rparr>))
          (aret (buildIdentity H seed))))"

definition getPublicKeyHex :: "'w id_hooks \<Rightarrow> ('w id_state, string) act" where
  "getPublicKeyHex H = abind (getIdentity H) (\<lambda>i. aret (publicKeyHex i))"

definition SYNC_CODE_PREFIX :: string where
  "SYNC_CODE_PREFIX = ''tactilesync1:''"

definition exportSyncCode :: "'w id_hooks \<Rightarrow> ('w id_state, string) act" where
  "exportSyncCode H =
     abind (getIdentity H) (\<lambda>i. aret (SYNC_CODE_PREFIX @ bytesToBase64Url (hexToBytes (secretKeyHex i))))"

definition importSyncCode :: "'w id_hooks \<Rightarrow> string \<Rightarrow> ('w id_state, string) act" where
  "importSyncCode H code =
     (let trimmed = trim code in
      if \<not> starts_with trimmed SYNC_CODE_PREFIX then athrow (JsError ''Not a Tactile sync code'')
      else case base64UrlToBytes (drop (length SYNC_CODE_PREFIX) trimmed) of
        Inl _ \<Rightarrow> athrow (JsError ''Sync code is malformed'')
      | Inr seed \<Rightarrow>
          if length seed \<noteq> 32 then athrow (JsError ''Sync code is malformed'')
          else athen (abind (setIdentitySeed H seed) (\<lambda>_. aret ()))
                 (aret (concat (map (\<lambda>b. pad_start 2 CHR ''0'' (show_hex (unat b))) (getPublicKey H seed)))))"

section \<open>Lemmas\<close>

lemma on_world_apply [act_simps]: "on_world m s = (fst (m (id_world s)), s\<lparr>id_world := snd (m (id_world s))\<rparr>)"
  by (simp add: on_world_def split: prod.split)

lemma trim_plain:
  assumes "\<forall>c \<in> set s. \<not> is_space c"
  shows "trim s = s"
proof -
  have *: "dropWhile is_space w = w" if "\<forall>c \<in> set w. \<not> is_space c" for w
    using that by (cases w) auto
  have "dropWhile is_space s = s" "dropWhile is_space (rev s) = rev s" using * [of s] * [of "rev s"] assms by auto
  then show ?thesis by (simp add: trim_def)
qed

lemma dropWhile_around: "list_all P u \<Longrightarrow> v \<noteq> [] \<Longrightarrow> \<not> P (hd v) \<Longrightarrow> dropWhile P (u @ v) = v"
  by (induction u) (auto simp: neq_Nil_conv)

lemma trim_around:
  assumes "list_all is_space u" "list_all is_space w" "s \<noteq> []" "\<And>c. c \<in> set s \<Longrightarrow> \<not> is_space c"
  shows "trim (u @ s @ w) = s"
proof -
  have "dropWhile is_space (u @ s @ w) = s @ w"
    using dropWhile_around [of is_space u "s @ w"] assms by simp
  moreover have "dropWhile is_space (rev w @ rev s) = rev s"
    by (rule dropWhile_around) (use assms hd_in_set [of "rev s"] in \<open>auto simp: list_all_iff\<close>)
  ultimately show ?thesis by (simp add: trim_def)
qed

lemma base64Url_code:
  assumes "c \<in> set (bytesToBase64Url bs)"
  shows "43 \<le> (of_char c :: nat) \<and> (of_char c :: nat) \<le> 122"
proof -
  have b64: "43 \<le> (of_char (b64_char n) :: nat) \<and> (of_char (b64_char n) :: nat) \<le> 122" if "n < 64" for n
    using that by (auto simp: b64_char_def of_char_of)
  have core: "43 \<le> (of_char c :: nat) \<and> (of_char c :: nat) \<le> 122" if "c \<in> set (bytesToBase64 bs)" for c
  proof -
    have "c \<in> set (b64_core bs) \<or> c = CHR ''=''"
      using that by (auto simp: bytesToBase64_eq padding_def)
    then show ?thesis using b64_core_chars b64 by fastforce
  qed
  have "c \<in> set (replace_char CHR ''/'' CHR ''_'' (replace_char CHR ''+'' CHR ''-'' (bytesToBase64 bs)))"
    using assms by (auto simp: bytesToBase64Url_def dest: set_dropWhileD)
  then obtain d where "d \<in> set (bytesToBase64 bs)" "c = d \<or> c = CHR ''-'' \<or> c = CHR ''_''"
    by (auto simp: replace_char_def split: if_splits)
  then show ?thesis using core [of d] by auto
qed

lemma sync_code_not_space: "c \<in> set (SYNC_CODE_PREFIX @ bytesToBase64Url bs) \<Longrightarrow> \<not> is_space c"
  using base64Url_code [of c bs] by (auto simp: SYNC_CODE_PREFIX_def is_space_def Let_def)

lemma hex_seed_reads [simp]:
  assumes "length bs = 32"
  shows "hexToBytes (bytesToHex bs) = bs" "hex_seed (bytesToHex bs)" "trim (bytesToHex bs) = bytesToHex bs"
proof -
  have d: "\<exists>d < 16. c = digit_char d" if "c \<in> set (bytesToHex bs)" for c
    using hex_reads_back(3) [of bs] that by (auto simp: list_all_iff)
  have c: "48 \<le> (of_char (digit_char d) :: nat) \<and> (of_char (digit_char d) :: nat) \<le> 57
      \<or> 97 \<le> (of_char (digit_char d) :: nat) \<and> (of_char (digit_char d) :: nat) \<le> 102" if "d < 16" for d
    using that by (auto simp: digit_char_def of_char_of)
  show "hexToBytes (bytesToHex bs) = bs" by (rule hex_reads_back(1))
  show "hex_seed (bytesToHex bs)"
    using d c hex_reads_back(2) [of bs] assms by (fastforce simp: hex_seed_def list_all_iff)
  have "\<not> is_space c" if "c \<in> set (bytesToHex bs)" for c
    using d [OF that] c by (fastforce simp: is_space_def Let_def)
  then show "trim (bytesToHex bs) = bytesToHex bs" by (intro trim_plain) blast
qed

section \<open>Property\<close>

text \<open>
  (C31) Pairing: the code one device exports, pasted with any white space around it, makes the other device
  store the same seed and use the same identity, now and after a restart; anything else is refused and
  leaves the identity as it was.
\<close>

theorem sync_code_pairs:
  assumes "length seed = 32" and "identityPromise a = Some (Inr (buildIdentity H seed))"
    and "writeIdentity H (bytesToHex seed) (id_world b) = (Inr (), w)"
    and "readIdentity H w = (Inr (Some (bytesToHex seed)), w)"
    and "list_all is_space before" and "list_all is_space after"
    and "\<not> starts_with (trim other) SYNC_CODE_PREFIX"
  shows "\<exists>code. exportSyncCode H a = (Inr code, a)
    \<and> importSyncCode H (before @ code @ after) b
        = (Inr (bytesToHex (getPublicKey H seed)), \<lparr>id_world = w, identityPromise = Some (Inr (buildIdentity H seed))\<rparr>)
    \<and> fst (getIdentity H \<lparr>id_world = w, identityPromise = None\<rparr>) = Inr (buildIdentity H seed)
    \<and> importSyncCode H other b = (Inl (JsError ''Not a Tactile sync code''), b)"
proof -
  let ?code = "SYNC_CODE_PREFIX @ bytesToBase64Url seed"
  have "exportSyncCode H a = (Inr ?code, a)"
    using assms(1,2)
    by (simp add: exportSyncCode_def getIdentity_def act_simps buildIdentity_def Let_def)
  moreover have ne: "?code \<noteq> []" by (simp add: SYNC_CODE_PREFIX_def)
  have "trim (before @ ?code @ after) = ?code"
    by (rule trim_around) (use assms(5,6) sync_code_not_space ne in auto)
  then have "importSyncCode H (before @ ?code @ after) b
      = (Inr (bytesToHex (getPublicKey H seed)), \<lparr>id_world = w, identityPromise = Some (Inr (buildIdentity H seed))\<rparr>)"
    using assms(1,3)
    by (simp add: importSyncCode_def Let_def setIdentitySeed_def act_simps bytesToHex_def)
  moreover have "fst (getIdentity H \<lparr>id_world = w, identityPromise = None\<rparr>) = Inr (buildIdentity H seed)"
    using assms(1,4) by (simp add: getIdentity_def load_identity_def act_simps)
  moreover have "importSyncCode H other b = (Inl (JsError ''Not a Tactile sync code''), b)"
    using assms(7) by (simp add: importSyncCode_def Let_def act_simps)
  ultimately show ?thesis by blast
qed

definition demo_hooks :: "string option id_hooks" where
  "demo_hooks = \<lparr>readIdentity = aread (\<lambda>w. w), writeIdentity = (\<lambda>s. amodify (\<lambda>_. Some s)),
     randomSecretKey = aret (replicate 32 1), getPublicKey = (\<lambda>b. rev b)\<rparr>"

lemma sync_code_pairs_witness:
  "\<exists>code. importSyncCode demo_hooks ('' '' @ code @ [CHR 0x0A]) \<lparr>id_world = None, identityPromise = None\<rparr>
    = (Inr (bytesToHex (replicate 32 5)),
       \<lparr>id_world = Some (bytesToHex (replicate 32 5)), identityPromise = Some (Inr (buildIdentity demo_hooks (replicate 32 5)))\<rparr>)"
proof -
  let ?a = "\<lparr>id_world = None, identityPromise = Some (Inr (buildIdentity demo_hooks (replicate 32 5)))\<rparr>"
  have "readIdentity demo_hooks (Some x) = (Inr (Some x), Some x)"
    "writeIdentity demo_hooks x None = (Inr (), Some x)" for x
    by (simp_all add: demo_hooks_def act_simps)
  moreover have "\<not> starts_with (trim ''hello'') SYNC_CODE_PREFIX"
    by (simp add: SYNC_CODE_PREFIX_def trim_plain is_space_def)
  moreover have "is_space CHR '' ''" "is_space CHR 0x0A" by (simp_all add: is_space_def)
  moreover have "getPublicKey demo_hooks (replicate 32 5) = replicate 32 5" by (simp add: demo_hooks_def)
  ultimately show ?thesis
    using sync_code_pairs [of "replicate 32 5" ?a demo_hooks "\<lparr>id_world = None, identityPromise = None\<rparr>"
        "Some (bytesToHex (replicate 32 5))" "'' ''" "[CHR 0x0A]" "''hello''"]
    by auto
qed

end
