(* ===== verification/Sync.thy ===== *)
theory Sync
  imports IdbFs Relay Identity Dates "HOL-Library.AList"
begin

text \<open>
  The sync engine (\<open>packages/core/src/api/sync.ts\<close>): a three-way merge of the files of a collection, the
  manifest on the relay and the state of the last sync, over the contracts of the storage and of the
  relay. The JavaScript objects and maps keyed by path are association lists in insertion order.

  XChaCha20-Poly1305, SHA-256 and HKDF come from a library and are a parameter (\<open>crypto\<close>). A manifest or
  state file that the program did not write, with other fields, counts as unreadable.
\<close>

section \<open>Data\<close>

record remote_entry =
  re_h :: string
  re_m :: nat
  re_s :: nat
  re_b :: string
  re_d :: "nat option"

record manifest =
  mf_updated :: nat
  mf_files :: "(string \<times> remote_entry) list"

record base_entry =
  ls_h :: string
  ls_b :: string

record local_state =
  lst_lastSync :: nat
  lst_files :: "(string \<times> base_entry) list"

record local_file =
  lf_rel :: string
  lf_abs :: string
  lf_data :: bytes
  lf_hash :: bytes
  lf_size :: nat
  lf_mtime :: nat

record sync_result =
  uploaded :: nat
  downloaded :: nat
  deletedLocal :: nat
  deletedRemote :: nat
  conflicts :: nat
  skipped :: nat
  sync_errors :: "string list"

datatype sync_status = Idle | Syncing | Failed

datatype sync_toast = Toast_error string | Toast_success string

record crypto =
  cr_sha256 :: "bytes \<Rightarrow> bytes"
  cr_seal :: "bytes \<Rightarrow> bytes \<Rightarrow> bytes \<Rightarrow> bytes"
  cr_open :: "bytes \<Rightarrow> bytes \<Rightarrow> bytes \<Rightarrow> bytes option"
  cr_hkdf :: "bytes \<Rightarrow> bytes \<Rightarrow> bytes"

text \<open>The state of a run: the storage, the relay, random bytes, clock, the run's variables, the status shown.\<close>

record ('s, 'r) sync_world =
  sw_store :: 's
  sw_relay :: 'r
  sw_rand :: "nat \<Rightarrow> 8 word"
  sw_clock :: "nat \<Rightarrow> nat"
  sw_result :: sync_result
  sw_next :: "(string \<times> remote_entry) list"
  sw_state :: "(string \<times> base_entry) list"
  sw_syncing :: bool
  sw_status :: sync_status
  sw_lastSyncAt :: "nat option"
  sw_lastOk :: bool
  sw_lastError :: string
  sw_stats :: "sync_result option"
  sw_toasts :: "sync_toast list"
  sw_relayInfo :: "(json option \<times> json option \<times> json) option"
  sw_autoTimer :: "int option"
  sw_bootTimer :: "int option"

definition NONCE_LEN :: nat where "NONCE_LEN = 24"
definition TACTILE_DIR :: string where "TACTILE_DIR = ''.tactile''"
definition SYNC_STATE_FILE :: string where "SYNC_STATE_FILE = TACTILE_DIR @ ''/sync-state.json''"
definition TOMBSTONE_PRUNE_MS :: nat where "TOMBSTONE_PRUNE_MS = 30 * 24 * 3600 * 1000"
definition MAX_FILE_BYTES :: nat where "MAX_FILE_BYTES = push_bit 20 64"
definition SYNC_BLOB_TTL_SECONDS :: nat where "SYNC_BLOB_TTL_SECONDS = 90 * 24 * 3600"
definition MANIFEST_DOMAIN :: bytes where "MANIFEST_DOMAIN = utf8_encode ''tactile-sync/manifest/v1''"
definition FILE_DOMAIN :: bytes where "FILE_DOMAIN = utf8_encode ''tactile-sync/file/v1''"
definition ENC_INFO :: bytes where "ENC_INFO = utf8_encode ''tactile-sync/enc/v1''"
definition SYNC_SERVER_PLACEHOLDER :: string where "SYNC_SERVER_PLACEHOLDER = ''https://sync.tactile.app''"

definition deleted :: "remote_entry \<Rightarrow> bool" where
  "deleted e = (case re_d e of None \<Rightarrow> False | Some d \<Rightarrow> d \<noteq> 0)"

definition no_result :: sync_result where
  "no_result = \<lparr>uploaded = 0, downloaded = 0, deletedLocal = 0, deletedRemote = 0, conflicts = 0, skipped = 0, sync_errors = []\<rparr>"

section \<open>Keys, identifiers and encryption\<close>

definition syncServerUrl :: "string option \<Rightarrow> string" where
  "syncServerUrl setting =
     (case setting of None \<Rightarrow> SYNC_SERVER_PLACEHOLDER
      | Some s \<Rightarrow> if trim s = [] then SYNC_SERVER_PLACEHOLDER else trim s)"

definition collectionKey :: "string \<Rightarrow> string" where
  "collectionKey collection =
     (let segments = split_on CHR ''/'' (strip_slashes collection) in
      if List.last segments = [] then ''collection'' else List.last segments)"

definition manifestId :: "crypto \<Rightarrow> string \<Rightarrow> bytes" where
  "manifestId C key = cr_sha256 C (MANIFEST_DOMAIN @ utf8_encode key)"

definition fileBlobId :: "crypto \<Rightarrow> string \<Rightarrow> string \<Rightarrow> bytes \<Rightarrow> bytes" where
  "fileBlobId C key rel hash = cr_sha256 C (FILE_DOMAIN @ utf8_encode key @ [0] @ utf8_encode rel @ [0] @ hash)"

definition getRandomValues :: "nat \<Rightarrow> (('s, 'r) sync_world, bytes) act" where
  "getRandomValues n = (\<lambda>w. (Inr (map (sw_rand w) [0..<n]), w\<lparr>sw_rand := \<lambda>k. sw_rand w (n + k)\<rparr>))"

definition encrypt :: "crypto \<Rightarrow> bytes \<Rightarrow> bytes \<Rightarrow> (('s, 'r) sync_world, bytes) act" where
  "encrypt C key plaintext = abind (getRandomValues NONCE_LEN) (\<lambda>nonce. aret (nonce @ cr_seal C key nonce plaintext))"

definition decrypt :: "crypto \<Rightarrow> bytes \<Rightarrow> bytes \<Rightarrow> bytes res" where
  "decrypt C key blob =
     (case cr_open C key (take NONCE_LEN blob) (drop NONCE_LEN blob) of
        None \<Rightarrow> Inl (JsError ''invalid tag'') | Some p \<Rightarrow> Inr p)"

definition conflictPath :: "string \<Rightarrow> nat \<Rightarrow> string" where
  "conflictPath rel now =
     (let stamp = map (\<lambda>c. if c = CHR '':'' then CHR ''-'' else c)
            (take 19 (map (\<lambda>c. if c = CHR ''T'' then CHR '' '' else c) (toISOString now)));
          note = '' (conflict '' @ stamp @ '')'' in
      case last_index_of CHR ''.'' rel of
        None \<Rightarrow> rel @ note
      | Some dot \<Rightarrow>
          (case last_index_of CHR ''/'' rel of
             None \<Rightarrow> take dot rel @ note @ drop dot rel
           | Some slash \<Rightarrow> if dot > slash then take dot rel @ note @ drop dot rel else rel @ note))"

section \<open>Stored forms\<close>

definition entry_json :: "remote_entry \<Rightarrow> json" where
  "entry_json e =
     JObj ([(''h'', JStr (re_h e)), (''m'', JNum (int (re_m e))), (''s'', JNum (int (re_s e))), (''b'', JStr (re_b e))]
       @ (case re_d e of None \<Rightarrow> [] | Some d \<Rightarrow> [(''d'', JNum (int d))]))"

definition manifest_json :: "manifest \<Rightarrow> json" where
  "manifest_json m =
     JObj [(''v'', JNum 1), (''updated'', JNum (int (mf_updated m))),
           (''files'', JObj (map (\<lambda>(k, e). (k, entry_json e)) (mf_files m)))]"

definition entry_of :: "json \<Rightarrow> remote_entry option" where
  "entry_of j =
     (case (member ''h'' j, member ''m'' j, member ''s'' j, member ''b'' j) of
        (Some (JStr h), Some (JNum m), Some (JNum s), Some (JStr b)) \<Rightarrow>
          Some \<lparr>re_h = h, re_m = nat m, re_s = nat s, re_b = b,
                re_d = (case member ''d'' j of Some (JNum d) \<Rightarrow> Some (nat d) | _ \<Rightarrow> None)\<rparr>
      | _ \<Rightarrow> None)"

definition keyed :: "(json \<Rightarrow> 'a option) \<Rightarrow> (string \<times> json) list \<Rightarrow> (string \<times> 'a) list option" where
  "keyed f ms = those (map (\<lambda>(k, j). map_option (Pair k) (f j)) ms)"

definition manifest_of :: "json \<Rightarrow> manifest option" where
  "manifest_of j =
     (case (member ''v'' j, member ''updated'' j, member ''files'' j) of
        (Some (JNum v), Some (JNum u), Some (JObj ms)) \<Rightarrow>
          if v \<noteq> 1 then None
          else map_option (\<lambda>fs. \<lparr>mf_updated = nat u, mf_files = fs\<rparr>) (keyed entry_of ms)
      | _ \<Rightarrow> None)"

definition state_json :: "local_state \<Rightarrow> json" where
  "state_json s =
     JObj [(''v'', JNum 1), (''lastSync'', JNum (int (lst_lastSync s))),
           (''files'', JObj (map (\<lambda>(k, e). (k, JObj [(''h'', JStr (ls_h e)), (''b'', JStr (ls_b e))])) (lst_files s)))]"

definition base_of :: "json \<Rightarrow> base_entry option" where
  "base_of j =
     (case (member ''h'' j, member ''b'' j) of
        (Some (JStr h), Some (JStr b)) \<Rightarrow> Some \<lparr>ls_h = h, ls_b = b\<rparr> | _ \<Rightarrow> None)"

definition state_of :: "json \<Rightarrow> local_state option" where
  "state_of j =
     (case (member ''v'' j, member ''lastSync'' j, member ''files'' j) of
        (Some (JNum v), Some (JNum l), Some (JObj ms)) \<Rightarrow>
          if v \<noteq> 1 then None
          else map_option (\<lambda>fs. \<lparr>lst_lastSync = nat l, lst_files = fs\<rparr>) (keyed base_of ms)
      | _ \<Rightarrow> None)"

definition clean_state :: local_state where
  "clean_state = \<lparr>lst_lastSync = 0, lst_files = []\<rparr>"

section \<open>Walking the collection\<close>

fun afold :: "('b \<Rightarrow> 'a \<Rightarrow> ('s, 'b) act) \<Rightarrow> 'b \<Rightarrow> 'a list \<Rightarrow> ('s, 'b) act" where
  "afold f acc [] = aret acc"
| "afold f acc (x # xs) = abind (f acc x) (\<lambda>acc'. afold f acc' xs)"

definition try_else :: "'a \<Rightarrow> ('s, 'a) act \<Rightarrow> ('s, 'a) act" where
  "try_else d m = acatch m (\<lambda>_. aret d)"

definition read_local ::
    "'s backend \<Rightarrow> crypto \<Rightarrow> nat \<Rightarrow> string \<Rightarrow> string \<Rightarrow> (string \<times> local_file) list \<Rightarrow> ('s, (string \<times> local_file) list) act" where
  "read_local B C maxBytes rel full out =
     abind (try_else None (abind (stat B full no_options) (\<lambda>st. aret (Some st)))) (\<lambda>st.
       if (case st of None \<Rightarrow> False | Some st \<Rightarrow> st_size st > maxBytes) then aret out
       else abind (try_else None (abind (readFile B full no_options) (\<lambda>b. aret (Some b)))) (\<lambda>data.
         case data of None \<Rightarrow> aret out
         | Some b \<Rightarrow> aret (AList.update rel
             \<lparr>lf_rel = rel, lf_abs = full, lf_data = b, lf_hash = cr_sha256 C b, lf_size = length b,
              lf_mtime = (case st of None \<Rightarrow> 0 | Some st \<Rightarrow> (case st_mtime st of None \<Rightarrow> 0 | Some m \<Rightarrow> m))\<rparr> out)))"

fun walk ::
    "nat \<Rightarrow> 's backend \<Rightarrow> crypto \<Rightarrow> nat \<Rightarrow> string \<Rightarrow> string \<Rightarrow> (string \<times> local_file) list
     \<Rightarrow> ('s, (string \<times> local_file) list) act" where
  "walk 0 B C maxBytes absDir relDir out = athrow (JsError ''out of fuel'')"
| "walk (Suc fuel) B C maxBytes absDir relDir out =
     abind (try_else [] (readDir B absDir no_options)) (\<lambda>es.
       afold (\<lambda>out entry.
         let rel = (if relDir \<noteq> [] then relDir @ ''/'' @ de_name entry else de_name entry) in
         abind (alift (joinPath [absDir, de_name entry])) (\<lambda>full.
           if isDirectory entry then
             (if rel = TACTILE_DIR then walk fuel B C maxBytes full rel out
              else if starts_with (de_name entry) ''.'' then aret out
              else abind (alift (isInternalPath rel)) (\<lambda>i.
                if i then aret out else walk fuel B C maxBytes full rel out))
           else if \<not> isFile entry then aret out
           else abind (alift (isInternalPath rel)) (\<lambda>i.
             if i then aret out else read_local B C maxBytes rel full out))) out es)"

definition walkCollection ::
    "nat \<Rightarrow> 's backend \<Rightarrow> crypto \<Rightarrow> string \<Rightarrow> nat \<Rightarrow> ('s, (string \<times> local_file) list) act" where
  "walkCollection fuel B C collection maxBytes = walk fuel B C maxBytes collection [] []"

section \<open>State file and manifest\<close>

definition loadLocalState :: "'s backend \<Rightarrow> string \<Rightarrow> ('s, local_state) act" where
  "loadLocalState B collection =
     abind (try_else None
       (abind (alift (joinPath [collection, SYNC_STATE_FILE])) (\<lambda>path.
        abind (readTextFile B path no_options) (\<lambda>t. aret (Option.bind (parse_json t) state_of))))) (\<lambda>parsed.
     aret (case parsed of None \<Rightarrow> clean_state | Some s \<Rightarrow> s))"

definition sync_options :: backend_options where
  "sync_options = no_options\<lparr>opt_origin := Some Sync\<rparr>"

definition saveLocalState :: "'s backend \<Rightarrow> string \<Rightarrow> local_state \<Rightarrow> ('s, unit) act" where
  "saveLocalState B collection state =
     abind (alift (joinPath [collection, SYNC_STATE_FILE])) (\<lambda>path.
       writeTextFile B path (stringify (state_json state)) (sync_options\<lparr>keepVersion := Some False\<rparr>))"

definition on_store :: "('s, 'a) act \<Rightarrow> (('s, 'r) sync_world, 'a) act" where
  "on_store m = (\<lambda>w. case m (sw_store w) of (x, s) \<Rightarrow> (x, w\<lparr>sw_store := s\<rparr>))"

definition on_relay :: "('r, 'a) act \<Rightarrow> (('s, 'r) sync_world, 'a) act" where
  "on_relay m = (\<lambda>w. case m (sw_relay w) of (x, r) \<Rightarrow> (x, w\<lparr>sw_relay := r\<rparr>))"

definition parse_manifest :: "crypto \<Rightarrow> bytes \<Rightarrow> bytes \<Rightarrow> manifest option" where
  "parse_manifest C key blob =
     (case decrypt C key blob of Inl _ \<Rightarrow> None
      | Inr b \<Rightarrow> Option.bind (parse_json (utf8_decode b)) manifest_of)"

definition fetchManifest :: "'r relay \<Rightarrow> crypto \<Rightarrow> bytes \<Rightarrow> bytes \<Rightarrow> (('s, 'r) sync_world, manifest option) act" where
  "fetchManifest R C key i =
     abind (on_relay (rc_get R i)) (\<lambda>blob.
       aret (case blob of None \<Rightarrow> None | Some b \<Rightarrow> parse_manifest C key b))"

definition writeManifest :: "'r relay \<Rightarrow> crypto \<Rightarrow> bytes \<Rightarrow> bytes \<Rightarrow> manifest \<Rightarrow> (('s, 'r) sync_world, unit) act" where
  "writeManifest R C key i m =
     athen (on_relay (rc_remove R i))
     (abind (encrypt C key (utf8_encode (stringify (manifest_json m)))) (\<lambda>blob.
      abind (on_relay (rc_put R i blob SYNC_BLOB_TTL_SECONDS)) (\<lambda>_. aret ())))"

section \<open>One path\<close>

text \<open>What a run fixes before it goes through the paths.\<close>

record ('s, 'r) sync_run =
  sr_storage :: "'s backend"
  sr_client :: "'r relay"
  sr_crypto :: crypto
  sr_collection :: string
  sr_key :: string
  sr_encKey :: bytes
  sr_now :: nat
  sr_remote :: "(string \<times> remote_entry) list"
  sr_base :: "(string \<times> base_entry) list"
  sr_locals :: "(string \<times> local_file) list"

definition bump :: "(sync_result \<Rightarrow> sync_result) \<Rightarrow> (('s, 'r) sync_world, unit) act" where
  "bump f = amodify (\<lambda>w. w\<lparr>sw_result := f (sw_result w)\<rparr>)"

definition set_next :: "string \<Rightarrow> remote_entry \<Rightarrow> (('s, 'r) sync_world, unit) act" where
  "set_next rel e = amodify (\<lambda>w. w\<lparr>sw_next := AList.update rel e (sw_next w)\<rparr>)"

definition set_state :: "string \<Rightarrow> remote_entry \<Rightarrow> (('s, 'r) sync_world, unit) act" where
  "set_state rel e = amodify (\<lambda>w. w\<lparr>sw_state := AList.update rel \<lparr>ls_h = re_h e, ls_b = re_b e\<rparr> (sw_state w)\<rparr>)"

definition upload :: "('s, 'r) sync_run \<Rightarrow> local_file \<Rightarrow> (('s, 'r) sync_world, remote_entry) act" where
  "upload E l =
     (let i = fileBlobId (sr_crypto E) (sr_key E) (lf_rel l) (lf_hash l) in
      abind (encrypt (sr_crypto E) (sr_encKey E) (lf_data l)) (\<lambda>blob.
      abind (on_relay (rc_put (sr_client E) i blob SYNC_BLOB_TTL_SECONDS)) (\<lambda>_.
      athen (bump (\<lambda>r. r\<lparr>uploaded := uploaded r + 1\<rparr>))
      (aret \<lparr>re_h = bytesToBase64 (lf_hash l), re_m = (if lf_mtime l \<noteq> 0 then lf_mtime l else sr_now E),
             re_s = lf_size l, re_b = bytesToBase64 i, re_d = None\<rparr>))))"

definition download :: "('s, 'r) sync_run \<Rightarrow> remote_entry \<Rightarrow> string \<Rightarrow> (('s, 'r) sync_world, unit) act" where
  "download E r rel =
     abind (alift (base64ToBytes (re_b r))) (\<lambda>i.
     abind (on_relay (rc_get (sr_client E) i)) (\<lambda>data.
       case data of None \<Rightarrow> athrow (JsError (''remote blob missing for '' @ rel))
       | Some blob \<Rightarrow>
           abind (alift (joinPath [sr_collection E, rel])) (\<lambda>full.
           abind (alift (parentPath full)) (\<lambda>parent.
           athen (on_store (mkdir (sr_storage E) parent (sync_options\<lparr>opt_recursive := Some True\<rparr>)))
           (abind (alift (decrypt (sr_crypto E) (sr_encKey E) blob)) (\<lambda>plain.
            athen (on_store (writeFile (sr_storage E) full plain sync_options))
              (bump (\<lambda>r. r\<lparr>downloaded := downloaded r + 1\<rparr>))))))))"

definition keep_conflict_copy :: "('s, 'r) sync_run \<Rightarrow> string \<Rightarrow> local_file \<Rightarrow> (('s, 'r) sync_world, unit) act" where
  "keep_conflict_copy E rel l =
     abind (alift (joinPath [sr_collection E, conflictPath rel (sr_now E)])) (\<lambda>copy.
     abind (alift (parentPath copy)) (\<lambda>parent.
     athen (on_store (mkdir (sr_storage E) parent (sync_options\<lparr>opt_recursive := Some True\<rparr>)))
       (on_store (writeFile (sr_storage E) copy (lf_data l) sync_options))))"

definition merge_both ::
    "('s, 'r) sync_run \<Rightarrow> string \<Rightarrow> local_file \<Rightarrow> remote_entry \<Rightarrow> base_entry option \<Rightarrow> (('s, 'r) sync_world, unit) act" where
  "merge_both E rel l r s =
     (let lh = bytesToBase64 (lf_hash l) in
      if lh = re_h r then athen (set_next rel r) (set_state rel r)
      else
        let localChanged = (case s of None \<Rightarrow> True | Some s \<Rightarrow> ls_h s \<noteq> lh);
            remoteChanged = (case s of None \<Rightarrow> True | Some s \<Rightarrow> ls_h s \<noteq> re_h r)
        in abind
            (if localChanged \<and> \<not> remoteChanged then upload E l
             else if remoteChanged \<and> \<not> localChanged then athen (download E r rel) (aret r)
             else if localChanged \<and> remoteChanged then
               athen (bump (\<lambda>x. x\<lparr>conflicts := conflicts x + 1\<rparr>))
               (if re_m r > lf_mtime l
                then athen (keep_conflict_copy E rel l) (athen (download E r rel) (aret r))
                else upload E l)
             else athen (bump (\<lambda>x. x\<lparr>skipped := skipped x + 1\<rparr>)) (aret r))
            (\<lambda>e. athen (set_next rel e) (set_state rel e)))"

definition merge_local ::
    "('s, 'r) sync_run \<Rightarrow> string \<Rightarrow> local_file \<Rightarrow> remote_entry option \<Rightarrow> base_entry option \<Rightarrow> (('s, 'r) sync_world, unit) act" where
  "merge_local E rel l r s =
     (case (r, s) of
        (Some r', Some s') \<Rightarrow>
          if ls_h s' = bytesToBase64 (lf_hash l) then
            athen (on_store (remove_path (sr_storage E) (lf_abs l) sync_options))
            (athen (set_next rel r') (bump (\<lambda>x. x\<lparr>deletedLocal := deletedLocal x + 1\<rparr>)))
          else abind (upload E l) (\<lambda>e. athen (set_next rel e) (set_state rel e))
      | _ \<Rightarrow> abind (upload E l) (\<lambda>e. athen (set_next rel e) (set_state rel e)))"

definition merge_remote ::
    "('s, 'r) sync_run \<Rightarrow> string \<Rightarrow> remote_entry \<Rightarrow> base_entry option \<Rightarrow> (('s, 'r) sync_world, unit) act" where
  "merge_remote E rel r s =
     (if (case s of None \<Rightarrow> False | Some s \<Rightarrow> ls_h s = re_h r) then
        athen (set_next rel (r\<lparr>re_d := Some 1, re_m := sr_now E\<rparr>))
          (bump (\<lambda>x. x\<lparr>deletedRemote := deletedRemote x + 1\<rparr>))
      else athen (download E r rel) (athen (set_next rel r) (set_state rel r)))"

definition prune_tombstone :: "('s, 'r) sync_run \<Rightarrow> string \<Rightarrow> remote_entry option \<Rightarrow> (('s, 'r) sync_world, unit) act" where
  "prune_tombstone E rel r =
     (case r of None \<Rightarrow> aret ()
      | Some r' \<Rightarrow>
          if \<not> deleted r' then aret ()
          else if sr_now E > TOMBSTONE_PRUNE_MS + re_m r' then amodify (\<lambda>w. w\<lparr>sw_next := AList.delete rel (sw_next w)\<rparr>)
          else set_next rel r')"

definition merge_path :: "('s, 'r) sync_run \<Rightarrow> string \<Rightarrow> (('s, 'r) sync_world, unit) act" where
  "merge_path E rel =
     (let l = map_of (sr_locals E) rel; r = map_of (sr_remote E) rel; s = map_of (sr_base E) rel in
      case l of
        Some l' \<Rightarrow>
          (case r of
             Some r' \<Rightarrow> if \<not> deleted r' then merge_both E rel l' r' s else merge_local E rel l' r s
           | None \<Rightarrow> merge_local E rel l' r s)
      | None \<Rightarrow>
          (case r of
             Some r' \<Rightarrow> if \<not> deleted r' then merge_remote E rel r' s else prune_tombstone E rel r
           | None \<Rightarrow> prune_tombstone E rel r))"

definition error_text :: "js_error \<Rightarrow> string" where
  "error_text e = (case e of JsError m \<Rightarrow> m | StorageError c \<Rightarrow> ''storage error'')"

definition sync_path :: "('s, 'r) sync_run \<Rightarrow> string \<Rightarrow> (('s, 'r) sync_world, unit) act" where
  "sync_path E rel =
     acatch (merge_path E rel)
       (\<lambda>e. bump (\<lambda>r. r\<lparr>sync_errors := sync_errors r @ [rel @ '': '' @ error_text e]\<rparr>))"

section \<open>A run\<close>

record ('s, 'r) sync_hooks =
  hk_storage :: "'s backend"
  hk_relay :: "string \<Rightarrow> bytes \<Rightarrow> bytes \<Rightarrow> 'r relay"
  hk_identity :: "(('s, 'r) sync_world, identity) act"
  hk_crypto :: crypto
  hk_server :: "string option"
  hk_collection :: "string option"
  hk_fuel :: nat

definition js_set :: "'a list \<Rightarrow> 'a list" where
  "js_set xs = rev (remdups (rev xs))"

definition sync_date_now :: "(('s, 'r) sync_world, nat) act" where
  "sync_date_now = (\<lambda>w. (Inr (sw_clock w 0), w\<lparr>sw_clock := \<lambda>n. sw_clock w (Suc n)\<rparr>))"

definition max_file :: "json option \<Rightarrow> nat" where
  "max_file info =
     (case info of None \<Rightarrow> MAX_FILE_BYTES
      | Some j \<Rightarrow> (case member ''max_blob_size'' j of Some (JNum n) \<Rightarrow> min (nat n) MAX_FILE_BYTES | _ \<Rightarrow> MAX_FILE_BYTES))"

definition testRelay :: "('s, 'r) sync_hooks \<Rightarrow> string option \<Rightarrow> (('s, 'r) sync_world, json) act" where
  "testRelay H url =
     (let base = trim (case url of None \<Rightarrow> syncServerUrl (hk_server H) | Some u \<Rightarrow> u);
          probe = hk_relay H base (replicate 32 0) (replicate 32 0)
      in abind (on_relay (rc_info probe)) (\<lambda>info.
         athen (amodify (\<lambda>w. w\<lparr>sw_relayInfo := Some (member ''relay_id'' info, member ''version'' info,
             (case Option.bind (member ''load'' info) (member ''storage_used_pct'') of None \<Rightarrow> JNum 0 | Some v \<Rightarrow> v))\<rparr>))
         (aret info)))"

text \<open>Deletes the blobs of the old manifest and state that nothing of the new manifest refers to.\<close>

definition stale_ids :: "('s, 'r) sync_run \<Rightarrow> string list" where
  "stale_ids E = js_set (map (\<lambda>x. re_b (snd x)) (sr_remote E) @ map (\<lambda>x. ls_b (snd x)) (sr_base E))"

definition drop_stale :: "'r relay \<Rightarrow> string list \<Rightarrow> string list \<Rightarrow> (('s, 'r) sync_world, unit) act" where
  "drop_stale R live stale =
     afor (\<lambda>b64. if b64 \<in> set live then aret ()
       else abind (alift (base64ToBytes b64)) (\<lambda>i. try_else () (on_relay (rc_remove R i)))) stale"

definition publish :: "('s, 'r) sync_run \<Rightarrow> bytes \<Rightarrow> (('s, 'r) sync_world, unit) act" where
  "publish E mId =
     abind (aread sw_next) (\<lambda>nextFiles.
     athen (writeManifest (sr_client E) (sr_crypto E) (sr_encKey E) mId \<lparr>mf_updated = sr_now E, mf_files = nextFiles\<rparr>)
     (athen (drop_stale (sr_client E) (map (\<lambda>x. re_b (snd x)) nextFiles) (stale_ids E))
     (abind (aread sw_state) (\<lambda>files.
        on_store (saveLocalState (sr_storage E) (sr_collection E) \<lparr>lst_lastSync = sr_now E, lst_files = files\<rparr>)))))"

definition report :: "nat \<Rightarrow> (('s, 'r) sync_world, unit) act" where
  "report now = amodify (\<lambda>w.
     let r = sw_result w; ok = (sync_errors r = []);
         changes = uploaded r + downloaded r + deletedLocal r + deletedRemote r
     in w\<lparr>sw_status := (if ok then Idle else Failed), sw_lastOk := ok,
          sw_lastError := (case sync_errors r of [] \<Rightarrow> '''' | e # _ \<Rightarrow> e), sw_lastSyncAt := Some now,
          sw_toasts := sw_toasts w @
            [if \<not> ok then Toast_error ''Sync finished with errors''
             else Toast_success (if changes > 0
               then ''Sync complete: '' @ show_nat changes @ '' change'' @ (if changes = 1 then '''' else ''s'')
               else ''Sync complete: already up to date'')],
          sw_stats := Some r\<rparr>)"

definition sync_paths :: "('s, 'r) sync_run \<Rightarrow> string list" where
  "sync_paths E = js_set (map fst (sr_locals E) @ map fst (sr_remote E))"

definition start_run :: "('s, 'r) sync_hooks \<Rightarrow> string \<Rightarrow> (('s, 'r) sync_world, ('s, 'r) sync_run \<times> bytes) act" where
  "start_run H collection =
     abind (hk_identity H) (\<lambda>identity.
     let seed = hexToBytes (secretKeyHex identity) in
     abind (alift (base64ToBytes (publicKeyBase64 identity))) (\<lambda>pub.
     let C = hk_crypto H; encKey = cr_hkdf C seed ENC_INFO; R = hk_relay H (syncServerUrl (hk_server H)) seed pub;
         B = hk_storage H; key = collectionKey collection; mId = manifestId C key in
     abind (try_else None (abind (on_relay (rc_info R)) (\<lambda>j. aret (Some j)))) (\<lambda>info.
     abind (fetchManifest R C encKey mId) (\<lambda>m.
     let remote = (case m of None \<Rightarrow> [] | Some m \<Rightarrow> mf_files m) in
     abind (on_store (loadLocalState B collection)) (\<lambda>state.
     abind (on_store (walkCollection (hk_fuel H) B C collection (max_file info))) (\<lambda>locals.
     abind sync_date_now (\<lambda>now.
     athen (amodify (\<lambda>w. w\<lparr>sw_next := remote, sw_state := []\<rparr>))
       (aret (\<lparr>sr_storage = B, sr_client = R, sr_crypto = C, sr_collection = collection, sr_key = key,
               sr_encKey = encKey, sr_now = now, sr_remote = remote, sr_base = lst_files state,
               sr_locals = locals\<rparr>, mId)))))))))"

definition sync_body :: "('s, 'r) sync_hooks \<Rightarrow> string \<Rightarrow> (('s, 'r) sync_world, unit) act" where
  "sync_body H collection =
     abind (start_run H collection) (\<lambda>(E, mId).
     athen (afor (sync_path E) (sync_paths E))
     (athen (publish E mId)
     (report (sr_now E))))"

definition sync_failed :: "js_error \<Rightarrow> (('s, 'r) sync_world, unit) act" where
  "sync_failed e =
     athen (amodify (\<lambda>w. w\<lparr>sw_status := Failed, sw_lastOk := False, sw_lastError := error_text e\<rparr>))
     (abind sync_date_now (\<lambda>now.
      athen (amodify (\<lambda>w. w\<lparr>sw_lastSyncAt := Some now, sw_toasts := sw_toasts w @ [Toast_error ''Sync failed'']\<rparr>))
        (bump (\<lambda>r. r\<lparr>sync_errors := sync_errors r @ [error_text e]\<rparr>))))"

definition syncNow :: "('s, 'r) sync_hooks \<Rightarrow> (('s, 'r) sync_world, sync_result option) act" where
  "syncNow H =
     (\<lambda>w. case hk_collection H of
        None \<Rightarrow> (Inr None, w)
      | Some collection \<Rightarrow>
          if collection = '''' \<or> sw_syncing w then (Inr None, w)
          else abind (acatch (sync_body H collection) sync_failed) (\<lambda>_ w'. (Inr (Some (sw_result w')), w'\<lparr>sw_syncing := False\<rparr>))
                 (w\<lparr>sw_syncing := True, sw_status := Syncing, sw_lastError := '''', sw_result := no_result\<rparr>))"

text \<open>The line of the footer; \<open>toLocaleString\<close> is a parameter.\<close>

definition syncStatusText :: "(nat \<Rightarrow> string) \<Rightarrow> ('s, 'r) sync_world \<Rightarrow> string" where
  "syncStatusText locale_string w =
     (case sw_status w of
        Syncing \<Rightarrow> ''Syncing...''
      | Failed \<Rightarrow> if sw_lastError w \<noteq> [] then sw_lastError w else ''Sync failed''
      | Idle \<Rightarrow>
          (case sw_lastSyncAt w of
             None \<Rightarrow> ''Never synced''
           | Some t \<Rightarrow> if t = 0 then ''Never synced'' else ''Last synced '' @ locale_string t))"

section \<open>Scheduling\<close>

definition stopAutoSync :: "('s, 'r) sync_world \<Rightarrow> ('s, 'r) sync_world" where
  "stopAutoSync w = w\<lparr>sw_autoTimer := None, sw_bootTimer := None\<rparr>"

definition applySyncSettings :: "bool \<Rightarrow> int \<Rightarrow> ('s, 'r) sync_world \<Rightarrow> ('s, 'r) sync_world" where
  "applySyncSettings sync_enabled sync_interval_minutes w =
     (let w = stopAutoSync w in
      if \<not> sync_enabled then w
      else let minutes = max 1 (if sync_interval_minutes = 0 then 5 else sync_interval_minutes)
           in w\<lparr>sw_autoTimer := Some (minutes * 60000), sw_bootTimer := Some 5000\<rparr>)"

end
