(* ===== verification/Sync_Props.thy ===== *)
theory Sync_Props
  imports Sync
begin

text \<open>
  What the sync engine guarantees, for every storage and relay that keep their contracts: the
  locale \<open>sync_engine\<close> puts the two together, and is interpreted on the IndexedDB backend and the
  HTTP relay. The lemmas follow one path of the collection through one run.
\<close>

section \<open>Actions of a run\<close>

lemma on_store_apply [act_simps]: "on_store m w = (fst (m (sw_store w)), w\<lparr>sw_store := snd (m (sw_store w))\<rparr>)"
  by (simp add: on_store_def split: prod.split)

lemma on_relay_apply [act_simps]: "on_relay m w = (fst (m (sw_relay w)), w\<lparr>sw_relay := snd (m (sw_relay w))\<rparr>)"
  by (simp add: on_relay_def split: prod.split)

lemma getRandomValues_apply [act_simps]:
  "getRandomValues n w = (Inr (map (sw_rand w) [0..<n]), w\<lparr>sw_rand := \<lambda>k. sw_rand w (n + k)\<rparr>)"
  by (simp add: getRandomValues_def)

lemma encrypt_apply [act_simps]:
  "encrypt C key p w = (Inr (map (sw_rand w) [0..<NONCE_LEN] @ cr_seal C key (map (sw_rand w) [0..<NONCE_LEN]) p),
     w\<lparr>sw_rand := \<lambda>k. sw_rand w (NONCE_LEN + k)\<rparr>)"
  by (simp add: encrypt_def act_simps)

lemma sync_date_now_apply [act_simps]: "sync_date_now w = (Inr (sw_clock w 0), w\<lparr>sw_clock := \<lambda>n. sw_clock w (Suc n)\<rparr>)"
  by (simp add: sync_date_now_def)

lemmas run_defs = bump_def set_next_def set_state_def

text \<open>The primitives are what their documentation says: a sealed text opens, a digest has 32 bytes.\<close>

definition crypto_ok :: "crypto \<Rightarrow> bool" where
  "crypto_ok C \<longleftrightarrow> (\<forall>key nonce p. length nonce = NONCE_LEN \<longrightarrow> cr_open C key nonce (cr_seal C key nonce p) = Some p)
     \<and> (\<forall>x. length (cr_sha256 C x) = 32)"

lemma decrypt_sealed:
  "crypto_ok C \<Longrightarrow> length nonce = NONCE_LEN \<Longrightarrow> decrypt C key (nonce @ cr_seal C key nonce p) = Inr p"
  by (simp add: decrypt_def crypto_ok_def)

section \<open>Places\<close>

text \<open>A path of a manifest or a walk, and where it lies in the tree.\<close>

definition rel_ok :: "string \<Rightarrow> bool" where
  "rel_ok rel \<longleftrightarrow> ''..'' \<notin> set (split_on CHR ''/'' rel) \<and> norm_segs rel \<noteq> []"

definition place :: "string \<Rightarrow> string \<Rightarrow> string list" where
  "place collection rel = norm_segs collection @ norm_segs rel"

lemma join_place:
  assumes "path_ok collection" "rel_ok rel"
  shows "joinPath [collection, rel] = Inr (render (place collection rel))"
    "segs_ok (place collection rel)" "place collection rel \<noteq> []"
proof -
  have "path_ok (collection @ ''/'' @ rel)" using assms path_ok_append [of collection rel] by (simp add: path_ok_def rel_ok_def)
  moreover have "norm_segs (collection @ ''/'' @ rel) = place collection rel" by (simp only: norm_segs_append place_def)
  ultimately show "joinPath [collection, rel] = Inr (render (place collection rel))" "segs_ok (place collection rel)"
    using segs_ok_norm_segs [of "collection @ ''/'' @ rel"] by (simp_all add: joinPath_def normalizePath_eq)
  show "place collection rel \<noteq> []" using assms by (simp add: place_def rel_ok_def)
qed

lemma join_rejects: "\<not> rel_ok rel \<Longrightarrow> norm_segs rel \<noteq> [] \<Longrightarrow> joinPath [collection, rel] = Inl (StorageError Invalid_path)"
  using path_ok_append [of collection rel] by (simp add: joinPath_def normalizePath_eq rel_ok_def path_ok_def split_on_append)

text \<open>What the walk found at a path is what the tree holds there.\<close>

definition local_ok :: "('s, 'r) sync_run \<Rightarrow> tree \<Rightarrow> string \<Rightarrow> bool" where
  "local_ok E t rel \<longleftrightarrow>
     (case map_of (sr_locals E) rel of
        None \<Rightarrow> t (place (sr_collection E) rel) = None
      | Some l \<Rightarrow> t (place (sr_collection E) rel) = Some (FileN (lf_data l)) \<and> lf_rel l = rel
          \<and> lf_hash l = cr_sha256 (sr_crypto E) (lf_data l)
          \<and> path_ok (lf_abs l) \<and> norm_segs (lf_abs l) = place (sr_collection E) rel)"

text \<open>The blob of an entry, if it opens at all, holds contents with the hash of the entry.\<close>

definition entry_ok :: "('s, 'r) sync_run \<Rightarrow> (bytes \<Rightarrow> bytes option) \<Rightarrow> remote_entry \<Rightarrow> bool" where
  "entry_ok E bs r \<longleftrightarrow>
     (\<exists>i. re_b r = bytesToBase64 i \<and> length i = 32
       \<and> (\<forall>blob p. bs i = Some blob \<longrightarrow> decrypt (sr_crypto E) (sr_encKey E) blob = Inr p
            \<longrightarrow> bytesToBase64 (cr_sha256 (sr_crypto E) p) = re_h r))"

section \<open>Conflict copies\<close>

text \<open>The paths a walk produces: the segments below the collection, joined by slashes.\<close>

definition walked :: "string \<Rightarrow> bool" where
  "walked rel \<longleftrightarrow> (\<exists>ss. ss \<noteq> [] \<and> segs_ok ss \<and> rel = join_with ''/'' ss)"

lemma norm_segs_join: "segs_ok ss \<Longrightarrow> ss \<noteq> [] \<Longrightarrow> norm_segs (join_with ''/'' ss) = ss"
  by (simp add: norm_segs_def split_join segs_ok_def seg_ok_def filter_id_conv)

lemma join_rel_ok: "segs_ok ss \<Longrightarrow> ss \<noteq> [] \<Longrightarrow> rel_ok (join_with ''/'' ss)"
  using norm_segs_join [of ss] by (auto simp: rel_ok_def split_join segs_ok_def seg_ok_def)

lemma walked_rel_ok: "walked rel \<Longrightarrow> rel_ok rel"
  using join_rel_ok by (auto simp: walked_def)

lemma join_snoc: "join_with sep (xs @ [x]) = (if xs = [] then x else join_with sep xs @ sep @ x)"
  by (induction xs) (auto simp: join_with_Cons)

lemma last_index_append:
  "last_index_of c (xs @ ys) =
     (case last_index_of c ys of Some i \<Rightarrow> Some (length xs + i) | None \<Rightarrow> last_index_of c xs)"
  by (induction xs) (auto split: option.splits)

definition conflict_note :: "nat \<Rightarrow> string" where
  "conflict_note now = '' (conflict '' @ map (\<lambda>c. if c = CHR '':'' then CHR ''-'' else c)
     (take 19 (map (\<lambda>c. if c = CHR ''T'' then CHR '' '' else c) (toISOString now))) @ '')''"

definition conflict_name :: "string \<Rightarrow> nat \<Rightarrow> string" where
  "conflict_name s now =
     (case last_index_of CHR ''.'' s of None \<Rightarrow> s @ conflict_note now
      | Some i \<Rightarrow> take i s @ conflict_note now @ drop i s)"

lemma slash_digits: "CHR ''/'' \<notin> set (show_nat n)" "CHR ''/'' \<notin> set (pad_start k CHR ''0'' (show_nat n))"
proof -
  show "CHR ''/'' \<notin> set (show_nat n)"
  proof
    assume "CHR ''/'' \<in> set (show_nat n)"
    then obtain d where "d < 10" "CHR ''/'' = digit_char d" using show_base_chars [of 10 "CHR ''/''" n] by auto
    then have "(of_char CHR ''/'' :: nat) = 48 + d" by (simp add: digit_char_def of_char_of)
    then show False by simp
  qed
  then show "CHR ''/'' \<notin> set (pad_start k CHR ''0'' (show_nat n))" by (auto simp: pad_start_def)
qed

lemma iso_no_slash: "CHR ''/'' \<notin> set (toISOString ms)"
  using slash_digits by (auto simp: toISOString_def iso_date_def iso_time_def pad2_def Let_def split: prod.split)

lemma note_no_slash: "CHR ''/'' \<notin> set (conflict_note now)"
  using iso_no_slash [of now] by (auto simp: conflict_note_def dest: in_set_takeD split: if_splits)

lemma conflictPath_join:
  assumes "segs_ok (ss @ [s])"
  shows "conflictPath (join_with ''/'' (ss @ [s])) now = join_with ''/'' (ss @ [conflict_name s now])"
proof -
  have s: "CHR ''/'' \<notin> set s" using assms by (simp add: seg_ok_def)
  have eq: "conflictPath rel now =
     (case last_index_of CHR ''.'' rel of
        None \<Rightarrow> rel @ conflict_note now
      | Some dot \<Rightarrow>
          (case last_index_of CHR ''/'' rel of
             None \<Rightarrow> take dot rel @ conflict_note now @ drop dot rel
           | Some slash \<Rightarrow> if dot > slash then take dot rel @ conflict_note now @ drop dot rel else rel @ conflict_note now))" for rel
    by (simp only: conflictPath_def conflict_note_def Let_def)
  show ?thesis
  proof (cases "ss = []")
    case True
    then show ?thesis using s by (simp add: eq conflict_name_def split: option.split)
  next
    case False
    let ?d = "join_with ''/'' ss"
    have rel: "join_with ''/'' (ss @ [x]) = ?d @ CHR ''/'' # x" for x using False by (simp add: join_snoc)
    have slash: "last_index_of CHR ''/'' (?d @ CHR ''/'' # s) = Some (length ?d)" using s by (rule last_index_of_append_sep)
    have dot: "last_index_of CHR ''.'' (?d @ CHR ''/'' # s) =
        (case last_index_of CHR ''.'' s of Some i \<Rightarrow> Some (length ?d + Suc i) | None \<Rightarrow> last_index_of CHR ''.'' ?d)"
      by (simp add: last_index_append split: option.split)
    have "i < length ?d" if "last_index_of CHR ''.'' ?d = Some i" for i
      using last_index_of_SomeD [OF that] by simp
    then show ?thesis
      unfolding rel eq [of "?d @ CHR ''/'' # s"] slash dot
      by (auto simp: conflict_name_def split: option.split)
  qed
qed

lemma conflict_name_ok:
  assumes "seg_ok s"
  shows "seg_ok (conflict_name s now)" "conflict_name s now \<noteq> s"
proof -
  have "CHR ''('' \<in> set (conflict_name s now)" "CHR ''/'' \<notin> set (conflict_name s now)"
    using assms note_no_slash [of now]
    by (auto simp: conflict_name_def conflict_note_def seg_ok_def dest: in_set_takeD in_set_dropD split: option.splits)
  then show "seg_ok (conflict_name s now)" by (auto simp: seg_ok_def)
  have "length (conflict_name s now) = length s + length (conflict_note now)"
    using last_index_of_SomeD [of "CHR ''.''" s]
    by (fastforce simp: conflict_name_def split: option.splits)
  moreover have "length (conflict_note now) > 0" by (simp add: conflict_note_def)
  ultimately show "conflict_name s now \<noteq> s" by auto
qed

lemma conflict_place:
  assumes "walked rel"
  shows "rel_ok (conflictPath rel now)" "place c (conflictPath rel now) \<noteq> place c rel"
    "butlast (place c (conflictPath rel now)) = butlast (place c rel)"
proof -
  obtain ss s where rel: "rel = join_with ''/'' (ss @ [s])" "segs_ok (ss @ [s])"
    using assms by (metis walked_def append_butlast_last_id)
  have new: "conflictPath rel now = join_with ''/'' (ss @ [conflict_name s now])" "segs_ok (ss @ [conflict_name s now])"
    using rel conflictPath_join conflict_name_ok by simp_all
  then have segs: "norm_segs (conflictPath rel now) = ss @ [conflict_name s now]" "norm_segs rel = ss @ [s]"
    using rel norm_segs_join by (metis append_is_Nil_conv not_Cons_self2)+
  show "rel_ok (conflictPath rel now)" using new join_rel_ok by (metis append_is_Nil_conv not_Cons_self2)
  show "place c (conflictPath rel now) \<noteq> place c rel" using conflict_name_ok(2) rel(2) by (simp add: place_def segs)
  show "butlast (place c (conflictPath rel now)) = butlast (place c rel)" by (simp add: place_def segs butlast_append)
qed

section \<open>The engine\<close>

text \<open>The branches of the merge of two present files.\<close>

abbreviation changed :: "base_entry option \<Rightarrow> string \<Rightarrow> bool" where
  "changed s h \<equiv> (case s of None \<Rightarrow> True | Some s \<Rightarrow> ls_h s \<noteq> h)"

lemma abind_ret: "abind (aret r) k = k r"
  by (auto simp: fun_eq_iff act_simps split: sum.splits prod.splits)

lemma abind_athen: "abind (athen m n) k = athen m (abind n k)"
  by (auto simp: fun_eq_iff act_simps split: sum.splits prod.splits)

lemma athen_athen: "athen (athen m n) k = athen m (athen n k)"
  by (auto simp: fun_eq_iff act_simps split: sum.splits prod.splits)

lemma bump_then: "athen (bump f) m w = m (w\<lparr>sw_result := f (sw_result w)\<rparr>)"
  by (simp add: bump_def act_simps)

abbreviation record_entry :: "string \<Rightarrow> remote_entry \<Rightarrow> (('s, 'r) sync_world, unit) act" where
  "record_entry rel e \<equiv> athen (set_next rel e) (set_state rel e)"

lemma merge_both_branch:
  defines "lh l \<equiv> bytesToBase64 (lf_hash l)"
  shows "lh l = re_h r \<Longrightarrow> merge_both E rel l r s = record_entry rel r"
    "lh l \<noteq> re_h r \<Longrightarrow> changed s (lh l) \<Longrightarrow> \<not> changed s (re_h r) \<Longrightarrow>
       merge_both E rel l r s = abind (upload E l) (record_entry rel)"
    "lh l \<noteq> re_h r \<Longrightarrow> \<not> changed s (lh l) \<Longrightarrow> merge_both E rel l r s = athen (download E r rel) (record_entry rel r)"
    "lh l \<noteq> re_h r \<Longrightarrow> changed s (lh l) \<Longrightarrow> changed s (re_h r) \<Longrightarrow> re_m r \<le> lf_mtime l \<Longrightarrow>
       merge_both E rel l r s
         = athen (bump (\<lambda>x. x\<lparr>conflicts := conflicts x + 1\<rparr>)) (abind (upload E l) (record_entry rel))"
    "lh l \<noteq> re_h r \<Longrightarrow> changed s (lh l) \<Longrightarrow> changed s (re_h r) \<Longrightarrow> lf_mtime l < re_m r \<Longrightarrow>
       merge_both E rel l r s
         = athen (bump (\<lambda>x. x\<lparr>conflicts := conflicts x + 1\<rparr>))
             (athen (keep_conflict_copy E rel l) (athen (download E r rel) (record_entry rel r)))"
  by (auto simp: merge_both_def lh_def Let_def abind_athen abind_ret split: option.splits)

text \<open>Only the loop over the paths adds to the errors of the result.\<close>

definition keeps_errors :: "(('s, 'r) sync_world, 'a) act \<Rightarrow> bool" where
  "keeps_errors m \<longleftrightarrow> (\<forall>w. sync_errors (sw_result (snd (m w))) = sync_errors (sw_result w))"

lemma keeps_errors_bind:
  "keeps_errors m \<Longrightarrow> (\<And>x. keeps_errors (k x)) \<Longrightarrow> keeps_errors (abind m k)"
  "keeps_errors n \<Longrightarrow> keeps_errors j \<Longrightarrow> keeps_errors (athen n j)"
  by (auto simp: keeps_errors_def act_simps split: sum.splits prod.splits) (metis snd_conv)+

lemma keeps_errors_basic:
  "keeps_errors (aret x)" "keeps_errors (athrow e)" "keeps_errors (alift y)" "keeps_errors (on_store ms)" "keeps_errors (on_relay mr)"
  "keeps_errors (encrypt C key p)" "keeps_errors (set_next rel r)" "keeps_errors (set_state rel r)"
  "(\<And>x. sync_errors (f x) = sync_errors x) \<Longrightarrow> keeps_errors (bump f)"
  "(\<And>w. sw_result (g w) = sw_result w) \<Longrightarrow> keeps_errors (amodify g)"
  by (auto simp: keeps_errors_def act_simps run_defs alift_def split: sum.splits)

lemma keeps_errors_calls: "keeps_errors (upload E l)" "keeps_errors (download E r rel)" "keeps_errors (keep_conflict_copy E rel l)"
  unfolding upload_def download_def keep_conflict_copy_def Let_def
  by (intro keeps_errors_bind keeps_errors_basic; simp split: option.split add: keeps_errors_bind keeps_errors_basic)+

lemma keeps_errors_merge: "keeps_errors (merge_path E rel)"
  unfolding merge_path_def merge_both_def merge_local_def merge_remote_def prune_tombstone_def Let_def
  by (simp add: keeps_errors_bind keeps_errors_basic keeps_errors_calls split: option.split)

text \<open>The edits of a file that the last sync has not seen.\<close>

definition unsynced :: "('s, 'r) sync_run \<Rightarrow> string \<Rightarrow> bool" where
  "unsynced E rel \<longleftrightarrow>
     (case map_of (sr_locals E) rel of
        None \<Rightarrow> False
      | Some l \<Rightarrow> (case map_of (sr_base E) rel of None \<Rightarrow> True | Some s \<Rightarrow> ls_h s \<noteq> bytesToBase64 (lf_hash l)))"

text \<open>
  Agreement at a path after a pass: what the new manifest and the new state say is what the tree holds.
\<close>

definition agreed :: "('s, 'r) sync_run \<Rightarrow> tree \<Rightarrow> (string \<times> remote_entry) list \<Rightarrow> (string \<times> base_entry) list \<Rightarrow> string \<Rightarrow> bool" where
  "agreed E t nextFiles nextState rel \<longleftrightarrow>
     (case map_of nextFiles rel of
        Some e \<Rightarrow>
          if deleted e then t (place (sr_collection E) rel) = None \<and> map_of nextState rel = None
          else map_of nextState rel = Some \<lparr>ls_h = re_h e, ls_b = re_b e\<rparr>
            \<and> (\<exists>b. t (place (sr_collection E) rel) = Some (FileN b) \<and> bytesToBase64 (cr_sha256 (sr_crypto E) b) = re_h e)
      | None \<Rightarrow> t (place (sr_collection E) rel) = None \<and> map_of nextState rel = None)"

text \<open>What the pass starts from: the manifest as fetched, an empty new state.\<close>

definition fresh_at :: "('s, 'r) sync_run \<Rightarrow> ('s, 'r) sync_world \<Rightarrow> string \<Rightarrow> bool" where
  "fresh_at E w rel \<longleftrightarrow> map_of (sw_next w) rel = map_of (sr_remote E) rel \<and> map_of (sw_state w) rel = None"

locale sync_engine = storage_backend B fs inv + blob_relay R blobs live
  for B :: "'s backend" and fs inv and R :: "'r relay" and blobs live
begin

abbreviation tree_of_run :: "('s, 'r) sync_world \<Rightarrow> tree" where
  "tree_of_run w \<equiv> fs (sw_store w)"

abbreviation same_vars :: "('s, 'r) sync_world \<Rightarrow> ('s, 'r) sync_world \<Rightarrow> bool" where
  "same_vars w w' \<equiv> sw_next w' = sw_next w \<and> sw_state w' = sw_state w"

text \<open>An upload that succeeds.\<close>

lemma upload_ok:
  assumes "upload E l w = (Inr e, w')" "sr_client E = R" "crypto_ok (sr_crypto E)"
  shows "sw_store w' = sw_store w \<and> same_vars w w'
    \<and> sw_result w' = (sw_result w)\<lparr>uploaded := uploaded (sw_result w) + 1\<rparr>
    \<and> e = \<lparr>re_h = bytesToBase64 (lf_hash l), re_m = (if lf_mtime l \<noteq> 0 then lf_mtime l else sr_now E),
           re_s = lf_size l, re_b = bytesToBase64 (fileBlobId (sr_crypto E) (sr_key E) (lf_rel l) (lf_hash l)), re_d = None\<rparr>
    \<and> (let i = fileBlobId (sr_crypto E) (sr_key E) (lf_rel l) (lf_hash l) in
       (\<forall>j. j \<noteq> i \<longrightarrow> blobs (sw_relay w') j = blobs (sw_relay w) j)
       \<and> (\<exists>blob. blobs (sw_relay w') i = Some blob
            \<and> (blobs (sw_relay w) i = Some blob \<or> decrypt (sr_crypto E) (sr_encKey E) blob = Inr (lf_data l))))"
proof -
  let ?i = "fileBlobId (sr_crypto E) (sr_key E) (lf_rel l) (lf_hash l)"
  let ?nonce = "map (sw_rand w) [0..<NONCE_LEN]"
  let ?blob = "?nonce @ cr_seal (sr_crypto E) (sr_encKey E) ?nonce (lf_data l)"
  have i: "length ?i = 32" using assms(3) by (simp add: fileBlobId_def crypto_ok_def)
  obtain x r' where put: "rc_put R ?i ?blob SYNC_BLOB_TTL_SECONDS (sw_relay w) = (x, r')" by fastforce
  obtain y where x: "x = Inr y" using assms(1,2) put by (cases x) (auto simp: upload_def act_simps Let_def)
  have dec: "decrypt (sr_crypto E) (sr_encKey E) ?blob = Inr (lf_data l)"
    using assms(3) by (intro decrypt_sealed) simp_all
  have frame: "\<forall>j. j \<noteq> ?i \<longrightarrow> blobs r' j = blobs (sw_relay w) j" using put_law [OF i put] by blast
  have stored: "\<exists>blob. blobs r' ?i = Some blob
      \<and> (blobs (sw_relay w) ?i = Some blob \<or> decrypt (sr_crypto E) (sr_encKey E) blob = Inr (lf_data l))"
    using put_law [OF i put] x dec by (cases y; cases "blobs (sw_relay w) ?i") auto
  show ?thesis
    using assms(1,2) put x frame stored by (auto simp: upload_def act_simps Let_def run_defs)
qed

lemma upload_fails: "upload E l w = (Inl e, w') \<Longrightarrow> sw_store w' = sw_store w \<and> same_vars w w' \<and> sw_result w' = sw_result w"
  by (auto simp: upload_def act_simps Let_def run_defs split: sum.splits prod.splits)

text \<open>A download that succeeds, and what a failed one may have changed: directories and nothing else.\<close>

lemma get_frame:
  assumes "rc_get R i r = (x, r')" "length i = 32"
  shows "(live r i \<longrightarrow> blobs r' i = blobs r i) \<and> (\<forall>j. j \<noteq> i \<longrightarrow> blobs r' j = blobs r j)"
  using get_law [OF assms(2,1)] by blast

lemma download_ok:
  assumes "download E r rel w = (Inr (), w')" "sr_client E = R" "sr_storage E = B"
    and "path_ok (sr_collection E)" "rel_ok rel" "inv (sw_store w)" "re_b r = bytesToBase64 i" "length i = 32"
  obtains blob plain where "blobs (sw_relay w) i = Some blob" "decrypt (sr_crypto E) (sr_encKey E) blob = Inr plain"
    "tree_of_run w' = (mkdirs (butlast (place (sr_collection E) rel)) (tree_of_run w))(place (sr_collection E) rel \<mapsto> FileN plain)"
    "inv (sw_store w')" "blobs (sw_relay w') = blobs (sw_relay w)" "same_vars w w'"
    "sw_result w' = (sw_result w)\<lparr>downloaded := downloaded (sw_result w) + 1\<rparr>"
proof -
  let ?p = "place (sr_collection E) rel"
  note p = join_place [OF assms(4,5)]
  obtain x r' where get: "rc_get R i (sw_relay w) = (x, r')" by fastforce
  obtain blob where x: "x = Inr (Some blob)"
    using assms(1,2,7) get by (auto simp: download_def act_simps split: sum.splits option.splits)
  have b: "blobs (sw_relay w) i = Some blob" "blobs r' = blobs (sw_relay w)"
    using get_law [OF assms(8) get] get_blobs [OF assms(8)] get x by blast+
  obtain m s1 where mk: "mkdir B (render (butlast ?p)) (sync_options\<lparr>opt_recursive := Some True\<rparr>) (sw_store w) = (m, s1)" by fastforce
  have ok1: "path_ok (render (butlast ?p))" "norm_segs (render (butlast ?p)) = butlast ?p" using p(2) by simp_all
  have s1: "inv s1" "m = Inr () \<Longrightarrow> fs s1 = mkdirs (butlast ?p) (tree_of_run w)"
    using mkdir_law [OF assms(6) ok1(1) mk] ok1(2) by (auto simp: update_ok_def mkdir_tree_def split: option.splits)
  have m: "m = Inr ()"
    using assms(1,2,3,7) get x mk p(1,2) by (cases m) (auto simp: download_def act_simps parentPath_render)
  obtain plain where plain: "decrypt (sr_crypto E) (sr_encKey E) blob = Inr plain"
    using assms(1,2,3,7) get x mk m p(1,2)
    by (cases "decrypt (sr_crypto E) (sr_encKey E) blob") (auto simp: download_def act_simps parentPath_render)
  obtain u s2 where wr: "writeFile B (render ?p) plain sync_options s1 = (u, s2)" by fastforce
  have u: "u = Inr ()"
    using assms(1,2,3,7) get x mk m plain wr p(1,2) by (cases u) (auto simp: download_def act_simps parentPath_render)
  have s2: "inv s2" "fs s2 = (fs s1)(?p \<mapsto> FileN plain)"
    using writeFile_law [OF s1(1), of "render ?p" plain sync_options u s2] wr u p(2,3)
    by (auto simp: update_ok_def split: option.splits)
  have "w' = w\<lparr>sw_relay := r', sw_store := s2, sw_result := (sw_result w)\<lparr>downloaded := downloaded (sw_result w) + 1\<rparr>\<rparr>"
    using assms(1,2,3,7) get x mk m plain wr u p(1,2) by (auto simp: download_def act_simps parentPath_render run_defs)
  then show ?thesis using that [OF b(1) plain] s1(2) [OF m] s2 b(2) by simp
qed

lemma conflict_copy_ok:
  assumes "keep_conflict_copy E rel l w = (Inr (), w')" "sr_storage E = B"
    and "path_ok (sr_collection E)" "rel_ok (conflictPath rel (sr_now E))" "inv (sw_store w)"
  shows "tree_of_run w' = (mkdirs (butlast (place (sr_collection E) (conflictPath rel (sr_now E)))) (tree_of_run w))
        (place (sr_collection E) (conflictPath rel (sr_now E)) \<mapsto> FileN (lf_data l))
    \<and> inv (sw_store w') \<and> sw_relay w' = sw_relay w \<and> same_vars w w' \<and> sw_result w' = sw_result w"
proof -
  let ?p = "place (sr_collection E) (conflictPath rel (sr_now E))"
  note p = join_place [OF assms(3,4)]
  have ok1: "path_ok (render (butlast ?p))" "norm_segs (render (butlast ?p)) = butlast ?p" using p(2) by simp_all
  obtain m s1 where mk: "mkdir B (render (butlast ?p)) (sync_options\<lparr>opt_recursive := Some True\<rparr>) (sw_store w) = (m, s1)" by fastforce
  have m: "m = Inr ()"
    using assms(1,2) mk p(1,2) by (cases m) (auto simp: keep_conflict_copy_def act_simps parentPath_render)
  have s1: "inv s1" "fs s1 = mkdirs (butlast ?p) (tree_of_run w)"
    using mkdir_law [OF assms(5) ok1(1) mk] ok1(2) m by (auto simp: update_ok_def mkdir_tree_def split: option.splits)
  obtain u s2 where wr: "writeFile B (render ?p) (lf_data l) sync_options s1 = (u, s2)" by fastforce
  have u: "u = Inr ()"
    using assms(1,2) mk m wr p(1,2) by (cases u) (auto simp: keep_conflict_copy_def act_simps parentPath_render)
  have s2: "inv s2" "fs s2 = (fs s1)(?p \<mapsto> FileN (lf_data l))"
    using writeFile_law [OF s1(1), of "render ?p" "lf_data l" sync_options u s2] wr u p(2,3)
    by (auto simp: update_ok_def split: option.splits)
  have "w' = w\<lparr>sw_store := s2\<rparr>"
    using assms(1,2) mk m wr u p(1,2) by (auto simp: keep_conflict_copy_def act_simps parentPath_render)
  then show ?thesis using s1(2) s2 by simp
qed

lemma download_any:
  assumes "download E r rel w = (x, w')" "sr_storage E = B" "path_ok (sr_collection E)" "rel_ok rel" "inv (sw_store w)"
  shows "inv (sw_store w') \<and> files_kept {place (sr_collection E) rel} (tree_of_run w) (tree_of_run w') \<and> same_vars w w'
    \<and> (\<forall>e. x = Inl e \<longrightarrow> files_kept {} (tree_of_run w) (tree_of_run w'))"
proof -
  let ?p = "place (sr_collection E) rel"
  note p = join_place [OF assms(3,4)]
  obtain m s1 where mk: "mkdir B (render (butlast ?p)) (sync_options\<lparr>opt_recursive := Some True\<rparr>) (sw_store w) = (m, s1)" by fastforce
  note s1 = mkdir_files [OF assms(5) mk]
  have s2: "inv (snd (writeFile B (render ?p) b sync_options s1))
      \<and> files_kept {?p} (tree_of_run w) (fs (snd (writeFile B (render ?p) b sync_options s1)))
      \<and> (\<forall>e. fst (writeFile B (render ?p) b sync_options s1) = Inl e
          \<longrightarrow> files_kept {} (tree_of_run w) (fs (snd (writeFile B (render ?p) b sync_options s1))))" for b
    using write_files [of s1 "render ?p" b sync_options "fst (writeFile B (render ?p) b sync_options s1)"
        "snd (writeFile B (render ?p) b sync_options s1)"] s1 p(2,3)
    by (auto simp: files_kept_def)
  have weak: "files_kept {?p} (tree_of_run w) (fs s1)" using s1 by (simp add: files_kept_def)
  show ?thesis
    using assms(1,2,5) mk s1 weak s2 p(1,2)
    by (auto simp: download_def act_simps parentPath_render run_defs split: sum.splits option.splits prod.splits)
qed

lemma copy_any:
  assumes "keep_conflict_copy E rel l w = (x, w')" "sr_storage E = B"
    and "path_ok (sr_collection E)" "rel_ok (conflictPath rel (sr_now E))" "inv (sw_store w)"
  shows "inv (sw_store w') \<and> files_kept {place (sr_collection E) (conflictPath rel (sr_now E))} (tree_of_run w) (tree_of_run w')
    \<and> same_vars w w'
    \<and> (x = Inr () \<longrightarrow> tree_of_run w' (place (sr_collection E) (conflictPath rel (sr_now E))) = Some (FileN (lf_data l)))"
proof -
  let ?p = "place (sr_collection E) (conflictPath rel (sr_now E))"
  note p = join_place [OF assms(3,4)]
  obtain m s1 where mk: "mkdir B (render (butlast ?p)) (sync_options\<lparr>opt_recursive := Some True\<rparr>) (sw_store w) = (m, s1)" by fastforce
  note s1 = mkdir_files [OF assms(5) mk]
  obtain u s2 where wr: "writeFile B (render ?p) (lf_data l) sync_options s1 = (u, s2)" by fastforce
  have s2: "inv s2 \<and> files_kept {?p} (tree_of_run w) (fs s2) \<and> (u = Inr () \<longrightarrow> fs s2 ?p = Some (FileN (lf_data l)))"
    using write_files [of s1 "render ?p" "lf_data l" sync_options u s2] wr s1 p(2,3) by (auto simp: files_kept_def)
  have weak: "files_kept {?p} (tree_of_run w) (fs s1)" using s1 by (simp add: files_kept_def)
  show ?thesis
    using assms(1,2,5) mk s1 weak wr s2 p(1,2)
    by (auto simp: keep_conflict_copy_def act_simps parentPath_render run_defs split: sum.splits option.splits prod.splits)
qed

lemma upload_any: "upload E l w = (x, w') \<Longrightarrow> sw_store w' = sw_store w \<and> same_vars w w'"
  by (auto simp: upload_def act_simps Let_def run_defs split: sum.splits prod.splits)

text \<open>One path, whatever the outcome.\<close>

lemma merge_local_files:
  assumes "merge_local E rel l r s w = (x, w')" "sr_storage E = B" "inv (sw_store w)"
    and "path_ok (lf_abs l)" "norm_segs (lf_abs l) = p" "tree_of_run w p = Some (FileN b)"
  shows "inv (sw_store w') \<and> files_kept {p} (tree_of_run w) (tree_of_run w')
    \<and> ((case s of None \<Rightarrow> True | Some s \<Rightarrow> ls_h s \<noteq> bytesToBase64 (lf_hash l)) \<longrightarrow> sw_store w' = sw_store w)"
proof -
  obtain u s1 where rm: "remove_path B (lf_abs l) sync_options (sw_store w) = (u, s1)" by fastforce
  have s1: "inv s1 \<and> files_kept {p} (tree_of_run w) (fs s1)"
  proof -
    have "t' q = Some (FileN c)" if "t' = remove_tree p (tree_of_run w)" "q \<noteq> p" "tree_of_run w q = Some (FileN c)" for t' q c
      using that tree_ok_under_file [OF tree_ok [OF assms(3)] assms(6), of q] by (auto simp: remove_tree_def strict_prefix_def)
    then show ?thesis
      using remove_law [OF assms(3,4) rm] assms(5)
      by (auto simp: update_ok_def files_kept_def split: option.splits)
  qed
  obtain v w1 where up: "upload E l w = (v, w1)" by fastforce
  note w1 = upload_any [OF up]
  show ?thesis
    using assms(1-3) rm s1 up w1
    by (cases v; auto simp: merge_local_def act_simps run_defs split: option.splits if_splits sum.splits)
qed

lemma merge_both_files:
  assumes "merge_both E rel l r s w = (x, w')" "sr_storage E = B" "path_ok (sr_collection E)" "walked rel" "inv (sw_store w)"
    and "tree_of_run w (place (sr_collection E) rel) = Some (FileN (lf_data l))"
  defines "p \<equiv> place (sr_collection E) rel" and "c \<equiv> place (sr_collection E) (conflictPath rel (sr_now E))"
  shows "inv (sw_store w') \<and> files_kept {p, c} (tree_of_run w) (tree_of_run w')
    \<and> ((case s of None \<Rightarrow> True | Some s \<Rightarrow> ls_h s \<noteq> bytesToBase64 (lf_hash l))
        \<longrightarrow> tree_of_run w' p = Some (FileN (lf_data l)) \<or> tree_of_run w' c = Some (FileN (lf_data l)))"
proof -
  have rels: "rel_ok rel" "rel_ok (conflictPath rel (sr_now E))" "c \<noteq> p"
    using assms(4) walked_rel_ok conflict_place by (simp_all add: p_def c_def)
  have here: "tree_of_run w p = Some (FileN (lf_data l))" using assms(6) by (simp add: p_def)
  let ?w1 = "w\<lparr>sw_result := (sw_result w)\<lparr>conflicts := conflicts (sw_result w) + 1\<rparr>\<rparr>"
  obtain u wu where up: "upload E l w = (u, wu)" by fastforce
  obtain u1 wu1 where up1: "upload E l ?w1 = (u1, wu1)" by fastforce
  obtain d wd where dn: "download E r rel w = (d, wd)" by fastforce
  obtain k wk where cp: "keep_conflict_copy E rel l ?w1 = (k, wk)" by fastforce
  obtain d2 wd2 where dn2: "download E r rel wk = (d2, wd2)" by fastforce
  note u = upload_any [OF up] upload_any [OF up1]
  note d = download_any [OF dn assms(2,3) rels(1) assms(5), folded p_def]
  have k: "inv (sw_store wk) \<and> files_kept {c} (tree_of_run w) (tree_of_run wk)
      \<and> (k = Inr () \<longrightarrow> tree_of_run wk c = Some (FileN (lf_data l)))"
    using copy_any [OF cp assms(2,3) rels(2)] assms(5) by (simp add: c_def)
  note d2 = download_any [OF dn2 assms(2,3) rels(1) k [THEN conjunct1], folded p_def]
  have kept: "files_kept {p, c} (tree_of_run w) (tree_of_run wd)" "files_kept {p, c} (tree_of_run w) (tree_of_run wk)"
    "files_kept {p, c} (tree_of_run w) (tree_of_run wd2)"
    using d k d2 by (auto simp: files_kept_def)
  have copy: "tree_of_run wk p = Some (FileN (lf_data l))" "k = Inr () \<Longrightarrow> tree_of_run wd2 c = Some (FileN (lf_data l))"
    using k d2 here rels(3) by (auto simp: files_kept_def)
  consider "bytesToBase64 (lf_hash l) = re_h r"
    | "bytesToBase64 (lf_hash l) \<noteq> re_h r" "changed s (bytesToBase64 (lf_hash l))" "\<not> changed s (re_h r)"
    | "bytesToBase64 (lf_hash l) \<noteq> re_h r" "\<not> changed s (bytesToBase64 (lf_hash l))"
    | "bytesToBase64 (lf_hash l) \<noteq> re_h r" "changed s (bytesToBase64 (lf_hash l))" "changed s (re_h r)" "re_m r \<le> lf_mtime l"
    | "bytesToBase64 (lf_hash l) \<noteq> re_h r" "changed s (bytesToBase64 (lf_hash l))" "changed s (re_h r)" "lf_mtime l < re_m r"
    by linarith
  then show ?thesis
  proof cases
    case 1
    then show ?thesis using assms(1,5) here by (auto simp: merge_both_branch act_simps run_defs)
  next
    case 2
    then show ?thesis using assms(1,5) here up u by (cases u) (auto simp: merge_both_branch act_simps run_defs)
  next
    case 3
    then show ?thesis using assms(1) dn d kept(1) by (cases d) (auto simp: merge_both_branch act_simps run_defs)
  next
    case 4
    then show ?thesis using assms(1,5) here up1 u by (cases u1) (auto simp: merge_both_branch act_simps run_defs)
  next
    case 5
    then show ?thesis using assms(1) cp k kept copy dn2 d2
      by (cases k; cases d2) (auto simp: merge_both_branch act_simps run_defs)
  qed
qed

lemma merge_remote_files:
  assumes "merge_remote E rel r s w = (x, w')" "sr_storage E = B" "path_ok (sr_collection E)" "rel_ok rel" "inv (sw_store w)"
  shows "inv (sw_store w') \<and> files_kept {place (sr_collection E) rel} (tree_of_run w) (tree_of_run w')"
proof -
  obtain d wd where dn: "download E r rel w = (d, wd)" by fastforce
  show ?thesis
    using assms(1,5) dn download_any [OF dn assms(2-5)]
    by (cases d) (auto simp: merge_remote_def act_simps run_defs split: if_splits)
qed

lemma sync_path_files:
  assumes "sync_path E rel w = (x, w')" "sr_storage E = B" "path_ok (sr_collection E)" "walked rel" "inv (sw_store w)"
    and "map_of (sr_locals E) rel \<noteq> None \<longrightarrow> local_ok E (tree_of_run w) rel"
  defines "p \<equiv> place (sr_collection E) rel" and "c \<equiv> place (sr_collection E) (conflictPath rel (sr_now E))"
  shows "x = Inr ()" "inv (sw_store w')" "files_kept {p, c} (tree_of_run w) (tree_of_run w')"
    "unsynced E rel \<Longrightarrow> tree_of_run w p = Some (FileN b)
       \<Longrightarrow> tree_of_run w' p = Some (FileN b) \<or> tree_of_run w' c = Some (FileN b)"
proof -
  obtain y w1 where m: "merge_path E rel w = (y, w1)" by fastforce
  then show "x = Inr ()" using assms(1) by (cases y) (auto simp: sync_path_def act_simps run_defs)
  have w': "sw_store w' = sw_store w1" using m assms(1) by (cases y) (auto simp: sync_path_def act_simps run_defs)
  have "inv (sw_store w1) \<and> files_kept {p, c} (tree_of_run w) (tree_of_run w1)
    \<and> (unsynced E rel \<longrightarrow> (\<forall>b. tree_of_run w p = Some (FileN b)
         \<longrightarrow> tree_of_run w1 p = Some (FileN b) \<or> tree_of_run w1 c = Some (FileN b)))"
  proof (cases "map_of (sr_locals E) rel")
    case None
    then have none: "\<not> unsynced E rel" by (simp add: unsynced_def)
    show ?thesis
    proof (cases "\<exists>r. map_of (sr_remote E) rel = Some r \<and> \<not> deleted r")
      case True
      then obtain r where "merge_remote E rel r (map_of (sr_base E) rel) w = (y, w1)" using m None by (auto simp: merge_path_def)
      from merge_remote_files [OF this assms(2,3) walked_rel_ok [OF assms(4)] assms(5)]
      show ?thesis using none by (auto simp: p_def files_kept_def)
    next
      case False
      then have "prune_tombstone E rel (map_of (sr_remote E) rel) w = (y, w1)"
        using m None by (auto simp: merge_path_def Let_def split: option.splits)
      then have "sw_store w1 = sw_store w"
        by (auto simp: prune_tombstone_def act_simps run_defs split: option.splits if_splits)
      then show ?thesis using assms(5) by simp
    qed
  next
    case (Some l)
    have l: "tree_of_run w p = Some (FileN (lf_data l))" "path_ok (lf_abs l)" "norm_segs (lf_abs l) = p"
      using assms(6) Some by (simp_all add: local_ok_def p_def)
    show ?thesis
    proof (cases "\<exists>r. map_of (sr_remote E) rel = Some r \<and> \<not> deleted r")
      case True
      then obtain r where "merge_both E rel l r (map_of (sr_base E) rel) w = (y, w1)" using m Some by (auto simp: merge_path_def)
      from merge_both_files [OF this assms(2-5)] show ?thesis
        using l Some by (simp add: unsynced_def p_def c_def)
    next
      case False
      then have "merge_local E rel l (map_of (sr_remote E) rel) (map_of (sr_base E) rel) w = (y, w1)"
        using m Some by (auto simp: merge_path_def Let_def split: option.splits)
      from merge_local_files [OF this assms(2,5) l(2,3,1)] show ?thesis
        using l Some by (auto simp: unsynced_def files_kept_def)
    qed
  qed
  then show "inv (sw_store w')" "files_kept {p, c} (tree_of_run w) (tree_of_run w')"
    "unsynced E rel \<Longrightarrow> tree_of_run w p = Some (FileN b)
       \<Longrightarrow> tree_of_run w' p = Some (FileN b) \<or> tree_of_run w' c = Some (FileN b)"
    using w' by simp_all
qed

lemma agreed_record:
  assumes "record_entry rel e w = (x, w')" "\<not> deleted e" "tree_of_run w (place (sr_collection E) rel) = Some (FileN b)"
    "bytesToBase64 (cr_sha256 (sr_crypto E) b) = re_h e"
  shows "agreed E (tree_of_run w') (sw_next w') (sw_state w') rel"
  using assms by (auto simp: act_simps run_defs agreed_def update_conv)

lemma download_settles:
  assumes "athen (download E r rel) (record_entry rel r) w = (Inr (), w')" "sr_client E = R" "sr_storage E = B"
    and "path_ok (sr_collection E)" "rel_ok rel" "inv (sw_store w)" "\<not> deleted r" "entry_ok E (blobs (sw_relay w)) r"
  shows "agreed E (tree_of_run w') (sw_next w') (sw_state w') rel"
proof -
  obtain d wd where dn: "download E r rel w = (d, wd)" by fastforce
  then have d: "d = Inr ()" using assms(1) by (cases d) (auto simp: act_simps)
  obtain i where i: "re_b r = bytesToBase64 i" "length i = 32"
    "\<And>blob p. blobs (sw_relay w) i = Some blob \<Longrightarrow> decrypt (sr_crypto E) (sr_encKey E) blob = Inr p
            \<Longrightarrow> bytesToBase64 (cr_sha256 (sr_crypto E) p) = re_h r"
    using assms(8) unfolding entry_ok_def by blast
  obtain blob plain where b: "blobs (sw_relay w) i = Some blob" "decrypt (sr_crypto E) (sr_encKey E) blob = Inr plain"
    "tree_of_run wd = (mkdirs (butlast (place (sr_collection E) rel)) (tree_of_run w))(place (sr_collection E) rel \<mapsto> FileN plain)"
    using download_ok [OF dn [unfolded d] assms(2-6) i(1,2)] by metis
  obtain y where rec: "record_entry rel r wd = (y, w')" using assms(1) dn d by (auto simp: act_simps)
  show ?thesis using agreed_record [OF rec assms(7), of E plain] b i(3) by simp
qed

lemma upload_settles:
  assumes "abind (upload E l) (record_entry rel) w = (Inr (), w')" "sr_client E = R" "crypto_ok (sr_crypto E)"
    and "tree_of_run w (place (sr_collection E) rel) = Some (FileN (lf_data l))" "lf_hash l = cr_sha256 (sr_crypto E) (lf_data l)"
  shows "agreed E (tree_of_run w') (sw_next w') (sw_state w') rel"
proof -
  obtain u wu where up: "upload E l w = (u, wu)" by fastforce
  then obtain e where e: "u = Inr e" using assms(1) by (cases u) (auto simp: act_simps)
  note ok = upload_ok [OF up [unfolded e] assms(2,3)]
  obtain y where rec: "record_entry rel e wu = (y, w')" using assms(1) up e by (auto simp: act_simps)
  have "sw_store wu = sw_store w" using ok by (rule conjunct1)
  moreover have "\<not> deleted e" "re_h e = bytesToBase64 (lf_hash l)" using ok by (auto simp: deleted_def)
  ultimately show ?thesis using agreed_record [OF rec, of E "lf_data l"] assms(4,5) by simp
qed

lemma merge_path_settles:
  assumes "merge_path E rel w = (Inr (), w')" "sr_storage E = B" "sr_client E = R" "path_ok (sr_collection E)" "walked rel"
    and "inv (sw_store w)" "local_ok E (tree_of_run w) rel" "fresh_at E w rel" "crypto_ok (sr_crypto E)"
    and "\<And>r. map_of (sr_remote E) rel = Some r \<Longrightarrow> entry_ok E (blobs (sw_relay w)) r"
  shows "agreed E (tree_of_run w') (sw_next w') (sw_state w') rel"
proof -
  note rel = walked_rel_ok [OF assms(5)]
  let ?p = "place (sr_collection E) rel"
  show ?thesis
  proof (cases "map_of (sr_locals E) rel")
    case None
    then have none: "tree_of_run w ?p = None" using assms(7) by (simp add: local_ok_def)
    show ?thesis
    proof (cases "\<exists>r. map_of (sr_remote E) rel = Some r \<and> \<not> deleted r")
      case True
      then obtain r where r: "map_of (sr_remote E) rel = Some r" "\<not> deleted r" by blast
      then have m: "merge_remote E rel r (map_of (sr_base E) rel) w = (Inr (), w')" using assms(1) None by (auto simp: merge_path_def)
      show ?thesis
      proof (cases "\<exists>s. map_of (sr_base E) rel = Some s \<and> ls_h s = re_h r")
        case True
        then show ?thesis
          using m none assms(8) by (auto simp: merge_remote_def act_simps run_defs agreed_def update_conv deleted_def fresh_at_def)
      next
        case False
        then have "athen (download E r rel) (record_entry rel r) w = (Inr (), w')"
          using m by (auto simp: merge_remote_def split: option.splits)
        then show ?thesis using download_settles assms(2-4,6,10) rel r by blast
      qed
    next
      case False
      then have "prune_tombstone E rel (map_of (sr_remote E) rel) w = (Inr (), w')"
        using assms(1) None by (auto simp: merge_path_def Let_def split: option.splits)
      then show ?thesis
        using none assms(8) False
        by (auto simp: prune_tombstone_def act_simps run_defs agreed_def update_conv delete_conv fresh_at_def
            split: option.splits if_splits)
    qed
  next
    case (Some l)
    have l: "tree_of_run w ?p = Some (FileN (lf_data l))" "path_ok (lf_abs l)" "norm_segs (lf_abs l) = ?p"
      "lf_hash l = cr_sha256 (sr_crypto E) (lf_data l)"
      using assms(7) Some by (simp_all add: local_ok_def)
    show ?thesis
    proof (cases "\<exists>r. map_of (sr_remote E) rel = Some r \<and> \<not> deleted r")
      case True
      then obtain r where r: "map_of (sr_remote E) rel = Some r" "\<not> deleted r" by blast
      then have m: "merge_both E rel l r (map_of (sr_base E) rel) w = (Inr (), w')" using assms(1) Some by (auto simp: merge_path_def)
      show ?thesis
      proof (cases "bytesToBase64 (lf_hash l) = re_h r")
        case True
        then have "record_entry rel r w = (Inr (), w')" using m by (simp add: merge_both_branch)
        then show ?thesis using agreed_record r(2) l True by auto
      next
        case ne: False
        let ?w1 = "w\<lparr>sw_result := (sw_result w)\<lparr>conflicts := conflicts (sw_result w) + 1\<rparr>\<rparr>"
        have up: "abind (upload E l) (record_entry rel) w = (Inr (), w') \<or> abind (upload E l) (record_entry rel) ?w1 = (Inr (), w')
            \<Longrightarrow> ?thesis"
          using upload_settles [of E l rel w w'] upload_settles [of E l rel ?w1 w'] assms(3,9) l by auto
        show ?thesis
        proof (cases "changed (map_of (sr_base E) rel) (bytesToBase64 (lf_hash l))")
          case False
          then have "athen (download E r rel) (record_entry rel r) w = (Inr (), w')" using m ne by (simp add: merge_both_branch)
          then show ?thesis using download_settles assms(2-4,6,10) rel r by blast
        next
          case ch: True
          show ?thesis
          proof (cases "changed (map_of (sr_base E) rel) (re_h r) \<and> lf_mtime l < re_m r")
            case True
            obtain k wk where cp: "keep_conflict_copy E rel l ?w1 = (k, wk)" by fastforce
            have rest: "k = Inr ()" "athen (download E r rel) (record_entry rel r) wk = (Inr (), w')"
              using m ne ch True cp by (cases k; auto simp: merge_both_branch act_simps run_defs)+
            have "inv (sw_store wk)" "sw_relay wk = sw_relay w"
              using conflict_copy_ok [OF cp [unfolded rest(1)] assms(2,4)] conflict_place(1) [OF assms(5)] assms(6) by auto
            then show ?thesis using download_settles [OF rest(2) assms(3,2,4) rel] r assms(10) by simp
          next
            case False
            then have "abind (upload E l) (record_entry rel) w = (Inr (), w') \<or> abind (upload E l) (record_entry rel) ?w1 = (Inr (), w')"
              using m ne ch by (cases "changed (map_of (sr_base E) rel) (re_h r)") (simp_all add: merge_both_branch bump_then not_less)
            then show ?thesis by (rule up)
          qed
        qed
      qed
    next
      case False
      then have m: "merge_local E rel l (map_of (sr_remote E) rel) (map_of (sr_base E) rel) w = (Inr (), w')"
        using assms(1) Some by (auto simp: merge_path_def Let_def split: option.splits)
      have up: "abind (upload E l) (record_entry rel) w = (Inr (), w') \<Longrightarrow> ?thesis"
        using upload_settles [of E l rel w w'] assms(3,9) l by auto
      show ?thesis
      proof (cases "\<exists>r s. map_of (sr_remote E) rel = Some r \<and> map_of (sr_base E) rel = Some s \<and> ls_h s = bytesToBase64 (lf_hash l)")
        case True
        then obtain r s where rs: "map_of (sr_remote E) rel = Some r" "map_of (sr_base E) rel = Some s" "ls_h s = bytesToBase64 (lf_hash l)"
          by blast
        obtain u s1 where rm: "remove_path B (lf_abs l) sync_options (sw_store w) = (u, s1)" by fastforce
        have u: "u = Inr ()" using m rs rm assms(2) by (cases u) (auto simp: merge_local_def act_simps)
        have "fs s1 ?p = None"
          using remove_law [OF assms(6) l(2) rm] u l(3) by (auto simp: update_ok_def remove_tree_def split: option.splits)
        then show ?thesis
          using m rs rm u assms(2,8) \<open>\<not> (\<exists>r. map_of (sr_remote E) rel = Some r \<and> \<not> deleted r)\<close>
          by (auto simp: merge_local_def act_simps run_defs agreed_def update_conv fresh_at_def)
      next
        case False
        then show ?thesis using m by (intro up) (auto simp: merge_local_def split: option.splits if_splits)
      qed
    qed
  qed
qed

lemma sync_path_settles_here:
  assumes "sync_path E rel w = (x, w')" "sync_errors (sw_result w') = sync_errors (sw_result w)"
    and "sr_storage E = B" "sr_client E = R" "path_ok (sr_collection E)" "walked rel"
    and "inv (sw_store w)" "local_ok E (tree_of_run w) rel" "fresh_at E w rel" "crypto_ok (sr_crypto E)"
    and "\<And>r. map_of (sr_remote E) rel = Some r \<Longrightarrow> entry_ok E (blobs (sw_relay w)) r"
  shows "agreed E (tree_of_run w') (sw_next w') (sw_state w') rel"
proof -
  obtain y w1 where m: "merge_path E rel w = (y, w1)" by fastforce
  show ?thesis
  proof (cases y)
    case (Inr u)
    then have "w1 = w'" using m assms(1) by (auto simp: sync_path_def act_simps)
    then show ?thesis using merge_path_settles [of E rel w w'] m Inr assms(3-) by simp
  next
    case (Inl e)
    then have "sync_errors (sw_result w') = sync_errors (sw_result w1) @ [rel @ '': '' @ error_text e]"
      using m assms(1) by (auto simp: sync_path_def act_simps run_defs)
    moreover have "sync_errors (sw_result w1) = sync_errors (sw_result w)"
      using keeps_errors_merge [of E rel] m by (auto simp: keeps_errors_def dest: spec [where x = w])
    ultimately show ?thesis using assms(2) by simp
  qed
qed

lemma sync_again:
  assumes "agreed E (tree_of_run w) nextFiles nextState rel" "local_ok E' (tree_of_run w) rel" "fresh_at E' w rel"
    and "sr_collection E' = sr_collection E" "sr_crypto E' = sr_crypto E"
    and "map_of (sr_remote E') rel = map_of nextFiles rel" "map_of (sr_base E') rel = map_of nextState rel"
  shows "\<exists>w'. sync_path E' rel w = (Inr (), w') \<and> sw_store w' = sw_store w \<and> sw_relay w' = sw_relay w
    \<and> sw_result w' = sw_result w \<and> map_of (sw_state w') rel = map_of nextState rel"
proof (cases "\<exists>e. map_of nextFiles rel = Some e \<and> \<not> deleted e")
  case True
  then obtain e b where e: "map_of nextFiles rel = Some e" "\<not> deleted e" "map_of nextState rel = Some \<lparr>ls_h = re_h e, ls_b = re_b e\<rparr>"
    "tree_of_run w (place (sr_collection E) rel) = Some (FileN b)" "bytesToBase64 (cr_sha256 (sr_crypto E) b) = re_h e"
    using assms(1) by (auto simp: agreed_def)
  then obtain l where l: "map_of (sr_locals E') rel = Some l" "bytesToBase64 (lf_hash l) = re_h e"
    using assms(2,4,5) by (auto simp: local_ok_def split: option.splits)
  have "merge_path E' rel = record_entry rel e"
    using l e assms(6) by (simp add: merge_path_def merge_both_branch)
  then show ?thesis
    using e(3) by (simp add: sync_path_def act_simps run_defs update_conv)
next
  case False
  then have "tree_of_run w (place (sr_collection E) rel) = None" "map_of nextState rel = None"
    using assms(1) by (auto simp: agreed_def split: option.splits if_splits)
  moreover have "map_of (sr_locals E') rel = None"
    using assms(2,4) calculation by (auto simp: local_ok_def split: option.splits)
  moreover have "merge_path E' rel = prune_tombstone E' rel (map_of nextFiles rel)"
    using calculation False assms(6) by (auto simp: merge_path_def Let_def split: option.split)
  ultimately show ?thesis
    using False assms(3,6)
    by (auto simp: sync_path_def prune_tombstone_def act_simps run_defs fresh_at_def split: option.splits)
qed

end

end
