(* ===== verification/Sync_Run.thy ===== *)
theory Sync_Run
  imports Sync_Props
begin

text \<open>
  A whole run of the sync engine: the loop over the paths, the publication of the new manifest, the state
  file, and the properties of the engine on the IndexedDB backend and the HTTP relay.
\<close>

section \<open>Names of conflict copies\<close>

lemma no_dot_digits: "CHR ''.'' \<notin> set (show_nat n)" "CHR ''.'' \<notin> set (pad_start k CHR ''0'' (show_nat n))"
proof -
  show "CHR ''.'' \<notin> set (show_nat n)"
  proof
    assume "CHR ''.'' \<in> set (show_nat n)"
    then obtain d where "d < 10" "CHR ''.'' = digit_char d" using show_base_chars [of 10 "CHR ''.''" n] by auto
    then have "(of_char CHR ''.'' :: nat) = 48 + d" by (simp add: digit_char_def of_char_of)
    then show False by simp
  qed
  then show "CHR ''.'' \<notin> set (pad_start k CHR ''0'' (show_nat n))" by (auto simp: pad_start_def)
qed

lemma iso_prefix_no_dot: "CHR ''.'' \<notin> set (take 19 (toISOString ms))"
proof -
  obtain y m d where c: "civil_from_days (ms div ms_per_day) = (y, m, d)" by (cases "civil_from_days (ms div ms_per_day)") auto
  define date where "date = pad_start 4 CHR ''0'' (show_nat y) @ ''-'' @ pad2 m @ ''-'' @ pad2 d @ ''T''"
  define s where "s = ms div 1000 mod 86400"
  define clock where "clock = pad2 (s div 3600) @ '':'' @ pad2 (s mod 3600 div 60) @ '':'' @ pad2 (s mod 60)"
  have iso: "toISOString ms = (date @ clock) @ CHR ''.'' # pad_start 3 CHR ''0'' (show_nat (ms mod 1000)) @ ''Z''"
    by (simp add: toISOString_def iso_date_def iso_time_def c date_def clock_def s_def Let_def)
  have "length (pad2 n) \<ge> 2" for n by (simp add: pad2_def pad_start_def)
  moreover have "length (pad_start 4 CHR ''0'' (show_nat y)) \<ge> 4" by (simp add: pad_start_def)
  moreover from calculation(1) [of m] calculation(1) [of d] calculation(1) [of "s div 3600"] calculation(1) [of "s mod 3600 div 60"] calculation(1) [of "s mod 60"]
  have "5 * 2 \<le> length (pad2 m) + length (pad2 d) + length (pad2 (s div 3600)) + length (pad2 (s mod 3600 div 60)) + length (pad2 (s mod 60))"
    by linarith
  ultimately have "19 \<le> length (date @ clock)"
    by (simp add: date_def clock_def)
  then have "take 19 (toISOString ms) = take 19 (date @ clock)" by (simp add: iso)
  moreover have "CHR ''.'' \<notin> set (date @ clock)"
    using no_dot_digits by (auto simp: date_def clock_def pad2_def)
  ultimately show ?thesis by (auto dest: in_set_takeD)
qed

lemma note_no_dot: "CHR ''.'' \<notin> set (conflict_note now)"
proof -
  have "take 19 (map f xs) = map f (take 19 xs)" for f :: "char \<Rightarrow> char" and xs by (rule take_map)
  then show ?thesis using iso_prefix_no_dot [of now] by (auto simp: conflict_note_def split: if_splits)
qed

lemma conflict_name_cases:
  obtains (dot) a v where "s = a @ ''.'' @ v" "CHR ''.'' \<notin> set v" "\<And>now. conflict_name s now = a @ conflict_note now @ ''.'' @ v"
  | (plain) "CHR ''.'' \<notin> set s" "\<And>now. conflict_name s now = s @ conflict_note now"
proof (cases "CHR ''.'' \<in> set s")
  case True
  then obtain a v where s: "s = a @ CHR ''.'' # v" "CHR ''.'' \<notin> set v" by (blast dest: split_list_last)
  then have "last_index_of CHR ''.'' s = Some (length a)" using last_index_of_append_sep [of "CHR ''.''" v a] by simp
  then show ?thesis using dot s by (simp add: conflict_name_def)
next
  case False
  then show ?thesis using plain by (simp add: conflict_name_def)
qed

lemma conflict_name_inj:
  assumes "conflict_name s now = conflict_name s' now"
  shows "s = s'"
proof (cases s rule: conflict_name_cases)
  case s: (dot a v)
  show ?thesis
  proof (cases s' rule: conflict_name_cases)
    case s': (dot a' v')
    have eq: "(a @ conflict_note now) @ CHR ''.'' # v = (a' @ conflict_note now) @ CHR ''.'' # v'"
      using assms s(3) s'(3) by simp
    then have "Some (length (a @ conflict_note now)) = Some (length (a' @ conflict_note now))"
      using last_index_of_append_sep [OF s(2)] last_index_of_append_sep [OF s'(2)] by metis
    then show ?thesis using eq s(1) s'(1) by simp
  next
    case plain
    then show ?thesis using assms s(3) note_no_dot [of now] by (metis Un_iff in_set_conv_decomp append_Cons append_Nil set_append)
  qed
next
  case s: plain
  show ?thesis
  proof (cases s' rule: conflict_name_cases)
    case (dot a' v')
    then show ?thesis using assms s note_no_dot [of now] by (metis Un_iff in_set_conv_decomp append_Cons append_Nil set_append)
  next
    case plain
    then show ?thesis using assms s by simp
  qed
qed

lemma place_inj: "walked rel \<Longrightarrow> walked rel' \<Longrightarrow> place c rel = place c rel' \<Longrightarrow> rel = rel'"
  using norm_segs_join by (auto simp: walked_def place_def)

lemma conflict_place_inj:
  assumes "walked rel" "walked rel'" "place c (conflictPath rel now) = place c (conflictPath rel' now)"
  shows "rel = rel'"
proof -
  have segs: "\<exists>ss s. r = join_with ''/'' (ss @ [s]) \<and> norm_segs (conflictPath r now) = ss @ [conflict_name s now]" if r: "walked r" for r
  proof -
    obtain ss s where r: "r = join_with ''/'' (ss @ [s])" "segs_ok (ss @ [s])"
      using r by (metis walked_def append_butlast_last_id)
    then have "segs_ok (ss @ [conflict_name s now])" using conflict_name_ok by simp
    then have "norm_segs (join_with ''/'' (ss @ [conflict_name s now])) = ss @ [conflict_name s now]"
      by (intro norm_segs_join) simp_all
    then show ?thesis using r conflictPath_join [of ss s now] by auto
  qed
  then show ?thesis using assms conflict_name_inj by (auto simp: place_def) (metis append_same_eq butlast_snoc last_snoc)
qed

section \<open>The loop over the paths\<close>

text \<open>The places of a set of paths and of their conflict copies are apart.\<close>

definition apart :: "('s, 'r) sync_run \<Rightarrow> string list \<Rightarrow> bool" where
  "apart E ps \<longleftrightarrow> distinct ps \<and> list_all walked ps
     \<and> (\<forall>x \<in> set ps. \<forall>y \<in> set ps. place (sr_collection E) (conflictPath x (sr_now E)) \<noteq> place (sr_collection E) y)"

definition places :: "('s, 'r) sync_run \<Rightarrow> string list \<Rightarrow> string list set" where
  "places E ps = place (sr_collection E) ` (set ps \<union> (\<lambda>r. conflictPath r (sr_now E)) ` set ps)"

definition preserved :: "('s, 'r) sync_run \<Rightarrow> tree \<Rightarrow> tree \<Rightarrow> string \<Rightarrow> bool" where
  "preserved E t t' rel \<longleftrightarrow>
     (\<forall>b. t (place (sr_collection E) rel) = Some (FileN b)
        \<longrightarrow> t' (place (sr_collection E) rel) = Some (FileN b)
          \<or> t' (place (sr_collection E) (conflictPath rel (sr_now E))) = Some (FileN b))"

definition canonical_ids :: "string list \<Rightarrow> bool" where
  "canonical_ids xs \<longleftrightarrow> (\<forall>x \<in> set xs. \<exists>i. x = bytesToBase64 i \<and> length i = 32)"

context sync_engine
begin

lemma sync_loop_files:
  assumes "afor (sync_path E) ps w = (x, w')" "sr_storage E = B" "path_ok (sr_collection E)" "inv (sw_store w)" "apart E ps"
    and "\<And>rel. rel \<in> set ps \<Longrightarrow> map_of (sr_locals E) rel \<noteq> None \<Longrightarrow> local_ok E (tree_of_run w) rel"
  shows "x = Inr () \<and> inv (sw_store w') \<and> files_kept (places E ps) (tree_of_run w) (tree_of_run w')
    \<and> (\<forall>rel \<in> set ps. unsynced E rel \<longrightarrow> preserved E (tree_of_run w) (tree_of_run w') rel)"
  using assms(1,4,5,6)
proof (induction ps arbitrary: w)
  case Nil
  then show ?case by (simp add: act_simps)
next
  case (Cons r ps)
  let ?pl = "\<lambda>rel. place (sr_collection E) rel" and ?cp = "\<lambda>rel. place (sr_collection E) (conflictPath rel (sr_now E))"
  obtain y w1 where one: "sync_path E r w = (y, w1)" by fastforce
  have walk: "walked r" and ap: "apart E ps" using Cons.prems(3) by (auto simp: apart_def)
  note first = sync_path_files [OF one assms(2,3) walk Cons.prems(2) impI [OF Cons.prems(4) [of r]], simplified]
  have other: "?pl q \<noteq> ?pl r" "?pl q \<noteq> ?cp r" "?cp q \<noteq> ?cp r" "?cp q \<noteq> ?pl r" if "q \<in> set ps" for q
    using that Cons.prems(3) place_inj [of q r] conflict_place_inj [of q r] by (auto simp: apart_def list_all_iff)
  have rr: "?cp r \<noteq> ?pl r" using conflict_place(2) [OF walk] by blast
  have rest: "afor (sync_path E) ps w1 = (x, w')" using Cons.prems(1) one first(1) by (simp add: act_simps)
  have loc: "local_ok E (tree_of_run w1) q" if "q \<in> set ps" "map_of (sr_locals E) q \<noteq> None" for q
    using that Cons.prems(4) [of q] first(3) other [OF that(1)] by (auto simp: local_ok_def files_kept_def split: option.splits)
  note ih = Cons.IH [OF rest first(2) ap loc, simplified]
  have "files_kept (places E (r # ps)) (tree_of_run w) (tree_of_run w')"
    using files_kept_trans [OF first(3), of "places E ps" "tree_of_run w'"] ih by (simp add: places_def insert_commute)
  moreover have "preserved E (tree_of_run w) (tree_of_run w') r" if "unsynced E r"
  proof -
    have "?pl r \<notin> places E ps" "?cp r \<notin> places E ps" using other by (fastforce simp: places_def)+
    then show ?thesis using first(4) [OF that] ih by (auto simp: preserved_def files_kept_def)
  qed
  moreover have "preserved E (tree_of_run w) (tree_of_run w') q" if "unsynced E q" "q \<in> set ps" for q
    using ih that first(3) other [OF that(2)] by (auto simp: preserved_def files_kept_def)
  ultimately show ?case using ih by auto
qed

section \<open>Publication\<close>

lemma drop_stale_keeps:
  assumes "drop_stale R keep stale w = (x, w')" "canonical_ids stale"
  shows "x = Inr () \<and> sw_store w' = sw_store w \<and> same_vars w w'
    \<and> (\<forall>j. bytesToBase64 j \<in> set keep \<longrightarrow> blobs (sw_relay w') j = blobs (sw_relay w) j \<and> live (sw_relay w') j = live (sw_relay w) j)"
  using assms
proof (induction stale arbitrary: w)
  case Nil
  then show ?case by (simp add: drop_stale_def act_simps)
next
  case (Cons s ss)
  have can: "canonical_ids ss" using Cons.prems(2) by (simp add: canonical_ids_def)
  show ?case
  proof (cases "s \<in> set keep")
    case True
    then have "drop_stale R keep ss w = (x, w')" using Cons.prems(1) by (simp add: drop_stale_def act_simps)
    then show ?thesis using Cons.IH can by blast
  next
    case False
    obtain i where i: "s = bytesToBase64 i" "length i = 32" using Cons.prems(2) by (auto simp: canonical_ids_def)
    obtain g r' where rm: "rc_remove R i (sw_relay w) = (g, r')" by fastforce
    have "drop_stale R keep ss (w\<lparr>sw_relay := r'\<rparr>) = (x, w')"
      using Cons.prems(1) False i rm by (cases g) (auto simp: drop_stale_def act_simps try_else_def)
    from Cons.IH [OF this can] show ?thesis
      using delete_law [OF i(2) rm] False i(1) by auto
  qed
qed

text \<open>Publishing: the manifest is replaced, stale blobs go, the state file is written.\<close>

lemma write_manifest_frame:
  assumes "writeManifest R C key i m w = (x, w')" "length i = 32"
  shows "sw_store w' = sw_store w \<and> same_vars w w'
    \<and> (\<forall>j. j \<noteq> i \<longrightarrow> blobs (sw_relay w') j = blobs (sw_relay w) j \<and> live (sw_relay w') j = live (sw_relay w) j)"
proof -
  obtain g r1 where rm: "rc_remove R i (sw_relay w) = (g, r1)" by fastforce
  let ?blob = "map (sw_rand w) [0..<NONCE_LEN] @ cr_seal C key (map (sw_rand w) [0..<NONCE_LEN]) (utf8_encode (stringify (manifest_json m)))"
  obtain p r2 where put: "rc_put R i ?blob SYNC_BLOB_TTL_SECONDS r1 = (p, r2)" by fastforce
  have f: "\<forall>j. j \<noteq> i \<longrightarrow> blobs r1 j = blobs (sw_relay w) j \<and> live r1 j = live (sw_relay w) j"
    "\<forall>j. j \<noteq> i \<longrightarrow> blobs r2 j = blobs r1 j \<and> live r2 j = live r1 j"
    using delete_law [OF assms(2) rm] put_law [OF assms(2) put] by blast+
  have "sw_store w' = sw_store w \<and> same_vars w w' \<and> (sw_relay w' = r1 \<or> sw_relay w' = r2)"
    using assms(1) rm put by (cases g; cases p) (auto simp: writeManifest_def act_simps)
  then show ?thesis using f by auto
qed

lemma publish_keeps:
  assumes "publish E mId w = (x, w')" "sr_client E = R" "sr_storage E = B" "length mId = 32" "canonical_ids (stale_ids E)"
    and "e \<in> snd ` set (sw_next w)" "re_b e = bytesToBase64 j" "j \<noteq> mId"
  shows "blobs (sw_relay w') j = blobs (sw_relay w) j \<and> live (sw_relay w') j = live (sw_relay w) j"
proof -
  let ?m = "\<lparr>mf_updated = sr_now E, mf_files = sw_next w\<rparr>"
  let ?keep = "map (\<lambda>x. re_b (snd x)) (sw_next w)"
  obtain g w1 where wm: "writeManifest R (sr_crypto E) (sr_encKey E) mId ?m w = (g, w1)" by fastforce
  note f1 = write_manifest_frame [OF wm assms(4)]
  obtain d w2 where ds: "drop_stale R ?keep (stale_ids E) w1 = (d, w2)" by fastforce
  note f2 = drop_stale_keeps [OF ds assms(5)]
  have j: "bytesToBase64 j \<in> set ?keep" using assms(6,7) by force
  have "sw_relay w' = sw_relay w1 \<or> sw_relay w' = sw_relay w2"
    using assms(1,2) wm ds by (cases g; cases d) (auto simp: publish_def act_simps)
  then show ?thesis using f1 f2 j assms(8) by auto
qed

end

section \<open>The state file\<close>

lemma keyed_map: "(\<And>e. f (g e) = Some e) \<Longrightarrow> keyed f (map (\<lambda>(k, e). (k, g e)) xs) = Some xs"
  by (induction xs) (auto simp: keyed_def)

lemma state_of_json: "state_of (state_json s) = Some s"
  by (simp add: state_of_def state_json_def  keyed_map base_of_def)

lemma manifest_of_json: "manifest_of (manifest_json m) = Some m"
proof -
  have "entry_of (entry_json e) = Some e" for e
    by (cases "re_d e") (auto simp: entry_of_def entry_json_def )
  then show ?thesis by (simp add: manifest_of_def manifest_json_def  keyed_map)
qed

section \<open>The engine on the IndexedDB backend and the HTTP relay\<close>

interpretation idb_http: sync_engine idb_backend idb_fs idb_inv
  "relay_of (server_env cfg (baseUrl c) sign) c" "server_blobs (publicKey c)" "server_live (publicKey c)"
  for cfg c sign
  by (intro sync_engine.intro idb.storage_backend_axioms http_relay.blob_relay_axioms)

definition engine_run :: "server_cfg \<Rightarrow> relay_client \<Rightarrow> (bytes \<Rightarrow> bytes \<Rightarrow> bytes) \<Rightarrow> (idb, relay_server) sync_run \<Rightarrow> bool" where
  "engine_run cfg c sign E \<longleftrightarrow> sr_storage E = idb_backend \<and> path_ok (sr_collection E)
     \<and> sr_client E = relay_of (server_env cfg (baseUrl c) sign) c \<and> crypto_ok (sr_crypto E)"

definition walk_ok :: "(idb, relay_server) sync_run \<Rightarrow> (idb, relay_server) sync_world \<Rightarrow> bool" where
  "walk_ok E w \<longleftrightarrow> idb_inv (sw_store w) \<and> list_all walked (sync_paths E)
     \<and> (\<forall>rel \<in> set (sync_paths E). local_ok E (idb_fs (sw_store w)) rel)"



text \<open>
  (C26) Sync is idempotent: after a path is in agreement, a run that starts from the new manifest, the new
  state and the same tree leaves the storage, the relay, the counters and the state of the path as they are.
\<close>

theorem sync_path_idempotent:
  fixes E E' :: "(idb, relay_server) sync_run" and w :: "(idb, relay_server) sync_world"
  assumes "agreed E (idb_fs (sw_store w)) nextFiles nextState rel" and "local_ok E' (idb_fs (sw_store w)) rel"
    and "fresh_at E' w rel" and "sr_collection E' = sr_collection E" and "sr_crypto E' = sr_crypto E"
    and "map_of (sr_remote E') rel = map_of nextFiles rel" and "map_of (sr_base E') rel = map_of nextState rel"
  shows "\<exists>w'. sync_path E' rel w = (Inr (), w') \<and> sw_store w' = sw_store w \<and> sw_relay w' = sw_relay w
    \<and> sw_result w' = sw_result w \<and> map_of (sw_state w') rel = map_of nextState rel"
  by (rule idb_http.sync_again [OF assms])

text \<open>
  (C4) Publishing never deletes a file blob that the new manifest refers to, whichever of its requests fail
  and also when an old entry or the old state refers to the same blob.
\<close>

theorem publish_keeps_live_blobs:
  assumes "engine_run cfg c sign E" and "length mId = 32" and "canonical_ids (stale_ids E)"
    and "publish E mId w = (x, w')" and "e \<in> snd ` set (sw_next w)" and "re_b e = bytesToBase64 j" and "j \<noteq> mId"
  shows "server_blobs (publicKey c) (sw_relay w') j = server_blobs (publicKey c) (sw_relay w) j
    \<and> server_live (publicKey c) (sw_relay w') j = server_live (publicKey c) (sw_relay w) j"
  using idb_http.publish_keeps [OF assms(4), of cfg c sign e j] assms by (simp add: engine_run_def)

definition outcome_told :: "('s, 'r) sync_world \<Rightarrow> bool" where
  "outcome_told w \<longleftrightarrow> sw_lastOk w = (sync_errors (sw_result w) = [])
     \<and> sw_status w = (if sync_errors (sw_result w) = [] then Idle else Failed)"

lemma act_ends:
  "abind m k w = (Inr x, w') \<Longrightarrow> \<exists>y v. k y v = (Inr x, w')"
  "athen n j w = (Inr x, w') \<Longrightarrow> \<exists>v. j v = (Inr x, w')"
  by (auto simp: act_simps split: sum.splits prod.splits)

lemma sync_body_reports:
  assumes "sync_body H k w = (Inr u, w')"
  shows "outcome_told w'"
proof -
  obtain E mId v where "athen (afor (sync_path E) (sync_paths E)) (athen (publish E mId) (report (sr_now E))) v = (Inr u, w')"
    using act_ends(1) [OF assms [unfolded sync_body_def]] by (auto split: prod.splits)
  then obtain v2 where "report (sr_now E) v2 = (Inr u, w')" using act_ends(2) by metis
  then show ?thesis by (auto simp: report_def act_simps outcome_told_def Let_def)
qed

lemma sync_now_ends:
  assumes "syncNow H w = (res, w')"
  shows "if hk_collection H = None \<or> hk_collection H = Some '''' \<or> sw_syncing w then res = Inr None \<and> w' = w
    else \<exists>r. res = Inr (Some r) \<and> \<not> sw_syncing w' \<and> sw_lastOk w' = (sync_errors r = [])
      \<and> sw_status w' = (if sync_errors r = [] then Idle else Failed)"
proof (cases "hk_collection H = None \<or> hk_collection H = Some '''' \<or> sw_syncing w")
  case True
  then show ?thesis using assms by (auto simp: syncNow_def split: option.splits if_splits)
next
  case False
  then obtain k where k: "hk_collection H = Some k" "k \<noteq> ''''" by auto
  let ?w = "w\<lparr>sw_syncing := True, sw_status := Syncing, sw_lastError := '''', sw_result := no_result\<rparr>"
  obtain y w1 where run: "acatch (sync_body H k) sync_failed ?w = (y, w1)" by fastforce
  have "outcome_told w1 \<and> (\<exists>u. y = Inr u)"
  proof (cases "sync_body H k ?w")
    case (Pair z w2)
    show ?thesis
    proof (cases z)
      case (Inl e)
      then show ?thesis using run Pair by (auto simp: act_simps sync_failed_def run_defs outcome_told_def)
    next
      case (Inr u)
      then show ?thesis using run Pair sync_body_reports [of H k ?w u w2] by (simp add: act_simps)
    qed
  qed
  then obtain u where u: "outcome_told w1" "y = Inr u" by blast
  have "res = Inr (Some (sw_result w1)) \<and> w' = w1\<lparr>sw_syncing := False\<rparr>"
    using assms False k run u(2) unfolding syncNow_def abind_apply by simp
  then show ?thesis using u(1) False by (simp add: outcome_told_def)
qed

text \<open>
  (C29) A sync always ends: while one is running, and without a collection, nothing happens; otherwise it
  returns its result with the lock released, and the status, the last error and \<open>lastOk\<close> say whether the
  result has errors, also when the identity, the relay or the storage threw.
\<close>

theorem sync_now_outcome:
  "case syncNow H w of (res, w') \<Rightarrow>
     if hk_collection H = None \<or> hk_collection H = Some '''' \<or> sw_syncing w then res = Inr None \<and> w' = w
     else \<exists>r. res = Inr (Some r) \<and> \<not> sw_syncing w' \<and> sw_lastOk w' = (sync_errors r = [])
       \<and> sw_status w' = (if sync_errors r = [] then Idle else Failed)"
  by (cases "syncNow H w") (simp only: prod.case, rule sync_now_ends)

section \<open>Two devices\<close>

lemma upload_accepted:
  assumes "sr_client E = relay_of (server_env cfg (baseUrl c) sign) c" "crypto_ok (sr_crypto E)"
    and "length (publicKey c) = 32" "cf_allow cfg (publicKey c)"
    and "\<And>m. length (sign m (secretKey c)) = 64 \<and> cf_verify cfg (publicKey c) m (sign m (secretKey c))"
    and "\<And>n. NONCE_LEN + length (cr_seal (sr_crypto E) (sr_encKey E) n (lf_data l)) \<le> cf_maxBlob cfg"
    and "sv_faults (sw_relay w) 0 = Answered" "0 < cf_minTTL cfg" "0 < cf_maxTTL cfg"
  defines "i \<equiv> fileBlobId (sr_crypto E) (sr_key E) (lf_rel l) (lf_hash l)"
  assumes "sv_blobs (sw_relay w) (publicKey c, i) = None"
  shows "\<exists>w' blob t. upload E l w = (Inr \<lparr>re_h = bytesToBase64 (lf_hash l), re_m = (if lf_mtime l \<noteq> 0 then lf_mtime l else sr_now E),
      re_s = lf_size l, re_b = bytesToBase64 i, re_d = None\<rparr>, w')
    \<and> sv_blobs (sw_relay w') (publicKey c, i) = Some (blob, t) \<and> sv_now (sw_relay w') < t
    \<and> decrypt (sr_crypto E) (sr_encKey E) blob = Inr (lf_data l)
    \<and> sv_faults (sw_relay w') = (\<lambda>n. sv_faults (sw_relay w) (Suc n)) \<and> sw_next w' = sw_next w \<and> sw_state w' = sw_state w
    \<and> sw_result w' = (sw_result w)\<lparr>uploaded := uploaded (sw_result w) + 1\<rparr>"
proof -
  let ?nonce = "map (sw_rand w) [0..<NONCE_LEN]"
  let ?blob = "?nonce @ cr_seal (sr_crypto E) (sr_encKey E) ?nonce (lf_data l)"
  have i: "length i = 32" using assms(2) by (simp add: fileBlobId_def crypto_ok_def i_def)
  have dec: "decrypt (sr_crypto E) (sr_encKey E) ?blob = Inr (lf_data l)"
    using assms(2) by (intro decrypt_sealed) simp_all
  have "?blob \<noteq> []" "length ?blob \<le> cf_maxBlob cfg" using assms(6) [of ?nonce] by (simp_all add: NONCE_LEN_def)
  note put = put_accepted [of c cfg sign i ?blob "sw_relay w" SYNC_BLOB_TTL_SECONDS, OF assms(3-5) i this assms(7,11)]
  show ?thesis
    using put dec assms(1,8,9)
    by (simp add: upload_def act_simps run_defs relay_of_def Let_def flip: i_def)
qed

lemma download_accepted:
  assumes "sr_client E = relay_of (server_env cfg (baseUrl c) sign) c" "sr_storage E = idb_backend"
    and "length (publicKey c) = 32" "cf_allow cfg (publicKey c)"
    and "\<And>m. length (sign m (secretKey c)) = 64 \<and> cf_verify cfg (publicKey c) m (sign m (secretKey c))"
    and "sv_faults (sw_relay w) 0 = Answered" "re_b r = bytesToBase64 i" "length i = 32"
    and "sv_blobs (sw_relay w) (publicKey c, i) = Some (blob, t)" "sv_now (sw_relay w) < t"
    and "decrypt (sr_crypto E) (sr_encKey E) blob = Inr plain"
    and "path_ok (sr_collection E)" "rel_ok rel" "idb_inv (sw_store w)"
    and "mkdir_error True (idb_fs (sw_store w)) (butlast (place (sr_collection E) rel)) = None"
    and "idb_fs (sw_store w) (place (sr_collection E) rel) = None"
  shows "\<exists>w'. download E r rel w = (Inr (), w') \<and> idb_fs (sw_store w') (place (sr_collection E) rel) = Some (FileN plain)
    \<and> sw_next w' = sw_next w \<and> sw_state w' = sw_state w
    \<and> sw_result w' = (sw_result w)\<lparr>downloaded := downloaded (sw_result w) + 1\<rparr>"
proof -
  let ?p = "place (sr_collection E) rel"
  note p = join_place [OF assms(12,13)]
  note get = get_accepted [of c cfg sign i "sw_relay w" blob t, OF assms(3-5,8,6,9,10)]
  have b: "path_ok (render (butlast ?p))" "norm_segs (render (butlast ?p)) = butlast ?p"
    "path_ok (render ?p)" "norm_segs (render ?p) = ?p" using p(2) by simp_all
  have m0: "mkdir_error (is_recursive (sync_options\<lparr>opt_recursive := Some True\<rparr>)) (idb_fs (sw_store w)) (norm_segs (render (butlast ?p))) = None"
    using assms(15) b(2) by (simp add: is_recursive_def)
  obtain s1 where mk: "mkdir idb_backend (render (butlast ?p)) (sync_options\<lparr>opt_recursive := Some True\<rparr>) (sw_store w) = (Inr (), s1)"
    "idb_inv s1" "idb_fs s1 = mkdirs (butlast ?p) (idb_fs (sw_store w))"
    using idb.mkdir_ok [OF assms(14) b(1) m0] b(2) by metis
  have np: "\<not> prefix ?p (butlast ?p)"
    using p(3) by (metis append_butlast_last_id length_append_singleton not_less_eq_eq order_refl prefix_length_le)
  have w0: "write_error (idb_fs s1) (norm_segs (render ?p)) = None"
    using np assms(16) by (simp add: mk(3) b(4) write_error_def mkdirs_def)
  obtain s2 where wr: "writeFile idb_backend (render ?p) plain sync_options s1 = (Inr (), s2)" "idb_fs s2 = (idb_fs s1)(?p \<mapsto> FileN plain)"
    using idb.write_file_ok [OF mk(2) b(3) _ w0] p(3) b(4) by metis
  show ?thesis
    using assms(1,2,7,11) get mk(1) wr p(1,2) by (simp add: download_def act_simps run_defs relay_of_def parentPath_render)
qed

text \<open>
  (C3) A file made on one device arrives on the other. With an honest relay, the first device uploads a file
  that the manifest does not know; the second, with the same keys, that sees the entry the first one
  recorded and has nothing at the path, ends with the same bytes there, both without an error.
\<close>

theorem sync_two_devices:
  assumes "engine_run cfg c sign A" and "engine_run cfg c sign B" and "sr_crypto B = sr_crypto A" and "sr_encKey B = sr_encKey A"
    and "length (publicKey c) = 32" and "cf_allow cfg (publicKey c)" and "0 < cf_minTTL cfg" and "0 < cf_maxTTL cfg"
    and "\<And>m. length (sign m (secretKey c)) = 64 \<and> cf_verify cfg (publicKey c) m (sign m (secretKey c))"
    and "\<And>n. NONCE_LEN + length (cr_seal (sr_crypto A) (sr_encKey A) n (lf_data l)) \<le> cf_maxBlob cfg"
    and "\<And>n. sv_faults (sw_relay a) n = Answered"
    and "sv_blobs (sw_relay a) (publicKey c, fileBlobId (sr_crypto A) (sr_key A) (lf_rel l) (lf_hash l)) = None"
    and "map_of (sr_locals A) rel = Some l" and "map_of (sr_remote A) rel = None"
    and "sync_path A rel a = (x, a')" and "sw_relay b = sw_relay a'"
    and "map_of (sr_remote B) rel = map_of (sw_next a') rel" and "map_of (sr_locals B) rel = None" and "map_of (sr_base B) rel = None"
    and "walked rel" and "idb_inv (sw_store b)" and "idb_fs (sw_store b) (place (sr_collection B) rel) = None"
    and "mkdir_error True (idb_fs (sw_store b)) (butlast (place (sr_collection B) rel)) = None"
    and "sync_path B rel b = (y, b')"
  shows "sync_errors (sw_result a') = sync_errors (sw_result a) \<and> sync_errors (sw_result b') = sync_errors (sw_result b)
    \<and> idb_fs (sw_store b') (place (sr_collection B) rel) = Some (FileN (lf_data l))
    \<and> map_of (sw_state b') rel = map_of (sw_state a') rel"
proof -
  let ?i = "fileBlobId (sr_crypto A) (sr_key A) (lf_rel l) (lf_hash l)"
  let ?e = "\<lparr>re_h = bytesToBase64 (lf_hash l), re_m = (if lf_mtime l \<noteq> 0 then lf_mtime l else sr_now A),
      re_s = lf_size l, re_b = bytesToBase64 ?i, re_d = None\<rparr>"
  have A: "sr_client A = relay_of (server_env cfg (baseUrl c) sign) c" "crypto_ok (sr_crypto A)"
    and B: "sr_client B = relay_of (server_env cfg (baseUrl c) sign) c" "sr_storage B = idb_backend" "path_ok (sr_collection B)"
    using assms(1,2) by (simp_all add: engine_run_def)
  have i: "length ?i = 32" using A(2) by (simp add: fileBlobId_def crypto_ok_def)
  obtain w blob t where up: "upload A l a = (Inr ?e, w)" "sv_blobs (sw_relay w) (publicKey c, ?i) = Some (blob, t)"
    "sv_now (sw_relay w) < t" "decrypt (sr_crypto A) (sr_encKey A) blob = Inr (lf_data l)"
    "sv_faults (sw_relay w) = (\<lambda>n. sv_faults (sw_relay a) (Suc n))"
    "sw_result w = (sw_result a)\<lparr>uploaded := uploaded (sw_result a) + 1\<rparr>"
    using upload_accepted [OF A assms(5,6,9,10,11,7,8,12)] by blast
  have a': "a' = snd (record_entry rel ?e w)" "sync_errors (sw_result a') = sync_errors (sw_result a)"
    using assms(13-15) up(1,6) by (auto simp: sync_path_def merge_path_def merge_local_def act_simps run_defs)
  have rb: "sw_relay b = sw_relay w" "map_of (sr_remote B) rel = Some ?e" "map_of (sw_state a') rel = Some \<lparr>ls_h = re_h ?e, ls_b = re_b ?e\<rparr>"
    using a'(1) assms(16,17) by (simp_all add: act_simps run_defs update_conv)
  have "sv_faults (sw_relay b) 0 = Answered" using rb(1) up(5) assms(11) by simp
  from download_accepted [OF B(1,2) assms(5,6,9) this, of ?e ?i blob t "lf_data l" rel] obtain w2 where
    dn: "download B ?e rel b = (Inr (), w2)" "idb_fs (sw_store w2) (place (sr_collection B) rel) = Some (FileN (lf_data l))"
    "sync_errors (sw_result w2) = sync_errors (sw_result b)"
    using i up(2-4) rb(1) assms(3,4,21-23) B(3) walked_rel_ok [OF assms(20)] by auto
  have "merge_path B rel = athen (download B ?e rel) (record_entry rel ?e)"
    using rb(2) assms(18,19) by (simp add: merge_path_def merge_remote_def deleted_def)
  then have "b' = snd (record_entry rel ?e w2)"
    using assms(24) dn(1) by (auto simp: sync_path_def act_simps run_defs)
  then show ?thesis using dn(2,3) a'(2) rb(3) by (simp add: act_simps run_defs update_conv)
qed

section \<open>Conflicts\<close>

lemma sync_path_no_error:
  assumes "sync_path E rel w = (x, w')" "sync_errors (sw_result w') = sync_errors (sw_result w)"
  shows "merge_path E rel w = (Inr (), w')"
proof -
  obtain y w1 where m: "merge_path E rel w = (y, w1)" by fastforce
  then have "sync_errors (sw_result w1) = sync_errors (sw_result w)"
    using keeps_errors_merge [of E rel] by (auto simp: keeps_errors_def dest: spec [where x = w])
  then show ?thesis using m assms by (cases y) (auto simp: sync_path_def act_simps run_defs)
qed

lemma record_entry_apply:
  "record_entry rel e w = (Inr (), w\<lparr>sw_next := AList.update rel e (sw_next w),
     sw_state := AList.update rel \<lparr>ls_h = re_h e, ls_b = re_b e\<rparr> (sw_state w)\<rparr>)"
  by (simp add: act_simps run_defs)

text \<open>
  (C28) A conflict, a file changed on both sides since the last sync: it is counted, and where the remote
  entry is newer the remote version takes the path and the local one its conflict path; otherwise the local
  version is uploaded and takes over the manifest, and no copy of the remote version is made.
\<close>

theorem sync_conflict:
  assumes "engine_run cfg c sign E" and "walked rel" and "idb_inv (sw_store w)"
    and "map_of (sr_locals E) rel = Some l" and "map_of (sr_remote E) rel = Some r" and "\<not> deleted r"
    and "bytesToBase64 (lf_hash l) \<noteq> re_h r" and "changed (map_of (sr_base E) rel) (bytesToBase64 (lf_hash l))"
    and "changed (map_of (sr_base E) rel) (re_h r)" and "re_b r = bytesToBase64 i" and "length i = 32"
    and "sync_path E rel w = (x, w')" and "sync_errors (sw_result w') = sync_errors (sw_result w)"
  shows "conflicts (sw_result w') = conflicts (sw_result w) + 1
    \<and> (if lf_mtime l < re_m r then map_of (sw_next w') rel = Some r
         \<and> idb_fs (sw_store w') (place (sr_collection E) (conflictPath rel (sr_now E))) = Some (FileN (lf_data l))
         \<and> (\<exists>blob plain. server_blobs (publicKey c) (sw_relay w) i = Some blob
              \<and> decrypt (sr_crypto E) (sr_encKey E) blob = Inr plain
              \<and> idb_fs (sw_store w') (place (sr_collection E) rel) = Some (FileN plain))
       else sw_store w' = sw_store w \<and> map_option re_h (map_of (sw_next w') rel) = Some (bytesToBase64 (lf_hash l)))"
proof -
  let ?w1 = "w\<lparr>sw_result := (sw_result w)\<lparr>conflicts := conflicts (sw_result w) + 1\<rparr>\<rparr>"
  have E: "sr_storage E = idb_backend" "path_ok (sr_collection E)" "sr_client E = relay_of (server_env cfg (baseUrl c) sign) c"
    "crypto_ok (sr_crypto E)" using assms(1) by (simp_all add: engine_run_def)
  have m: "merge_both E rel l r (map_of (sr_base E) rel) w = (Inr (), w')"
    using sync_path_no_error [OF assms(12,13)] assms(4-6) by (simp add: merge_path_def)
  show ?thesis
  proof (cases "lf_mtime l < re_m r")
    case True
    have m1: "athen (keep_conflict_copy E rel l) (athen (download E r rel) (record_entry rel r)) ?w1 = (Inr (), w')"
      using m merge_both_branch(5) [OF assms(7-9) True, of E rel] by (simp add: bump_then)
    obtain k wk where cp: "keep_conflict_copy E rel l ?w1 = (k, wk)" by fastforce
    have k: "k = Inr ()" using m1 cp by (cases k) (auto simp: athen_apply)
    obtain d wd where dn: "download E r rel wk = (d, wd)" by fastforce
    have d: "d = Inr ()" using m1 cp k dn by (cases d) (auto simp: athen_apply)
    have w': "w' = snd (record_entry rel r wd)" using m1 cp k dn d by (simp add: athen_apply record_entry_apply)
    have inv1: "idb_inv (sw_store ?w1)" using assms(3) by simp
    note c1 = idb_http.conflict_copy_ok [OF cp [unfolded k] E(1,2) conflict_place(1) [OF assms(2)] inv1]
    obtain blob plain where pl: "server_blobs (publicKey c) (sw_relay wk) i = Some blob" "decrypt (sr_crypto E) (sr_encKey E) blob = Inr plain"
      "idb_fs (sw_store wd) = (mkdirs (butlast (place (sr_collection E) rel)) (idb_fs (sw_store wk)))(place (sr_collection E) rel \<mapsto> FileN plain)"
      "sw_result wd = (sw_result wk)\<lparr>downloaded := downloaded (sw_result wk) + 1\<rparr>"
      using idb_http.download_ok [OF dn [unfolded d] E(3,1,2) walked_rel_ok [OF assms(2)] _ assms(10,11)] c1 by metis
    have "\<not> prefix (place (sr_collection E) (conflictPath rel (sr_now E))) (butlast (place (sr_collection E) rel))"
      using conflict_place(1) [OF assms(2), of "sr_now E"] conflict_place(3) [OF assms(2), of "sr_collection E" "sr_now E"]
        join_place(3) [OF E(2), of "conflictPath rel (sr_now E)"]
      by (metis append_butlast_last_id length_append_singleton not_less_eq_eq order_refl prefix_length_le)
    then show ?thesis
      using True w' pl c1 conflict_place(2) [OF assms(2)]
      by (simp add: act_simps run_defs update_conv mkdirs_def)
  next
    case False
    then have m1: "abind (upload E l) (record_entry rel) ?w1 = (Inr (), w')"
      using m merge_both_branch(4) [OF assms(7-9), of E rel] by (simp add: bump_then not_less)
    obtain u wu where up: "upload E l ?w1 = (u, wu)" by fastforce
    obtain e where u: "u = Inr e" using m1 up by (cases u) (auto simp: abind_apply)
    note ok = idb_http.upload_ok [OF up [unfolded u] E(3,4)]
    have "w' = snd (record_entry rel e wu)" using m1 up u by (simp add: abind_apply record_entry_apply)
    then show ?thesis using False ok by (simp add: record_entry_apply update_conv)
  qed
qed

section \<open>Concrete runs\<close>

definition demo_crypto :: crypto where
  "demo_crypto = \<lparr>cr_sha256 = \<lambda>x. take 32 (x @ replicate 32 0), cr_seal = \<lambda>_ _ p. p, cr_open = \<lambda>_ _ b. Some b,
     cr_hkdf = \<lambda>s _. s\<rparr>"

lemma demo_crypto_ok: "crypto_ok demo_crypto"
  by (auto simp: crypto_ok_def demo_crypto_def min_def)

definition demo_local :: local_file where
  "demo_local = \<lparr>lf_rel = ''a'', lf_abs = ''/a'', lf_data = [7], lf_hash = cr_sha256 demo_crypto [7], lf_size = 1, lf_mtime = 5\<rparr>"

definition demo_entry :: remote_entry where
  "demo_entry = \<lparr>re_h = bytesToBase64 (cr_sha256 demo_crypto [7]), re_m = 5, re_s = 1, re_b = bytesToBase64 (replicate 32 1), re_d = None\<rparr>"

definition demo_run :: "(string \<times> remote_entry) list \<Rightarrow> (string \<times> base_entry) list \<Rightarrow> (string \<times> local_file) list \<Rightarrow> (idb, relay_server) sync_run" where
  "demo_run remote base locals = \<lparr>sr_storage = idb_backend, sr_client = relay_of (server_env demo_cfg ''h'' demo_sign) demo_client,
     sr_crypto = demo_crypto, sr_collection = ''/'', sr_key = ''k'', sr_encKey = [], sr_now = 9, sr_remote = remote,
     sr_base = base, sr_locals = locals\<rparr>"

definition demo_world :: "idb \<Rightarrow> relay_server \<Rightarrow> (string \<times> remote_entry) list \<Rightarrow> (idb, relay_server) sync_world" where
  "demo_world s r nextFiles = \<lparr>sw_store = s, sw_relay = r, sw_rand = \<lambda>_. 0, sw_clock = \<lambda>n. n, sw_result = no_result,
     sw_next = nextFiles, sw_state = [], sw_syncing = False, sw_status = Idle, sw_lastSyncAt = None, sw_lastOk = True,
     sw_lastError = '''', sw_stats = None, sw_toasts = [], sw_relayInfo = None, sw_autoTimer = None, sw_bootTimer = None\<rparr>"

definition demo_store :: idb where
  "demo_store = snd (idb_writeFile ''/a'' [7] no_options (empty_idb (\<lambda>n. n)))"

lemma demo_run_parts [simp]:
  "sr_storage (demo_run r b l) = idb_backend" "sr_client (demo_run r b l) = relay_of (server_env demo_cfg ''h'' demo_sign) demo_client"
  "sr_crypto (demo_run r b l) = demo_crypto" "sr_collection (demo_run r b l) = ''/''" "sr_now (demo_run r b l) = 9"
  "sr_remote (demo_run r b l) = r" "sr_base (demo_run r b l) = b" "sr_locals (demo_run r b l) = l" "sr_encKey (demo_run r b l) = []"
  by (simp_all add: demo_run_def)

lemma demo_world_parts [simp]:
  "sw_store (demo_world s r n) = s" "sw_relay (demo_world s r n) = r" "sw_next (demo_world s r n) = n"
  "sw_state (demo_world s r n) = []" "sw_result (demo_world s r n) = no_result"
  by (simp_all add: demo_world_def)

lemma sync_demo_paths: "path_ok ''/''" "norm_segs ''/'' = []" "path_ok ''/a''" "norm_segs ''/a'' = [''a'']" "walked ''a''" "place ''/'' ''a'' = [''a'']"
proof -
  show "walked ''a''" unfolding walked_def by (rule exI [of _ "[''a'']"]) (simp add: segs_ok_def seg_ok_def)
qed (simp_all add: path_ok_def norm_segs_def split_on.simps place_def)

lemma demo_store_holds: "idb_inv demo_store" "idb_fs demo_store [''a''] = Some (FileN [7])"
proof -
  have "write_error (idb_fs (empty_idb (\<lambda>n. n))) (norm_segs ''/a'') = None"
    by (simp add: write_error_def sync_demo_paths empty_tree_def)
  then obtain s where "writeFile idb_backend ''/a'' [7] no_options (empty_idb (\<lambda>n. n)) = (Inr (), s)" "idb_inv s"
    "idb_fs s = (idb_fs (empty_idb (\<lambda>n. n)))(norm_segs ''/a'' \<mapsto> FileN [7])"
    using idb.write_file_ok [of "empty_idb (\<lambda>n. n)" "''/a''"] sync_demo_paths by (metis empty_idb_inv(1) list.distinct(1))
  then show "idb_inv demo_store" "idb_fs demo_store [''a''] = Some (FileN [7])"
    by (simp_all add: demo_store_def idb_backend_def sync_demo_paths)
qed

lemma demo_engine: "engine_run demo_cfg demo_client demo_sign (demo_run remote base locals)"
  by (simp add: engine_run_def demo_crypto_ok sync_demo_paths) (simp add: demo_client_def)

lemma demo_local_ok: "local_ok (demo_run remote base [(''a'', demo_local)]) (idb_fs demo_store) ''a''"
  by (simp add: local_ok_def demo_local_def sync_demo_paths demo_store_holds)

lemma demo_afor: "sync_paths (demo_run [] [] [(''a'', demo_local)]) = [''a'']"
  by (simp add: sync_paths_def js_set_def)



lemma sync_path_idempotent_witness:
  "\<exists>w'. sync_path (demo_run [(''a'', demo_entry)] [(''a'', \<lparr>ls_h = re_h demo_entry, ls_b = re_b demo_entry\<rparr>)] [(''a'', demo_local)]) ''a''
       (demo_world demo_store demo_server [(''a'', demo_entry)]) = (Inr (), w') \<and> sw_store w' = demo_store \<and> sw_relay w' = demo_server"
proof -
  let ?s = "[(''a'', \<lparr>ls_h = re_h demo_entry, ls_b = re_b demo_entry\<rparr>)]"
  let ?E = "demo_run [(''a'', demo_entry)] ?s [(''a'', demo_local)]" and ?w = "demo_world demo_store demo_server [(''a'', demo_entry)]"
  have "agreed ?E (idb_fs (sw_store ?w)) [(''a'', demo_entry)] ?s ''a''"
    by (simp add: agreed_def demo_entry_def deleted_def sync_demo_paths demo_store_holds)
  moreover have "local_ok ?E (idb_fs (sw_store ?w)) ''a''" using demo_local_ok by simp
  ultimately show ?thesis
    using sync_path_idempotent [of ?E ?w "[(''a'', demo_entry)]" ?s "''a''" ?E]
    by (auto simp: fresh_at_def)
qed

lemma publish_keeps_live_blobs_witness:
  "\<exists>x w'. publish (demo_run [(''a'', demo_entry)] [] []) (replicate 32 2)
       (demo_world demo_store (demo_server\<lparr>sv_blobs := [(replicate 32 9, replicate 32 1) \<mapsto> ([7], 50)]\<rparr>) [(''a'', demo_entry)]) = (x, w')
     \<and> server_blobs (replicate 32 9) (sw_relay w') (replicate 32 1) = Some [7]"
proof -
  let ?E = "demo_run [(''a'', demo_entry)] [] []"
  let ?w = "demo_world demo_store (demo_server\<lparr>sv_blobs := [(replicate 32 9, replicate 32 1) \<mapsto> ([7], 50)]\<rparr>) [(''a'', demo_entry)]"
  obtain x w' where run: "publish ?E (replicate 32 2) ?w = (x, w')" by fastforce
  have "canonical_ids (stale_ids ?E)"
    unfolding canonical_ids_def
    by (intro ballI exI [of _ "replicate 32 1"]) (simp add: stale_ids_def js_set_def demo_entry_def)
  from publish_keeps_live_blobs [OF demo_engine _ this run, of demo_entry "replicate 32 1"] run show ?thesis
    by (simp add: demo_entry_def demo_client_def server_blobs_def)
qed

lemma demo_upload:
  assumes "sr_client E = relay_of (server_env demo_cfg ''h'' demo_sign) demo_client" "sr_crypto E = demo_crypto"
    and "sw_relay w = demo_server"
  shows "\<exists>w'. upload E demo_local w = (Inr \<lparr>re_h = re_h demo_entry, re_m = 5, re_s = 1,
      re_b = bytesToBase64 (fileBlobId demo_crypto (sr_key E) ''a'' (cr_sha256 demo_crypto [7])), re_d = None\<rparr>, w')
    \<and> sw_result w' = (sw_result w)\<lparr>uploaded := uploaded (sw_result w) + 1\<rparr>"
proof -
  have "\<And>n. NONCE_LEN + length (cr_seal (sr_crypto E) (sr_encKey E) n (lf_data demo_local)) \<le> cf_maxBlob demo_cfg"
    by (simp add: assms(2) demo_crypto_def demo_local_def demo_cfg_def NONCE_LEN_def)
  from upload_accepted [of E demo_cfg demo_client demo_sign demo_local w, OF _ _ _ _ _ this] show ?thesis
    using assms demo_crypto_ok
    by (simp add: demo_cfg_def demo_client_def demo_sign_def demo_server_def demo_local_def demo_entry_def) blast
qed

lemma sync_two_devices_witness:
  "\<exists>x a' y b'. sync_path (demo_run [] [] [(''a'', demo_local)]) ''a'' (demo_world demo_store demo_server []) = (x, a')
     \<and> sync_path (demo_run (sw_next a') [] []) ''a'' (demo_world (empty_idb (\<lambda>n. n)) (sw_relay a') (sw_next a')) = (y, b')
     \<and> idb_fs (sw_store b') [''a''] = Some (FileN [7])"
proof -
  let ?A = "demo_run [] [] [(''a'', demo_local)]" and ?a = "demo_world demo_store demo_server []"
  obtain x a' where A: "sync_path ?A ''a'' ?a = (x, a')" by fastforce
  let ?B = "demo_run (sw_next a') [] []" and ?b = "demo_world (empty_idb (\<lambda>n. n)) (sw_relay a') (sw_next a')"
  obtain y b' where B: "sync_path ?B ''a'' ?b = (y, b')" by fastforce
  have big: "\<And>n. NONCE_LEN + length (cr_seal (sr_crypto ?A) (sr_encKey ?A) n (lf_data demo_local)) \<le> cf_maxBlob demo_cfg"
    by (simp add: demo_crypto_def demo_local_def demo_cfg_def NONCE_LEN_def)
  have sig: "\<And>m. length (demo_sign m (secretKey demo_client)) = 64
      \<and> cf_verify demo_cfg (publicKey demo_client) m (demo_sign m (secretKey demo_client))"
    by (simp add: demo_sign_def demo_cfg_def)
  have "idb_fs (sw_store b') (place (sr_collection ?B) ''a'') = Some (FileN (lf_data demo_local))"
    using sync_two_devices [OF demo_engine demo_engine _ _ _ _ _ _ sig big _ _ _ _ A _ _ _ _ sync_demo_paths(5) _ _ _ B]
    by (simp add: demo_cfg_def demo_client_def demo_server_def sync_demo_paths empty_tree_def mkdir_error_def)
  then show ?thesis using A B by (auto simp: sync_demo_paths demo_local_def)
qed

lemma sync_conflict_witness:
  "\<exists>x w'. sync_path (demo_run [(''a'', demo_entry\<lparr>re_h := bytesToBase64 []\<rparr>)] [] [(''a'', demo_local)]) ''a''
       (demo_world demo_store demo_server [(''a'', demo_entry\<lparr>re_h := bytesToBase64 []\<rparr>)]) = (x, w')
     \<and> conflicts (sw_result w') = 1 \<and> sw_store w' = demo_store"
proof -
  let ?r = "demo_entry\<lparr>re_h := bytesToBase64 []\<rparr>"
  let ?E = "demo_run [(''a'', ?r)] [] [(''a'', demo_local)]" and ?w = "demo_world demo_store demo_server [(''a'', ?r)]"
  have ne: "bytesToBase64 (lf_hash demo_local) \<noteq> re_h ?r"
    by (simp add: demo_local_def demo_crypto_def)
  have m: "merge_path ?E ''a'' = athen (bump (\<lambda>x. x\<lparr>conflicts := conflicts x + 1\<rparr>)) (abind (upload ?E demo_local) (record_entry ''a''))"
    using merge_both_branch(4) [OF ne, of None ?E "''a''"]
    by (simp add: merge_path_def deleted_def) (simp add: demo_entry_def demo_local_def)
  obtain e w1 where up: "upload ?E demo_local (?w\<lparr>sw_result := (sw_result ?w)\<lparr>conflicts := conflicts (sw_result ?w) + 1\<rparr>\<rparr>) = (Inr e, w1)"
    "sync_errors (sw_result w1) = []"
    using demo_upload [of ?E "?w\<lparr>sw_result := (sw_result ?w)\<lparr>conflicts := conflicts (sw_result ?w) + 1\<rparr>\<rparr>"]
    by (auto simp: no_result_def)
  obtain w' where run: "sync_path ?E ''a'' ?w = (Inr (), w')" "sync_errors (sw_result w') = sync_errors (sw_result ?w)"
    using up by (simp add: sync_path_def m acatch_apply bump_then abind_apply record_entry_apply no_result_def)
  show ?thesis
    using sync_conflict [OF demo_engine sync_demo_paths(5) _ _ _ _ ne _ _ _ _ run, of "replicate 32 1"] run(1)
    by (auto simp: demo_store_holds deleted_def demo_entry_def demo_local_def no_result_def)
qed

end
