(* ===== verification/App.thy ===== *)
theory App
  imports IdbFs Json Dates Fuzzy
begin

text \<open>
  The application state the note operations share (\<open>packages/core/src/state\<close>), the editor
  (\<open>api/editor.ts\<close>, the update handler of \<open>editor.svelte\<close>) and the helpers on names
  (\<open>utils/files.ts\<close>). The state is explicit, the storage part of it; the rich editor is a document type
  with its markdown parser and serializer as parameters.
\<close>

section \<open>State\<close>

datatype editor_mode = Edit | View | Source

datatype detail_tab = Metadata | Toc | History | Graph

datatype trash_mode = Trash_system | Trash_tactile | Trash_delete

datatype toast = Toast_ok string | Toast_info string | Toast_error string js_error

datatype file_entry =
  FileEntry (fe_name: string) (fe_path: string) (fe_isDirectory: bool) (fe_isFile: bool) (fe_isSymlink: bool)
    (fe_children: "file_entry list option")

record ('s, 'd) app =
  ap_store :: 's
  activeFile :: "string option"
  noteHistory :: "string list"
  ed_instance :: "'d option"
  ed_editable :: bool
  dirtyPath :: "string option"
  saveGeneration :: nat
  saveEvents :: nat
  ed_timer :: "(string \<times> nat) option"
  editorMode :: editor_mode
  sourceContent :: string
  editorSearchActive :: bool
  noteDetailTab :: detail_tab
  isNoteDetailSidebarOpen :: bool
  collection :: "string option"
  collectionEntries :: "file_entry list"
  trash_dir :: trash_mode
  auto_save :: bool
  ap_toasts :: "toast list"
  ap_clock :: "nat \<Rightarrow> nat"

text \<open>What is registered at startup: the storage, the platform hooks and the editor library.\<close>

record ('s, 'd) app_env =
  storage :: "'s backend"
  moveToSystemTrash :: "(string \<Rightarrow> ('s, unit) act) option"
  parse_doc :: "string \<Rightarrow> 'd"
  getMarkdown :: "'d \<Rightarrow> string"

definition MARKDOWN_EXTENSION :: string where "MARKDOWN_EXTENSION = ''.md''"
definition UNTITLED_NAME :: string where "UNTITLED_NAME = ''Untitled''"
definition APP_DIR :: string where "APP_DIR = ''.tactile''"
definition TRASH_DIR :: string where "TRASH_DIR = APP_DIR @ ''/trash''"
definition DAILY_DIR :: string where "DAILY_DIR = APP_DIR @ ''/daily''"

definition on_files :: "('s, 'a) act \<Rightarrow> (('s, 'd) app, 'a) act" where
  "on_files m = (\<lambda>w. case m (ap_store w) of (x, s) \<Rightarrow> (x, w\<lparr>ap_store := s\<rparr>))"

definition show_toast :: "toast \<Rightarrow> (('s, 'd) app, unit) act" where
  "show_toast t = amodify (\<lambda>w. w\<lparr>ap_toasts := ap_toasts w @ [t]\<rparr>)"

definition app_now :: "(('s, 'd) app, nat) act" where
  "app_now = (\<lambda>w. (Inr (ap_clock w 0), w\<lparr>ap_clock := \<lambda>n. ap_clock w (Suc n)\<rparr>))"

text \<open>A promise nobody awaits: it runs, and what it throws is only reported.\<close>

definition detached :: "(('s, 'd) app, unit) act \<Rightarrow> (('s, 'd) app, unit) act" where
  "detached m = acatch m (\<lambda>_. aret ())"

text \<open>A directory listing in which a missing directory counts as empty.\<close>

definition read_dir_or_empty :: "('s, 'd) app_env \<Rightarrow> string \<Rightarrow> (('s, 'd) app, dir_entry list) act" where
  "read_dir_or_empty E dirPath =
     acatch (on_files (readDir (storage E) dirPath no_options))
       (\<lambda>e. if e = StorageError Not_found then aret [] else athrow e)"

section \<open>Editor store\<close>

definition setInstance :: "'d option \<Rightarrow> ('s, 'd) app \<Rightarrow> ('s, 'd) app" where
  "setInstance editor w = w\<lparr>ed_instance := editor\<rparr>"

definition markDirty :: "string \<Rightarrow> ('s, 'd) app \<Rightarrow> nat \<times> ('s, 'd) app" where
  "markDirty path w =
     (let g = saveGeneration w + 1 in (g, w\<lparr>dirtyPath := Some path, saveGeneration := g\<rparr>))"

definition clearDirty :: "nat option \<Rightarrow> ('s, 'd) app \<Rightarrow> ('s, 'd) app" where
  "clearDirty generation w =
     (if generation = None \<or> generation = Some (saveGeneration w) then w\<lparr>dirtyPath := None\<rparr> else w)"

definition notifySaveEvent :: "('s, 'd) app \<Rightarrow> ('s, 'd) app" where
  "notifySaveEvent w = w\<lparr>saveEvents := saveEvents w + 1\<rparr>"

text \<open>The update handler: the active note becomes dirty and the save timer starts again.\<close>

definition onUpdate :: "('s, 'd) app \<Rightarrow> ('s, 'd) app" where
  "onUpdate w =
     (case activeFile w of
        None \<Rightarrow> w
      | Some path \<Rightarrow>
          if path = [] then w
          else (case markDirty path w of (generation, w) \<Rightarrow> w\<lparr>ed_timer := Some (path, generation)\<rparr>))"

text \<open>The user edits the document, or the raw buffer.\<close>

definition edit_document :: "'d \<Rightarrow> ('s, 'd) app \<Rightarrow> ('s, 'd) app" where
  "edit_document doc w = onUpdate (w\<lparr>ed_instance := Some doc\<rparr>)"

definition setSourceContent :: "string \<Rightarrow> ('s, 'd) app \<Rightarrow> ('s, 'd) app" where
  "setSourceContent content w = w\<lparr>sourceContent := content\<rparr>"

definition setEditorContent :: "('s, 'd) app_env \<Rightarrow> string \<Rightarrow> ('s, 'd) app \<Rightarrow> ('s, 'd) app" where
  "setEditorContent E content w =
     (case ed_instance w of None \<Rightarrow> w | Some _ \<Rightarrow> onUpdate (w\<lparr>ed_instance := Some (parse_doc E content)\<rparr>))"

definition document_markdown :: "('s, 'd) app_env \<Rightarrow> ('s, 'd) app \<Rightarrow> string" where
  "document_markdown E w = (case ed_instance w of None \<Rightarrow> [] | Some doc \<Rightarrow> getMarkdown E doc)"

definition setEditorMode :: "('s, 'd) app_env \<Rightarrow> editor_mode \<Rightarrow> ('s, 'd) app \<Rightarrow> ('s, 'd) app" where
  "setEditorMode E nxt w =
     (if nxt = editorMode w then w
      else
        let w1 = (if editorMode w = Source then setEditorContent E (sourceContent w) w else w);
            w2 = (if nxt = Source
                  then w1\<lparr>sourceContent := document_markdown E w1, ed_editable := ed_editable w1 \<and> ed_instance w1 = None,
                          editorSearchActive := False\<rparr>
                  else w1\<lparr>ed_editable := (if ed_instance w1 = None then ed_editable w1 else nxt = Edit)\<rparr>)
        in w2\<lparr>editorMode := nxt\<rparr>)"

section \<open>Names\<close>

definition last_segment :: "string \<Rightarrow> string" where
  "last_segment path = List.last (split_on CHR ''/'' path)"

definition dir_of :: "string \<Rightarrow> string" where
  "dir_of path = join_with ''/'' (butlast (split_on CHR ''/'' path))"

text \<open>\<open>replace('//', '/')\<close> replaces the first occurrence.\<close>

definition single_slash :: "string \<Rightarrow> string" where
  "single_slash s = (case sub_index ''//'' s of None \<Rightarrow> s | Some i \<Rightarrow> take i s @ ''/'' @ drop (i + 2) s)"

text \<open>A literal of a regular expression, matched without case; an unescaped dot matches any character.\<close>

definition regex_literal :: "string \<Rightarrow> string \<Rightarrow> bool" where
  "regex_literal pat s = list_all2 (\<lambda>p c. if p = CHR ''.'' then c \<noteq> CHR 0x0A \<and> c \<noteq> CHR 0x0D else lower_char p = lower_char c) pat s"

definition digits :: "string \<Rightarrow> bool" where
  "digits s \<longleftrightarrow> s \<noteq> [] \<and> list_all is_digit s"

text \<open>The number of a name that matches \<open>^prefix(?: (\d+))?extension$\<close>.\<close>

definition untitled_number :: "string \<Rightarrow> string \<Rightarrow> string \<Rightarrow> nat option" where
  "untitled_number pfx extension name =
     (let n = length pfx; rest = drop n name; k = length rest - length extension; num = take k rest in
      if length name \<ge> n + length extension \<and> regex_literal pfx (take n name) \<and> regex_literal extension (drop k rest)
      then if num = [] then Some 0
           else if hd num = CHR '' '' \<and> digits (tl num) then Some (read_nat (tl num)) else None
      else None)"

definition untitled_name :: "string \<Rightarrow> string \<Rightarrow> nat \<Rightarrow> string" where
  "untitled_name pfx extension i = (if i = 0 then pfx @ extension else pfx @ '' '' @ show_nat i @ extension)"

definition getNextUntitledName :: "string list \<Rightarrow> string \<Rightarrow> string \<Rightarrow> string" where
  "getNextUntitledName files pfx extension =
     (let untitledItems = filter (\<lambda>name. starts_with (lower name) (lower pfx)
            \<and> (extension \<noteq> [] \<longrightarrow> ends_with (lower name) (lower extension))) files;
          maxNumber = fold (\<lambda>name m. case untitled_number pfx extension name of None \<Rightarrow> m | Some i \<Rightarrow> max m i) untitledItems 0
      in case find (\<lambda>i. untitled_name pfx extension i \<notin> set untitledItems) [0..<maxNumber + 2] of
           Some i \<Rightarrow> untitled_name pfx extension i
         | None \<Rightarrow> pfx @ '' '' @ show_nat (maxNumber + 1) @ extension)"

text \<open>Hidden entries leave the tree.\<close>

fun hideDotFiles :: "file_entry list \<Rightarrow> file_entry list" where
  "hideDotFiles [] = []"
| "hideDotFiles (FileEntry n p d f l cs # es) =
     (if starts_with n ''.'' then hideDotFiles es
      else FileEntry n p d f l (case cs of None \<Rightarrow> None | Some kids \<Rightarrow> Some (hideDotFiles kids)) # hideDotFiles es)"

definition validateTactileFolder :: "('s, 'd) app_env \<Rightarrow> string \<Rightarrow> (('s, 'd) app, unit) act" where
  "validateTactileFolder E path =
     afor (\<lambda>dir. let target = path @ ''/'' @ dir in
       abind (on_files (exists_path (storage E) target no_options)) (\<lambda>there.
         if there then aret () else on_files (mkdir (storage E) target recursively)))
       [APP_DIR, TRASH_DIR, DAILY_DIR]"

end
