(* ===== verification/Notes.thy ===== *)
theory Notes
  imports App Versioned
begin

text \<open>
  Notes, folders and the trash (\<open>api/notes.ts\<close>, \<open>api/folders.ts\<close>, \<open>api/trash.ts\<close>). The operations
  are actions on the application state over any storage backend; a call that is not awaited runs after the
  handler, and what it throws changes nothing else. The clock gives the time stamps of the trash.
\<close>

section \<open>Trash\<close>

record trash_item =
  ti_name :: string
  originalPath :: string
  deletedAt :: string
  isFolder :: bool

definition in_collection :: "string \<Rightarrow> ('s, 'd) app \<Rightarrow> string" where
  "in_collection rel w = (case collection w of None \<Rightarrow> ''undefined'' | Some c \<Rightarrow> c) @ ''/'' @ rel"

definition manifestPath :: "('s, 'd) app \<Rightarrow> string" where
  "manifestPath = in_collection ''.tactile/trash.json''"

definition trashPath :: "('s, 'd) app \<Rightarrow> string" where
  "trashPath = in_collection TRASH_DIR"

definition item_json :: "trash_item \<Rightarrow> json" where
  "item_json i = JObj [(''name'', JStr (ti_name i)), (''originalPath'', JStr (originalPath i)),
     (''deletedAt'', JStr (deletedAt i)), (''isFolder'', JBool (isFolder i))]"

definition item_of :: "json \<Rightarrow> trash_item option" where
  "item_of j =
     (case (member ''name'' j, member ''originalPath'' j, member ''deletedAt'' j, member ''isFolder'' j) of
        (Some (JStr n), Some (JStr p), Some (JStr d), Some (JBool f)) \<Rightarrow>
          Some \<lparr>ti_name = n, originalPath = p, deletedAt = d, isFolder = f\<rparr>
      | _ \<Rightarrow> None)"

definition items_of :: "string \<Rightarrow> trash_item list option" where
  "items_of s =
     (case parse_json s of None \<Rightarrow> None
      | Some j \<Rightarrow> (case member ''items'' j of Some (JArr js) \<Rightarrow> those (map item_of js) | _ \<Rightarrow> Some []))"

definition items_text :: "trash_item list \<Rightarrow> string" where
  "items_text items = stringify (JObj [(''items'', JArr (map item_json items))])"

definition readManifest :: "('s, 'd) app_env \<Rightarrow> (('s, 'd) app, trash_item list) act" where
  "readManifest E =
     acatch (abind (aread manifestPath) (\<lambda>p. abind (on_files (readTextFile (storage E) p no_options)) (\<lambda>s.
       aret (case items_of s of None \<Rightarrow> [] | Some items \<Rightarrow> items)))) (\<lambda>_. aret [])"

definition writeManifest :: "('s, 'd) app_env \<Rightarrow> trash_item list \<Rightarrow> (('s, 'd) app, unit) act" where
  "writeManifest E items =
     abind (aread manifestPath) (\<lambda>p.
       on_files (writeTextFile (storage E) p (items_text items)
         (no_options\<lparr>keepVersion := Some False\<rparr>)))"

definition moveToTrash :: "('s, 'd) app_env \<Rightarrow> string \<Rightarrow> bool \<Rightarrow> (('s, 'd) app, unit) act" where
  "moveToTrash E path folder =
     (let name = last_segment path in
      abind (aread trashPath) (\<lambda>dir.
      athen (on_files (mkdir (storage E) dir recursively))
      (abind (on_files (exists_path (storage E) (dir @ ''/'' @ name) no_options)) (\<lambda>taken.
       abind (if taken then abind app_now (\<lambda>t. aret (dir @ ''/'' @ show_nat t @ ''-'' @ name)) else aret (dir @ ''/'' @ name)) (\<lambda>target.
       athen (on_files (rename (storage E) path target no_options))
       (abind (readManifest E) (\<lambda>items.
        abind app_now (\<lambda>t.
        writeManifest E (items @ [\<lparr>ti_name = last_segment target, originalPath = path, deletedAt = toISOString t, isFolder = folder\<rparr>])))))))))"

text \<open>\<open>localeCompare\<close> on ISO time stamps is the order of their characters; the sort is stable.\<close>

definition listTrash :: "('s, 'd) app_env \<Rightarrow> (('s, 'd) app, trash_item list) act" where
  "listTrash E = abind (readManifest E) (\<lambda>items.
     aret (foldr (\<lambda>i xs. takeWhile (\<lambda>j. deletedAt i < deletedAt j) xs @ i # dropWhile (\<lambda>j. deletedAt i < deletedAt j) xs) items []))"

definition restoreFromTrash :: "('s, 'd) app_env \<Rightarrow> string \<Rightarrow> (('s, 'd) app, unit) act" where
  "restoreFromTrash E name =
     abind (readManifest E) (\<lambda>items.
     case find (\<lambda>entry. ti_name entry = name) items of
       None \<Rightarrow> athrow (JsError ''Trash entry not found'')
     | Some item \<Rightarrow>
         let target = originalPath item; parent = (if dir_of target = [] then ''/'' else dir_of target) in
         abind (on_files (exists_path (storage E) target no_options)) (\<lambda>taken.
         if taken then athrow (JsError (''A file already exists at '' @ target))
         else athen (on_files (mkdir (storage E) parent recursively))
           (abind (aread trashPath) (\<lambda>dir.
            athen (on_files (rename (storage E) (dir @ ''/'' @ name) target no_options))
              (writeManifest E (filter (\<lambda>entry. ti_name entry \<noteq> name) items))))))"

definition deleteTrashItem :: "('s, 'd) app_env \<Rightarrow> string \<Rightarrow> (('s, 'd) app, unit) act" where
  "deleteTrashItem E name =
     abind (aread trashPath) (\<lambda>dir. let path = dir @ ''/'' @ name in
     abind (on_files (exists_path (storage E) path no_options)) (\<lambda>there.
     athen (if there then on_files (remove_path (storage E) path recursively) else aret ())
     (abind (readManifest E) (\<lambda>items. writeManifest E (filter (\<lambda>entry. ti_name entry \<noteq> name) items)))))"

definition emptyTrash :: "('s, 'd) app_env \<Rightarrow> (('s, 'd) app, unit) act" where
  "emptyTrash E =
     abind (aread trashPath) (\<lambda>dir.
     abind (on_files (exists_path (storage E) dir no_options)) (\<lambda>there.
     athen (if there then on_files (remove_path (storage E) dir recursively) else aret ())
     (athen (on_files (mkdir (storage E) dir recursively)) (writeManifest E []))))"

section \<open>Opening and saving\<close>

text \<open>\<open>content.replace(/^# .*\n/, '')\<close>: a first line that starts with \<open># \<close> goes.\<close>

definition strip_title :: "string \<Rightarrow> string" where
  "strip_title content =
     (if starts_with content ''# '' \<and> dropWhile (\<lambda>c. c \<noteq> CHR 0x0A \<and> c \<noteq> CHR 0x0D) content \<noteq> []
         \<and> hd (dropWhile (\<lambda>c. c \<noteq> CHR 0x0A \<and> c \<noteq> CHR 0x0D) content) = CHR 0x0A
      then tl (dropWhile (\<lambda>c. c \<noteq> CHR 0x0A \<and> c \<noteq> CHR 0x0D) content) else content)"

definition buffer :: "('s, 'd) app_env \<Rightarrow> ('s, 'd) app \<Rightarrow> string" where
  "buffer E w = (if editorMode w = Source then sourceContent w else document_markdown E w)"

definition saveNote :: "('s, 'd) app_env \<Rightarrow> string \<Rightarrow> (('s, 'd) app, unit) act" where
  "saveNote E path =
     (\<lambda>w. if path = [] \<or> activeFile w = None \<or> activeFile w = Some [] then (Inr (), w)
          else on_files (writeTextFile (storage E) path (strip_title (buffer E w)) no_options) w)"

text \<open>The callback of the save timer.\<close>

definition save_timer_fires :: "('s, 'd) app_env \<Rightarrow> (('s, 'd) app, unit) act" where
  "save_timer_fires E =
     (\<lambda>w. case ed_timer w of
        None \<Rightarrow> (Inr (), w)
      | Some (path, generation) \<Rightarrow>
          (let w = w\<lparr>ed_timer := None\<rparr> in
           if auto_save w \<and> dirtyPath w = Some path \<and> activeFile w = Some path
           then detached (athen (saveNote E path) (athen (amodify (clearDirty (Some generation))) (amodify notifySaveEvent))) w
           else (Inr (), w)))"

definition openNote :: "('s, 'd) app_env \<Rightarrow> string \<Rightarrow> bool \<Rightarrow> (('s, 'd) app, unit) act" where
  "openNote E path skipHistory =
     abind (aread dirtyPath) (\<lambda>dirty.
     athen (case dirty of
              None \<Rightarrow> aret ()
            | Some p \<Rightarrow> if p = [] then aret ()
                else athen (amodify (clearDirty None)) (acatch (saveNote E p) (\<lambda>_. aret ())))
     (abind (on_files (readTextFile (storage E) path no_options)) (\<lambda>fileContent.
      athen (amodify (\<lambda>w. w\<lparr>sourceContent := fileContent, activeFile := Some path\<rparr>))
      (athen (amodify (setEditorContent E fileContent))
      (athen (amodify (clearDirty None))
        (amodify (\<lambda>w. if skipHistory \<or> (noteHistory w \<noteq> [] \<and> List.last (noteHistory w) = path) then w
                      else w\<lparr>noteHistory := noteHistory w @ [path]\<rparr>)))))))"

definition closeNote :: "(('s, 'd) app, unit) act" where
  "closeNote = amodify (\<lambda>w. w\<lparr>activeFile := None\<rparr>)"

definition openNoteHistory :: "('s, 'd) app_env \<Rightarrow> string \<Rightarrow> (('s, 'd) app, unit) act" where
  "openNoteHistory E path =
     abind (aread activeFile) (\<lambda>a.
     athen (if a \<noteq> Some path then openNote E path True else aret ())
       (amodify (\<lambda>w. w\<lparr>isNoteDetailSidebarOpen := True, noteDetailTab := History\<rparr>)))"

section \<open>Notes\<close>

definition with_extension :: "string \<Rightarrow> string" where
  "with_extension name = (if ends_with name MARKDOWN_EXTENSION then name else name @ MARKDOWN_EXTENSION)"

definition new_note_name :: "dir_entry list \<Rightarrow> string option \<Rightarrow> string res" where
  "new_note_name files name =
     (if name = None \<or> name = Some [] then Inr (getNextUntitledName (map de_name files) UNTITLED_NAME MARKDOWN_EXTENSION)
      else let n = with_extension (the name) in
        if list_ex (\<lambda>f. lower (de_name f) = lower n) files then Inl (JsError ''Name conflict'') else Inr n)"

definition createNote :: "('s, 'd) app_env \<Rightarrow> string \<Rightarrow> string option \<Rightarrow> (('s, 'd) app, unit) act" where
  "createNote E dirPath name =
     abind (read_dir_or_empty E dirPath) (\<lambda>files.
     abind (alift (new_note_name files name)) (\<lambda>n.
     let notePath = single_slash (dirPath @ ''/'' @ n) in
     athen (on_files (mkdir (storage E) dirPath recursively))
     (athen (on_files (writeTextFile (storage E) notePath [] no_options))
       (detached (openNote E notePath False)))))"

definition system_trash :: "('s, 'd) app_env \<Rightarrow> string \<Rightarrow> bool \<Rightarrow> (('s, 'd) app, unit) act" where
  "system_trash E path folder =
     (case moveToSystemTrash E of Some hook \<Rightarrow> on_files (hook path) | None \<Rightarrow> moveToTrash E path folder)"

definition deleteNote :: "('s, 'd) app_env \<Rightarrow> string \<Rightarrow> (('s, 'd) app, unit) act" where
  "deleteNote E path =
     abind (aread trash_dir) (\<lambda>mode. \<lambda>w0.
     case (case mode of
             Trash_delete \<Rightarrow> on_files (remove_path (storage E) path no_options)
           | Trash_system \<Rightarrow> system_trash E path False
           | Trash_tactile \<Rightarrow> moveToTrash E path False) w0 of
       (Inl e, w) \<Rightarrow> show_toast (Toast_error ''Could not delete note'' e) w
     | (Inr _, w) \<Rightarrow>
         athen (amodify (\<lambda>w. if dirtyPath w = Some path then clearDirty None w else w))
         (athen (amodify (\<lambda>w. w\<lparr>activeFile := None\<rparr>))
           (show_toast (Toast_ok (if mode = Trash_delete then ''Note deleted'' else ''Note moved to trash'')))) w)"

definition clean_name :: "string \<Rightarrow> string" where
  "clean_name name = filter (\<lambda>c. c \<notin> set ''/?%*:|<>'' \<and> c \<noteq> CHR 0x5C \<and> c \<noteq> CHR 0x22) (with_extension name)"

definition renameNote :: "('s, 'd) app_env \<Rightarrow> string \<Rightarrow> string \<Rightarrow> (('s, 'd) app, unit) act" where
  "renameNote E path name0 =
     (let name = clean_name name0; parent = dir_of path in
      if name = MARKDOWN_EXTENSION then athrow (JsError ''Name cannot be empty'')
      else
        abind (on_files (readDir (storage E) (if parent = [] then ''/'' else parent) no_options)) (\<lambda>files.
        if list_ex (\<lambda>f. lower (de_name f) = lower name \<and> \<not> isDirectory f) files then athrow (JsError ''Name conflict'')
        else
          athen (on_files (rename (storage E) path (parent @ ''/'' @ name) no_options))
            (amodify (\<lambda>w. (if dirtyPath w = Some path then w\<lparr>dirtyPath := Some (parent @ ''/'' @ name)\<rparr> else w)
                             \<lparr>activeFile := Some (parent @ ''/'' @ name)\<rparr>))))"

definition moveNote :: "('s, 'd) app_env \<Rightarrow> string \<Rightarrow> string \<Rightarrow> (('s, 'd) app, unit) act" where
  "moveNote E source target =
     abind (read_dir_or_empty E target) (\<lambda>targetFiles.
     let noteName = last_segment source; dest = single_slash (target @ ''/'' @ noteName) in
     if list_ex (\<lambda>f. de_name f = noteName) targetFiles then
       show_toast (Toast_error ''Could not move note'' (JsError (CHR 0x22 # noteName @ CHR 0x22 # '' already exists there'')))
     else (\<lambda>w0. case on_files (rename (storage E) source dest no_options) w0 of
       (Inl e, w) \<Rightarrow> show_toast (Toast_error ''Could not move note'' e) w
     | (Inr _, w) \<Rightarrow>
         athen (amodify (\<lambda>w. if dirtyPath w = Some source then w\<lparr>dirtyPath := Some dest\<rparr> else w))
           (detached (openNote E (target @ ''/'' @ noteName) False)) w))"

text \<open>The stem of a copy: up to the first dot, less a number in parentheses at the end.\<close>

definition drop_copy_number :: "string \<Rightarrow> string" where
  "drop_copy_number s =
     (let r = rev s; ds = takeWhile is_digit (tl r); rest = drop (length ds + 1) r in
      if r \<noteq> [] \<and> hd r = CHR '')'' \<and> ds \<noteq> [] \<and> length rest \<ge> 2 \<and> hd rest = CHR ''('' \<and> is_space (rest ! 1)
      then rev (drop 2 rest) else s)"

definition copy_stem :: "string \<Rightarrow> string" where
  "copy_stem path = drop_copy_number (hd (split_on CHR ''.'' (last_segment path)))"

definition copy_ext :: "string \<Rightarrow> string" where
  "copy_ext path = List.last (split_on CHR ''.'' path)"

definition copy_name :: "string \<Rightarrow> string \<Rightarrow> nat \<Rightarrow> string" where
  "copy_name name ext i = name @ '' ('' @ show_nat i @ '').'' @ ext"

text \<open>The index of a name that matches \<open>^name \((\d+)\)\.ext$\<close> without case.\<close>

definition copy_index :: "string \<Rightarrow> string \<Rightarrow> string \<Rightarrow> nat option" where
  "copy_index name ext file =
     (let a = length name + 2; b = length ext + 2; num = take (length file - a - b) (drop a file) in
      if length file > a + b \<and> lower (take a file) = lower (name @ '' ('') \<and> digits num
         \<and> lower (drop (length file - b) file) = lower ('').'' @ ext)
      then Some (read_nat num) else None)"

definition duplicateNote :: "('s, 'd) app_env \<Rightarrow> string \<Rightarrow> (('s, 'd) app, unit) act" where
  "duplicateNote E path =
     abind (on_files (readTextFile (storage E) path no_options)) (\<lambda>content.
     let name = copy_stem path; ext = copy_ext path; dir = (if dir_of path = [] then ''/'' else dir_of path) in
     abind (on_files (readDir (storage E) dir no_options)) (\<lambda>files.
     let used = List.map_filter (copy_index name ext) (map de_name files);
         newPath = dir @ ''/'' @ copy_name name ext
           (case first_free (length used + 1) (\<lambda>i. i \<in> set used) 1 of Some i \<Rightarrow> i | None \<Rightarrow> 0)
     in athen (on_files (writeTextFile (storage E) newPath content no_options))
          (detached (openNote E newPath False))))"

section \<open>Versions\<close>

text \<open>The versioning the storage may have, and what the note views ask of it.\<close>

record 's version_api =
  va_list :: "string \<Rightarrow> ('s, file_version list) act"
  va_read :: "string \<Rightarrow> string \<Rightarrow> ('s, string) act"
  va_restore :: "string \<Rightarrow> string \<Rightarrow> ('s, unit) act"

definition listNoteVersions :: "'s version_api option \<Rightarrow> string \<Rightarrow> (('s, 'd) app, file_version list) act" where
  "listNoteVersions V path =
     (case V of None \<Rightarrow> aret [] | Some v \<Rightarrow> abind (alift (normalizePath path)) (\<lambda>p. on_files (va_list v p)))"

definition readNoteVersion :: "'s version_api option \<Rightarrow> string \<Rightarrow> string \<Rightarrow> (('s, 'd) app, string) act" where
  "readNoteVersion V path versionId =
     (case V of None \<Rightarrow> athrow (JsError ''Versioning is not available'')
      | Some v \<Rightarrow> abind (alift (normalizePath path)) (\<lambda>p. on_files (va_read v p versionId)))"

definition readNoteContent :: "('s, 'd) app_env \<Rightarrow> string \<Rightarrow> (('s, 'd) app, string) act" where
  "readNoteContent E path = abind (alift (normalizePath path)) (\<lambda>p. on_files (readTextFile (storage E) p no_options))"

definition restoreNoteVersion :: "('s, 'd) app_env \<Rightarrow> 's version_api option \<Rightarrow> string \<Rightarrow> string \<Rightarrow> (('s, 'd) app, unit) act" where
  "restoreNoteVersion E V path versionId =
     (case V of None \<Rightarrow> athrow (JsError ''Versioning is not available'')
      | Some v \<Rightarrow>
          abind (alift (normalizePath path)) (\<lambda>p.
          athen (on_files (va_restore v p versionId))
          (athen (amodify notifySaveEvent)
          (abind (aread activeFile) (\<lambda>a. if a = Some path then openNote E path True else aret ())))))"

section \<open>Folders\<close>

definition createFolder :: "('s, 'd) app_env \<Rightarrow> string \<Rightarrow> (('s, 'd) app, string) act" where
  "createFolder E dirPath =
     abind (read_dir_or_empty E dirPath) (\<lambda>files.
     let folderPath = single_slash (dirPath @ ''/'' @ getNextUntitledName (map de_name files) UNTITLED_NAME []) in
     athen (on_files (mkdir (storage E) folderPath recursively)) (aret folderPath))"

definition delete_folder_now :: "('s, 'd) app_env \<Rightarrow> string \<Rightarrow> (('s, 'd) app, unit) act" where
  "delete_folder_now E path =
     abind (aread trash_dir) (\<lambda>mode. \<lambda>w0.
     case (case mode of
             Trash_system \<Rightarrow> system_trash E path True
           | Trash_tactile \<Rightarrow> moveToTrash E path True
           | Trash_delete \<Rightarrow> on_files (remove_path (storage E) path recursively)) w0 of
       (Inl e, w) \<Rightarrow> show_toast (Toast_error ''Could not delete folder'' e) w
     | (Inr _, w) \<Rightarrow> show_toast (Toast_ok (if mode = Trash_delete then ''Folder deleted'' else ''Folder moved to trash'')) w)"

definition deleteFolder :: "('s, 'd) app_env \<Rightarrow> string \<Rightarrow> bool \<Rightarrow> (('s, 'd) app, unit) act" where
  "deleteFolder E path recursive =
     (if recursive then delete_folder_now E path
      else abind (read_dir_or_empty E path) (\<lambda>children.
        if filter (\<lambda>c. de_name c \<noteq> ''.DS_Store'') children \<noteq> []
        then show_toast (Toast_error ''Could not delete folder'' (JsError ''Folder is not empty''))
        else delete_folder_now E path))"

definition renameFolder :: "('s, 'd) app_env \<Rightarrow> string \<Rightarrow> string \<Rightarrow> (('s, 'd) app, unit) act" where
  "renameFolder E path name =
     acatch (on_files (rename (storage E) path (dir_of path @ ''/'' @ name) no_options))
       (\<lambda>e. show_toast (Toast_error ''Could not rename folder'' e))"

definition moveFolder :: "('s, 'd) app_env \<Rightarrow> string \<Rightarrow> string \<Rightarrow> (('s, 'd) app, unit) act" where
  "moveFolder E source target =
     abind (on_files (readDir (storage E) target no_options)) (\<lambda>files.
     let folderName = last_segment source in
     if list_ex (\<lambda>f. de_name f = folderName \<and> isDirectory f) files
     then show_toast (Toast_error ''Could not move folder'' (JsError (CHR 0x22 # folderName @ CHR 0x22 # '' already exists there'')))
     else acatch (on_files (rename (storage E) source (target @ ''/'' @ folderName) no_options))
       (\<lambda>e. show_toast (Toast_error ''Could not move folder'' e)))"

end
