(* ===== verification/Notes_Props.thy ===== *)
theory Notes_Props
  imports Notes
begin

text \<open>
  What the note operations guarantee over any storage that keeps its contract, and, on the IndexedDB
  backend, the properties: edits reach their note before another one opens, creating never overwrites,
  trash and restore undo each other.
\<close>

section \<open>Actions on the state\<close>

lemma find_skip: "\<forall>x\<in>set xs. \<not> P x \<Longrightarrow> find P (xs @ ys) = find P ys"
  by (induction xs) auto

lemma on_files_apply [act_simps]: "on_files m w = (fst (m (ap_store w)), w\<lparr>ap_store := snd (m (ap_store w))\<rparr>)"
  by (simp add: on_files_def split: prod.split)

lemma detached_apply [act_simps]: "detached m w = (Inr (), snd (m w))"
  by (auto simp: detached_def act_simps split: prod.split sum.split)

lemma show_toast_apply [act_simps]: "show_toast t w = (Inr (), w\<lparr>ap_toasts := ap_toasts w @ [t]\<rparr>)"
  by (simp add: show_toast_def act_simps)

lemma app_now_apply [act_simps]: "app_now w = (Inr (ap_clock w 0), w\<lparr>ap_clock := \<lambda>n. ap_clock w (Suc n)\<rparr>)"
  by (simp add: app_now_def)

lemma saveNote_apply:
  "p \<noteq> [] \<Longrightarrow> activeFile w = Some a \<Longrightarrow> a \<noteq> [] \<Longrightarrow>
     saveNote E p w = on_files (writeTextFile (storage E) p (strip_title (buffer E w)) no_options) w"
  by (simp add: saveNote_def)

lemma setEditorContent_frame [simp]:
  "ap_store (setEditorContent E c w) = ap_store w" "activeFile (setEditorContent E c w) = activeFile w"
  "sourceContent (setEditorContent E c w) = sourceContent w" "noteHistory (setEditorContent E c w) = noteHistory w"
  by (auto simp: setEditorContent_def onUpdate_def markDirty_def Let_def split: option.split)

text \<open>What opening a note leaves once its text is read.\<close>

definition opened :: "('s, 'd) app_env \<Rightarrow> string \<Rightarrow> bool \<Rightarrow> string \<Rightarrow> ('s, 'd) app \<Rightarrow> ('s, 'd) app" where
  "opened E path skipHistory content w =
     (let w1 = clearDirty None (setEditorContent E content (w\<lparr>sourceContent := content, activeFile := Some path\<rparr>)) in
      if skipHistory \<or> (noteHistory w \<noteq> [] \<and> List.last (noteHistory w) = path) then w1
      else w1\<lparr>noteHistory := noteHistory w @ [path]\<rparr>)"

lemma opened_parts [simp]:
  "ap_store (opened E p k c w) = ap_store w" "activeFile (opened E p k c w) = Some p" "sourceContent (opened E p k c w) = c"
  "dirtyPath (opened E p k c w) = None"
  by (simp_all add: opened_def clearDirty_def Let_def)

lemma opened_history: "List.last (noteHistory (opened E p False c w)) = p"
  by (auto simp: opened_def clearDirty_def Let_def)

lemma openNote_clean:
  assumes "dirtyPath w = None \<or> dirtyPath w = Some []"
  shows "openNote E path k w =
    (case readTextFile (storage E) path no_options (ap_store w) of
       (Inl e, s) \<Rightarrow> (Inl e, w\<lparr>ap_store := s\<rparr>)
     | (Inr c, s) \<Rightarrow> (Inr (), opened E path k c (w\<lparr>ap_store := s\<rparr>)))"
  using assms
  by (auto simp: openNote_def act_simps opened_def clearDirty_def Let_def split: prod.split sum.split)

lemma saveNote_dirty [simp]: "dirtyPath (snd (saveNote E p w)) = dirtyPath w"
  by (simp add: saveNote_def act_simps)

lemma openNote_dirty:
  assumes "dirtyPath w = Some p" "p \<noteq> []"
  shows "openNote E path k w = openNote E path k (snd (saveNote E p (w\<lparr>dirtyPath := None\<rparr>)))"
proof -
  obtain x w1 where s: "saveNote E p (w\<lparr>dirtyPath := None\<rparr>) = (x, w1)" by fastforce
  have d: "dirtyPath w1 = None" using saveNote_dirty [of E p "w\<lparr>dirtyPath := None\<rparr>"] s by simp
  have "acatch (saveNote E p) (\<lambda>_. aret ()) (w\<lparr>dirtyPath := None\<rparr>) = (Inr (), w1)"
    using s by (cases x) (simp_all add: act_simps)
  then show ?thesis
    using assms d s by (simp add: openNote_def abind_apply athen_apply act_basic_apply clearDirty_def)
qed

section \<open>Names\<close>

lemma single_slash_segs:
  assumes "path_ok s"
  shows "path_ok (single_slash s)" "norm_segs (single_slash s) = norm_segs s"
proof -
  have "path_ok (single_slash s) \<and> norm_segs (single_slash s) = norm_segs s"
  proof (cases "sub_index ''//'' s")
    case None
    then show ?thesis using assms by (simp add: single_slash_def)
  next
    case (Some i)
    obtain z where z: "drop i s = ''//'' @ z" using sub_index_Some [OF Some] by (auto simp: prefix_def)
    have "drop (i + 2) s = drop 2 (drop i s)" by (simp only: drop_drop add.commute)
    then have d: "drop (i + 2) s = z" by (simp only: z) (simp add: numeral_2_eq_2)
    define u where "u = take i s"
    have s: "s = u @ ''/'' @ [] @ ''/'' @ z" using z by (metis append_take_drop_id append_Cons append_Nil u_def)
    have n: "norm_segs s = norm_segs u @ norm_segs z" "''..'' \<notin> set (split_on CHR ''/'' u)" "''..'' \<notin> set (split_on CHR ''/'' z)"
      using assms path_ok_append [of u "[] @ ''/'' @ z"] path_ok_append [of "[]" z]
      by (simp_all only: s norm_segs_append path_ok_def) (simp_all add: norm_segs_def)
    have "single_slash s = u @ ''/'' @ z" by (simp only: single_slash_def Some option.case d u_def)
    then show ?thesis using n by (simp only: norm_segs_append path_ok_append) simp
  qed
  then show "path_ok (single_slash s)" "norm_segs (single_slash s) = norm_segs s" by simp_all
qed

lemma child_path:
  assumes "path_ok dir" "seg_ok nm"
  shows "path_ok (single_slash (dir @ ''/'' @ nm))" "norm_segs (single_slash (dir @ ''/'' @ nm)) = norm_segs dir @ [nm]"
  using single_slash_segs [of "dir @ ''/'' @ nm"] path_append_seg [OF assms] by simp_all

lemma digits_show: "digits (show_nat n)"
  using digits_of_nat [of n] by (simp add: digits_def)

lemma regex_literal_self: "CHR 0x0A \<notin> set s \<Longrightarrow> CHR 0x0D \<notin> set s \<Longrightarrow> regex_literal s s"
  by (auto simp: regex_literal_def list_all2_conv_all_nth)

lemma untitled_number_self:
  assumes "CHR 0x0A \<notin> set (pfx @ extension)" "CHR 0x0D \<notin> set (pfx @ extension)"
  shows "untitled_number pfx extension (untitled_name pfx extension i) = Some i"
  using assms regex_literal_self [of pfx] regex_literal_self [of extension] digits_show [of i]
  by (auto simp: untitled_number_def untitled_name_def Let_def)

lemma find_free: "P k \<Longrightarrow> k < n \<Longrightarrow> \<exists>i. find P [0..<n] = Some i \<and> P i"
  by (cases "find P [0..<n]") (auto simp: find_None_iff find_Some_iff)

lemma fold_max_le: "m \<le> fold (\<lambda>x m. case f x of None \<Rightarrow> m | Some i \<Rightarrow> max m i) xs (m :: nat)"
proof (induction xs arbitrary: m)
  case (Cons x xs)
  have "m \<le> (case f x of None \<Rightarrow> m | Some i \<Rightarrow> max m i)" by (simp split: option.split)
  also have "\<dots> \<le> fold (\<lambda>x m. case f x of None \<Rightarrow> m | Some i \<Rightarrow> max m i) (x # xs) m"
    using Cons [of "case f x of None \<Rightarrow> m | Some i \<Rightarrow> max m i"] by simp
  finally show ?case .
qed simp

lemma fold_max_bound:
  "x \<in> set xs \<Longrightarrow> f x = Some i \<Longrightarrow> i \<le> fold (\<lambda>x m. case f x of None \<Rightarrow> m | Some i \<Rightarrow> max m i) xs (m :: nat)"
proof (induction xs arbitrary: m)
  case (Cons y ys)
  show ?case
  proof (cases "x = y")
    case True
    then show ?thesis using fold_max_le [of "max m i" f ys] Cons.prems(2) by simp
  next
    case False
    then show ?thesis using Cons by simp
  qed
qed simp

lemma lower_append [simp]: "lower (a @ b) = lower a @ lower b"
  by (simp add: lower_def)

text \<open>The generated name is free: the number after the highest one is always a candidate.\<close>

lemma next_untitled_fresh:
  assumes "CHR 0x0A \<notin> set (pfx @ extension)" "CHR 0x0D \<notin> set (pfx @ extension)"
  shows "getNextUntitledName files pfx extension \<notin> set files"
    "\<exists>i. getNextUntitledName files pfx extension = untitled_name pfx extension i"
proof -
  let ?items = "filter (\<lambda>name. starts_with (lower name) (lower pfx) \<and> (extension \<noteq> [] \<longrightarrow> ends_with (lower name) (lower extension))) files"
  let ?max = "fold (\<lambda>name m. case untitled_number pfx extension name of None \<Rightarrow> m | Some i \<Rightarrow> max m i) ?items 0"
  let ?free = "\<lambda>i. untitled_name pfx extension i \<notin> set ?items"
  have item: "untitled_name pfx extension i \<in> set files \<Longrightarrow> untitled_name pfx extension i \<in> set ?items" for i
    by (auto simp: untitled_name_def prefix_def suffix_def lower_def)
  have "?free (?max + 1)"
  proof
    assume "untitled_name pfx extension (?max + 1) \<in> set ?items"
    from fold_max_bound [where f = "untitled_number pfx extension", OF this untitled_number_self [OF assms], of 0] show False by simp
  qed
  then obtain i where i: "find ?free [0..<?max + 2] = Some i" "?free i" using find_free [of ?free "?max + 1" "?max + 2"] by auto
  have "getNextUntitledName files pfx extension = untitled_name pfx extension i"
    using i(1) by (simp add: getNextUntitledName_def Let_def)
  then show "getNextUntitledName files pfx extension \<notin> set files"
    "\<exists>i. getNextUntitledName files pfx extension = untitled_name pfx extension i"
    using item [of i] i(2) by auto
qed

lemma lower_length [simp]: "length (lower s) = length s"
  by (simp add: lower_def)

lemma slash_show: "CHR ''/'' \<notin> set (show_nat n)"
  using digits_of_nat [of n] by (auto simp: list_all_iff is_digit_def)

lemma new_note_name_fresh:
  assumes "new_note_name files name = Inr n"
  shows "n \<notin> set (map de_name files)"
    "name = None \<or> name = Some [] \<Longrightarrow> seg_ok n" "name = Some k \<Longrightarrow> k \<noteq> [] \<Longrightarrow> n = with_extension k"
proof -
  have plain: "CHR 0x0A \<notin> set (UNTITLED_NAME @ MARKDOWN_EXTENSION)" "CHR 0x0D \<notin> set (UNTITLED_NAME @ MARKDOWN_EXTENSION)"
    by (simp_all add: UNTITLED_NAME_def MARKDOWN_EXTENSION_def)
  note free = next_untitled_fresh [OF plain, of "map de_name files"]
  show "n \<notin> set (map de_name files)"
    using assms free(1) by (auto simp: new_note_name_def Let_def list_ex_iff split: if_splits)
  have "seg_ok (untitled_name UNTITLED_NAME MARKDOWN_EXTENSION i)" for i
    using slash_show [of i] by (auto simp: untitled_name_def seg_ok_def UNTITLED_NAME_def MARKDOWN_EXTENSION_def)
  then show "name = None \<or> name = Some [] \<Longrightarrow> seg_ok n"
    using assms free(2) by (auto simp: new_note_name_def split: if_splits)
  show "name = Some k \<Longrightarrow> k \<noteq> [] \<Longrightarrow> n = with_extension k"
    using assms by (auto simp: new_note_name_def Let_def split: if_splits)
qed

text \<open>The trash: where its parts lie, and what its manifest says.\<close>

lemma trash_places:
  assumes "collection w = Some c" "path_ok c"
  shows "path_ok (trashPath w)" "norm_segs (trashPath w) = norm_segs c @ [''.tactile'', ''trash'']"
    "path_ok (manifestPath w)" "norm_segs (manifestPath w) = norm_segs c @ [''.tactile'', ''trash.json'']"
    "seg_ok nm \<Longrightarrow> path_ok (trashPath w @ ''/'' @ nm) \<and> norm_segs (trashPath w @ ''/'' @ nm) = norm_segs c @ [''.tactile'', ''trash'', nm]"
proof -
  have rel: "norm_segs ''.tactile/trash'' = [''.tactile'', ''trash'']" "norm_segs ''.tactile/trash.json'' = [''.tactile'', ''trash.json'']"
    "''..'' \<notin> set (split_on CHR ''/'' ''.tactile/trash'')" "''..'' \<notin> set (split_on CHR ''/'' ''.tactile/trash.json'')"
    by (simp_all add: norm_segs_def split_on.simps)
  have paths: "trashPath w = c @ ''/'' @ ''.tactile/trash''" "manifestPath w = c @ ''/'' @ ''.tactile/trash.json''"
    using assms(1) by (simp_all add: trashPath_def manifestPath_def in_collection_def TRASH_DIR_def APP_DIR_def)
  have c: "''..'' \<notin> set (split_on CHR ''/'' c)" using assms(2) by (simp add: path_ok_def)
  show a: "path_ok (trashPath w)" "norm_segs (trashPath w) = norm_segs c @ [''.tactile'', ''trash'']"
    "path_ok (manifestPath w)" "norm_segs (manifestPath w) = norm_segs c @ [''.tactile'', ''trash.json'']"
    unfolding paths norm_segs_append path_ok_append using rel c by simp_all
  show "seg_ok nm \<Longrightarrow> path_ok (trashPath w @ ''/'' @ nm) \<and> norm_segs (trashPath w @ ''/'' @ nm) = norm_segs c @ [''.tactile'', ''trash'', nm]"
    unfolding path_ok_append norm_segs_append using a by (auto simp: path_ok_def seg_ok_def)
qed

lemma items_of_json: "items_of (items_text is) = Some is"
proof -
  have "item_of (item_json i) = Some i" for i by (simp add: item_of_def item_json_def)
  then have "those (map (item_of \<circ> item_json) is) = Some is" by (induction "is") auto
  then have items: "those (map item_of (map item_json is)) = Some is" by simp
  have pj: "parse_json (stringify j) = Some j" for j by (rule parse_print_json) simp
  have "items_of (items_text is) = (case member ''items'' (JObj [(''items'', JArr (map item_json is))]) of
      Some (JArr js) \<Rightarrow> those (map item_of js) | _ \<Rightarrow> Some [])"
    unfolding items_of_def items_text_def pj by simp
  also have "\<dots> = those (map item_of (map item_json is))" by (simp del: map_map)
  finally show ?thesis by (simp only: items)
qed

text \<open>The entries of the manifest in a store; a missing or unreadable one has none.\<close>

definition trash_entries :: "tree \<Rightarrow> string \<Rightarrow> trash_item list" where
  "trash_entries t c =
     (case t (norm_segs c @ [''.tactile'', ''trash.json'']) of
        Some (FileN b) \<Rightarrow> (case items_of (utf8_decode b) of None \<Rightarrow> [] | Some is \<Rightarrow> is)
      | _ \<Rightarrow> [])"

lemma last_segment_join: "seg_ok nm \<Longrightarrow> last_segment (a @ ''/'' @ nm) = nm"
  by (simp add: last_segment_def split_on_append seg_ok_def)

lemma last_segment_render: "segs_ok ps \<Longrightarrow> ps \<noteq> [] \<Longrightarrow> last_segment (render ps) = List.last ps"
  by (simp add: last_segment_def split_render)

text \<open>The trash can take an entry of this name.\<close>

definition trash_ready :: "tree \<Rightarrow> string \<Rightarrow> string \<Rightarrow> bool" where
  "trash_ready t c nm \<longleftrightarrow> mkdir_error True t (norm_segs c @ [''.tactile'', ''trash'']) = None
     \<and> t (norm_segs c @ [''.tactile'', ''trash'', nm]) = None
     \<and> t (norm_segs c @ [''.tactile'', ''trash.json'']) \<noteq> Some DirN"

lemma parent_render:
  assumes "segs_ok ps" "ps \<noteq> []"
  shows "path_ok (if dir_of (render ps) = [] then ''/'' else dir_of (render ps))"
    "norm_segs (if dir_of (render ps) = [] then ''/'' else dir_of (render ps)) = butlast ps"
proof -
  have segs: "segs_ok (butlast ps)" using assms(1) by (auto simp: segs_ok_def dest: in_set_butlastD)
  have "(if dir_of (render ps) = [] then ''/'' else dir_of (render ps)) = render (butlast ps)"
    using assms by (simp add: dir_of_def split_render) (auto simp: render_def join_with_Cons)
  then show "path_ok (if dir_of (render ps) = [] then ''/'' else dir_of (render ps))"
    "norm_segs (if dir_of (render ps) = [] then ''/'' else dir_of (render ps)) = butlast ps"
    using segs by simp_all
qed

lemma dir_prefixes: "tree_ok t \<Longrightarrow> t ss = Some DirN \<Longrightarrow> prefix q ss \<Longrightarrow> t q = Some DirN"
  using tree_ok_prefix [of t q] by (cases "q = ss") (auto simp: prefix_def)

lemma mkdirs_present: "tree_ok t \<Longrightarrow> t ss = Some DirN \<Longrightarrow> mkdirs ss t = t"
  by (auto simp: mkdirs_def fun_eq_iff dir_prefixes)

lemma mkdir_present: "tree_ok t \<Longrightarrow> t ss = Some DirN \<Longrightarrow> mkdir_error True t ss = None"
  by (auto simp: mkdir_error_def list_ex_iff dir_prefixes)

context storage_backend
begin

lemma open_note_clean:
  assumes "storage E = B" "inv (ap_store w)" "dirtyPath w = None \<or> dirtyPath w = Some []"
    and "path_ok q" "norm_segs q \<noteq> []" "fs (ap_store w) (norm_segs q) = Some (FileN b)"
  shows "openNote E q k w = (Inr (), opened E q k (utf8_decode b) w)"
  using openNote_clean [OF assms(3), of E q k] read_text_ok [OF assms(2,4,6,5)] assms(1) by simp

lemma open_note_saves:
  assumes "storage E = B" "inv (ap_store w)" "dirtyPath w = Some p" "p \<noteq> []" "activeFile w = Some a" "a \<noteq> []"
    and "path_ok p" "norm_segs p \<noteq> []" "write_error (fs (ap_store w)) (norm_segs p) = None"
    and "path_ok q" "norm_segs q \<noteq> []"
    and "((fs (ap_store w))(norm_segs p \<mapsto> FileN (utf8_encode (strip_title (buffer E w))))) (norm_segs q) = Some (FileN b)"
  obtains w' where "openNote E q k w = (Inr (), w')" "inv (ap_store w')"
    "fs (ap_store w') = (fs (ap_store w))(norm_segs p \<mapsto> FileN (utf8_encode (strip_title (buffer E w))))"
    "activeFile w' = Some q" "dirtyPath w' = None" "sourceContent w' = utf8_decode b"
    "k = False \<Longrightarrow> List.last (noteHistory w') = q"
proof -
  let ?w = "w\<lparr>dirtyPath := None\<rparr>"
  have buf: "buffer E ?w = buffer E w" by (simp add: buffer_def document_markdown_def)
  obtain s where s: "writeTextFile B p (strip_title (buffer E w)) no_options (ap_store w) = (Inr (), s)" "inv s"
    "fs s = (fs (ap_store w))(norm_segs p \<mapsto> FileN (utf8_encode (strip_title (buffer E w))))"
    using write_text_ok [OF assms(2,7,8,9)] by metis
  have "saveNote E p ?w = (Inr (), ?w\<lparr>ap_store := s\<rparr>)"
    using saveNote_apply [OF assms(4), of ?w a E] assms(1,5,6) s(1) buf by (simp add: act_simps)
  then have "openNote E q k w = openNote E q k (?w\<lparr>ap_store := s\<rparr>)" using openNote_dirty [OF assms(3,4)] by simp
  also have "\<dots> = (Inr (), opened E q k (utf8_decode b) (?w\<lparr>ap_store := s\<rparr>))"
    using open_note_clean [of E "?w\<lparr>ap_store := s\<rparr>" q b k] assms(1,10-12) s(2,3) by simp
  finally show ?thesis using that s(2,3) opened_history by fastforce
qed

lemma createNote_run:
  assumes "read_dir_or_empty E dirPath w = (Inr es, w)" "new_note_name es name = Inr n"
  shows "createNote E dirPath name w =
    athen (on_files (mkdir (storage E) dirPath recursively))
      (athen (on_files (writeTextFile (storage E) (single_slash (dirPath @ ''/'' @ n)) [] no_options))
        (detached (openNote E (single_slash (dirPath @ ''/'' @ n)) False))) w"
  unfolding createNote_def abind_apply assms(1) alift_def by (simp only: prod.case sum.case assms(2) Let_def)

lemma createNote_stops:
  "read_dir_or_empty E dirPath w = (Inl e, w) \<Longrightarrow> createNote E dirPath name w = (Inl e, w)"
  "read_dir_or_empty E dirPath w = (Inr es, w) \<Longrightarrow> new_note_name es name = Inl e \<Longrightarrow> createNote E dirPath name w = (Inl e, w)"
  by (simp_all add: createNote_def abind_apply alift_def)

lemma two_calls_store:
  assumes "athen (on_files m1) (athen (on_files m2) (detached k)) w = (x, w')"
    and "m1 (ap_store w) = (y1, s1)" "m2 s1 = (y2, s2)"
  shows "ap_store w' = s1 \<or> ap_store w' = s2 \<or> ap_store w' = ap_store (snd (k (w\<lparr>ap_store := s2\<rparr>)))"
  using assms by (cases y1; cases y2) (auto simp: act_simps)

text \<open>A new note never lands on an existing entry, whatever the listing and the outcome.\<close>

lemma create_note_keeps:
  assumes "storage E = B" "inv (ap_store w)" "dirtyPath w = None" "path_ok dirPath"
    and "name = None \<or> name = Some [] \<or> (\<exists>k. name = Some k \<and> seg_ok (with_extension k))"
    and "createNote E dirPath name w = (x, w')"
  shows "inv (ap_store w') \<and> files_kept {} (fs (ap_store w)) (fs (ap_store w'))"
proof -
  let ?t = "fs (ap_store w)" and ?ds = "norm_segs dirPath"
  obtain r where rd: "readDir B dirPath no_options (ap_store w) = (r, ap_store w)"
    "\<forall>e. r = Inl e \<longrightarrow> list_error ?t ?ds \<noteq> None \<and> e = StorageError (the (list_error ?t ?ds))"
    "\<forall>es. r = Inr es \<longrightarrow> list_error ?t ?ds = None \<and> listing_of ?t ?ds es"
    by (rule read_dir_result [OF assms(2,4)], rule that; assumption)
  have files: "read_dir_or_empty E dirPath w = ((if r = Inl (StorageError Not_found) then Inr [] else r), w)"
    using rd(1) assms(1) by (cases r) (auto simp: read_dir_or_empty_def act_simps)
  have step: "?thesis" if list: "read_dir_or_empty E dirPath w = (Inr es, w)"
    and absent: "\<And>n. n \<notin> set (map de_name es) \<Longrightarrow> ?t (?ds @ [n]) = None" for es
  proof (cases "new_note_name es name")
    case (Inl e)
    then show ?thesis using assms(2,6) createNote_stops(2) [OF list] by simp
  next
    case (Inr n)
    note fresh = new_note_name_fresh [OF Inr]
    have n: "seg_ok n" using assms(5) fresh(2,3) by (cases name) auto
    let ?p = "single_slash (dirPath @ ''/'' @ n)"
    have "path_ok (dirPath @ ''/'' @ n)" using assms(4) n unfolding path_ok_append
      by (auto simp: path_ok_def seg_ok_def)
    note p = single_slash_segs [OF this]
    have np: "norm_segs ?p = ?ds @ [n]" using p(2) n by (simp only: norm_segs_append norm_segs_seg)
    obtain m s1 where mk: "mkdir B dirPath recursively (ap_store w) = (m, s1)" by fastforce
    note k1 = mkdir_files [OF assms(2) mk]
    obtain y s2 where wr: "writeTextFile B ?p [] no_options s1 = (y, s2)" by fastforce
    have k2: "inv s2 \<and> fs s2 = (if y = Inr () then (fs s1)(?ds @ [n] \<mapsto> FileN (utf8_encode [])) else fs s1)"
      using writeText_law [OF _ p(1) _ wr] k1 np by (auto simp: update_ok_def split: option.splits)
    have kept: "files_kept {} ?t (fs s2)"
      using k1 k2 absent [OF fresh(1)] by (auto simp: files_kept_def)
    obtain z s3 where op: "readTextFile B ?p no_options s2 = (z, s3)" by fastforce
    have s3: "s3 = s2" using readText_law [OF _ p(1), of s2 no_options] k2 op by simp
    let ?w2 = "w\<lparr>ap_store := s2\<rparr>"
    have op2: "ap_store (snd (openNote E ?p False ?w2)) = s2"
      using openNote_clean [of ?w2 E ?p False] assms(1,3) op s3 by (simp split: sum.split)
    have "ap_store w' = s1 \<or> ap_store w' = s2 \<or> ap_store w' = ap_store (snd (openNote E ?p False ?w2))"
      using two_calls_store [OF assms(6) [unfolded createNote_run [OF list Inr] assms(1)] mk wr] .
    then have "ap_store w' = s1 \<or> ap_store w' = s2" unfolding op2 by blast
    then show ?thesis using kept k1 k2 by auto
  qed
  show ?thesis
  proof (cases "r = Inl (StorageError Not_found)")
    case True
    then have "?t ?ds = None" using rd(2) by (auto simp: list_error_def split: if_splits)
    then have "?t (?ds @ [n]) = None" for n using tree_ok_under_none [OF tree_ok [OF assms(2)]] by simp
    then show ?thesis using step [of "[]"] files True by simp
  next
    case no: False
    show ?thesis
    proof (cases r)
      case (Inl e)
      then show ?thesis using files no assms(2,6) createNote_stops(1) [of E dirPath w e] by simp
    next
      case (Inr es)
      have "?t (?ds @ [n]) = None" if "n \<notin> set (map de_name es)" for n
        using rd(3) Inr listing_absent [OF _ that] by blast
      then show ?thesis using step [of es] files no Inr by simp
    qed
  qed
qed

lemma read_manifest:
  assumes "storage E = B" "inv (ap_store w)" "collection w = Some c" "path_ok c"
  shows "readManifest E w = (Inr (trash_entries (fs (ap_store w)) c), w)"
proof -
  note p = trash_places [OF assms(3,4)]
  show ?thesis
    using readText_law [OF assms(2) p(3), of no_options] p(4) assms(1)
    by (auto simp: readManifest_def act_simps trash_entries_def read_error_def split: option.split node.split)
qed

lemma write_manifest:
  assumes "storage E = B" "inv (ap_store w)" "collection w = Some c" "path_ok c"
    and "write_error (fs (ap_store w)) (norm_segs c @ [''.tactile'', ''trash.json'']) = None"
  obtains s where "writeManifest E is w = (Inr (), w\<lparr>ap_store := s\<rparr>)" "inv s" "trash_entries (fs s) c = is"
    "\<forall>q. q \<noteq> norm_segs c @ [''.tactile'', ''trash.json''] \<longrightarrow> fs s q = fs (ap_store w) q"
    "fs s (norm_segs c @ [''.tactile'', ''trash.json'']) \<noteq> Some DirN"
proof -
  note p = trash_places [OF assms(3,4)]
  let ?text = "items_text is"
  obtain s where s: "writeTextFile B (manifestPath w) ?text (no_options\<lparr>keepVersion := Some False\<rparr>) (ap_store w) = (Inr (), s)"
    "inv s" "fs s = (fs (ap_store w))(norm_segs (manifestPath w) \<mapsto> FileN (utf8_encode ?text))"
    using write_text_ok [OF assms(2) p(3), of ?text "no_options\<lparr>keepVersion := Some False\<rparr>"] assms(5) p(4)
    by (metis append_is_Nil_conv list.distinct(1))
  show ?thesis
  proof (rule that [of s])
    show "writeManifest E is w = (Inr (), w\<lparr>ap_store := s\<rparr>)" using s(1) assms(1) by (simp add: writeManifest_def act_simps)
    show "trash_entries (fs s) c = is" using s(3) p(4) by (simp add: trash_entries_def items_of_json)
  qed (use s p(4) in simp_all)
qed

text \<open>Moving to the trash, and back.\<close>

lemma move_to_trash:
  assumes "storage E = B" "inv (ap_store w)" "collection w = Some c" "path_ok c"
    and "segs_ok ps" "ps \<noteq> []" "fs (ap_store w) ps \<noteq> None" "trash_ready (fs (ap_store w)) c (List.last ps)"
    and "\<not> prefix (norm_segs c @ [''.tactile'']) ps" "\<not> prefix ps (norm_segs c @ [''.tactile''])"
  obtains w' item where "moveToTrash E (render ps) folder w = (Inr (), w')" "inv (ap_store w')" "collection w' = Some c"
    "ti_name item = List.last ps" "originalPath item = render ps" "isFolder item = folder"
    "trash_entries (fs (ap_store w')) c = trash_entries (fs (ap_store w)) c @ [item]"
    "\<forall>q. q \<noteq> norm_segs c @ [''.tactile'', ''trash.json''] \<longrightarrow> fs (ap_store w') q
        = move_tree ps (norm_segs c @ [''.tactile'', ''trash'', List.last ps])
            (mkdirs (norm_segs c @ [''.tactile'', ''trash'']) (fs (ap_store w))) q"
    "fs (ap_store w') (norm_segs c @ [''.tactile'', ''trash.json'']) \<noteq> Some DirN"
proof -
  let ?cs = "norm_segs c" and ?t = "fs (ap_store w)" and ?nm = "List.last ps"
  let ?tr = "?cs @ [''.tactile'', ''trash'']" and ?tg = "?cs @ [''.tactile'', ''trash'', ?nm]" and ?man = "?cs @ [''.tactile'', ''trash.json'']"
  note p = trash_places [OF assms(3,4)]
  have nm: "seg_ok ?nm" using assms(5,6) by (simp add: segs_ok_def)
  note tgt = p(5) [OF nm]
  have pp: "path_ok (render ps)" "norm_segs (render ps) = ps" "last_segment (render ps) = ?nm"
    using assms(5,6) by (simp_all add: last_segment_render)
  have off: "\<not> prefix ps ?tg" "\<not> prefix ps ?man" "ps \<noteq> ?tg" "\<not> prefix ps (?cs @ [''.tactile''])"
    using assms(9,10) apart_prefix [of ps "?cs @ [''.tactile'']"] by (metis append.assoc append_Cons append_Nil prefixI prefix_order.refl)+
  obtain s1 where mk: "mkdir B (trashPath w) recursively (ap_store w) = (Inr (), s1)" "inv s1" "fs s1 = mkdirs ?tr ?t"
    using mkdir_ok [OF assms(2) p(1), of recursively] assms(8) p(2) by (metis trash_ready_def is_recursive_simps(1))
  have s1: "fs s1 ?tg = None" "fs s1 ps \<noteq> None" "fs s1 ?tr = Some DirN" "fs s1 (?cs @ [''.tactile'']) = Some DirN" "fs s1 ?man \<noteq> Some DirN"
    "fs s1 ?man = ?t ?man"
    using assms(7,8) by (auto simp: mk(3) mkdirs_def trash_ready_def)
  have ex: "exists_path B (trashPath w @ ''/'' @ ?nm) no_options s1 = (Inr False, s1)"
    using exists_iff [OF mk(2)] tgt s1(1) by simp
  have "rename_error (fs s1) (norm_segs (render ps)) (norm_segs (trashPath w @ ''/'' @ ?nm)) = None"
    using s1 off(1,3) assms(6) tgt pp by (simp add: rename_error_def butlast_append)
  then obtain s2 where rn: "rename B (render ps) (trashPath w @ ''/'' @ ?nm) no_options s1 = (Inr (), s2)" "inv s2"
    "fs s2 = move_tree ps ?tg (fs s1)"
    using rename_ok [OF mk(2) pp(1), of "trashPath w @ ''/'' @ ?nm" no_options] tgt pp(2) off(3)
    by (metis append_is_Nil_conv list.distinct(1))
  have s2: "fs s2 ?man = ?t ?man" "fs s2 (?cs @ [''.tactile'']) = Some DirN"
    using s1 off by (simp_all add: rn(3) move_tree_def)
  let ?w = "w\<lparr>ap_store := s2\<rparr>" and ?w3 = "w\<lparr>ap_store := s2, ap_clock := \<lambda>n. ap_clock w (Suc n)\<rparr>"
  let ?item = "\<lparr>ti_name = ?nm, originalPath = render ps, deletedAt = toISOString (ap_clock w 0), isFolder = folder\<rparr>"
  have rd: "readManifest E ?w = (Inr (trash_entries ?t c), ?w)"
    using read_manifest [of E ?w c] assms(1,3,4) rn(2) s2(1) by (simp add: trash_entries_def)
  have "write_error (fs s2) ?man = None" using s2 s1(5,6) by (simp add: write_error_def butlast_append)
  then obtain s3 where wr: "writeManifest E (trash_entries ?t c @ [?item]) ?w3 = (Inr (), ?w3\<lparr>ap_store := s3\<rparr>)" "inv s3"
    "trash_entries (fs s3) c = trash_entries ?t c @ [?item]" "\<forall>q. q \<noteq> ?man \<longrightarrow> fs s3 q = fs s2 q" "fs s3 ?man \<noteq> Some DirN"
    using write_manifest [of E ?w3 c "trash_entries ?t c @ [?item]"] assms(1,3,4) rn(2) by auto
  have lt: "last_segment (trashPath w @ ''/'' @ ?nm) = ?nm" using nm by (simp only: last_segment_join)
  have "moveToTrash E (render ps) folder w = (Inr (), ?w3\<lparr>ap_store := s3\<rparr>)"
    using assms(1) mk(1) ex rn(1) rd wr(1)
    by (simp add: moveToTrash_def Let_def pp(3) lt act_simps del: append_assoc append.simps)
  then show ?thesis using that [of "?w3\<lparr>ap_store := s3\<rparr>" ?item] wr(2-5) assms(3) rn(3) mk(3) by simp
qed

lemma restore_from_trash:
  assumes "storage E = B" "inv (ap_store w)" "collection w = Some c" "path_ok c"
    and "segs_ok ps" "ps \<noteq> []" "find (\<lambda>i. ti_name i = nm) (trash_entries (fs (ap_store w)) c) = Some item"
    and "originalPath item = render ps" "seg_ok nm" "fs (ap_store w) ps = None" "fs (ap_store w) (butlast ps) = Some DirN"
    and "fs (ap_store w) (norm_segs c @ [''.tactile'', ''trash'', nm]) \<noteq> None"
    and "fs (ap_store w) (norm_segs c @ [''.tactile'']) = Some DirN" "fs (ap_store w) (norm_segs c @ [''.tactile'', ''trash.json'']) \<noteq> Some DirN"
    and "\<not> prefix (norm_segs c @ [''.tactile'']) ps"
  obtains w' where "restoreFromTrash E nm w = (Inr (), w')" "inv (ap_store w')"
    "trash_entries (fs (ap_store w')) c = filter (\<lambda>i. ti_name i \<noteq> nm) (trash_entries (fs (ap_store w)) c)"
    "\<forall>q. q \<noteq> norm_segs c @ [''.tactile'', ''trash.json''] \<longrightarrow>
        fs (ap_store w') q = move_tree (norm_segs c @ [''.tactile'', ''trash'', nm]) ps (fs (ap_store w)) q"
proof -
  let ?cs = "norm_segs c" and ?t = "fs (ap_store w)"
  let ?tg = "?cs @ [''.tactile'', ''trash'', nm]" and ?man = "?cs @ [''.tactile'', ''trash.json'']"
  note p = trash_places [OF assms(3,4)]
  note tgt = p(5) [OF assms(9)]
  have pp: "path_ok (render ps)" "norm_segs (render ps) = ps" using assms(5,6) by simp_all
  have off: "\<not> prefix ?tg ps" "ps \<noteq> ?tg" "\<not> prefix ?tg ?man" "\<not> prefix ps (?cs @ [''.tactile''])" "\<not> prefix ps ?man"
  proof -
    show "\<not> prefix ?tg ps" "ps \<noteq> ?tg"
      using assms(15) by (metis append.assoc append_Cons append_Nil prefixI append_prefixD prefix_order.refl)+
    show "\<not> prefix ps (?cs @ [''.tactile''])"
      using assms(10,13) tree_ok_under_none [OF tree_ok [OF assms(2)] assms(10)] by fastforce
    then show "\<not> prefix ps ?man" using apart_prefix [of ps "?cs @ [''.tactile'']" "[''trash.json'']"] assms(15) by simp
  qed simp
  have rd: "readManifest E w = (Inr (trash_entries ?t c), w)" using read_manifest [OF assms(1-4)] .
  have ex: "exists_path B (render ps) no_options (ap_store w) = (Inr False, ap_store w)"
    using exists_iff [OF assms(2) pp(1)] assms(10) pp(2) by simp
  define parent where "parent = (if dir_of (render ps) = [] then ''/'' else dir_of (render ps))"
  have par: "path_ok parent" "norm_segs parent = butlast ps"
    using parent_render [OF assms(5,6)] assms(5,6) by (simp_all add: parent_def)
  have same: "mkdirs (butlast ps) ?t = ?t"
    using mkdirs_present [OF tree_ok [OF assms(2)] assms(11)] .
  have "mkdir_error True ?t (butlast ps) = None"
    using mkdir_present [OF tree_ok [OF assms(2)] assms(11)] .
  then obtain s1 where mk: "mkdir B parent recursively (ap_store w) = (Inr (), s1)" "inv s1" "fs s1 = ?t"
    using mkdir_ok [OF assms(2) par(1), of recursively] par(2) same by (metis is_recursive_simps(1))
  have "rename_error (fs s1) (norm_segs (trashPath w @ ''/'' @ nm)) (norm_segs (render ps)) = None"
    using off assms(6,10-12) tgt pp mk(3) by (simp add: rename_error_def)
  then obtain s2 where rn: "rename B (trashPath w @ ''/'' @ nm) (render ps) no_options s1 = (Inr (), s2)" "inv s2"
    "fs s2 = move_tree ?tg ps ?t"
    using rename_ok [OF mk(2), of "trashPath w @ ''/'' @ nm" "render ps" no_options] tgt pp off(2) assms(6) mk(3) by metis
  let ?w2 = "w\<lparr>ap_store := s2\<rparr>"
  have "write_error (fs s2) ?man = None"
    using assms(13,14) off by (simp add: write_error_def butlast_append rn(3) move_tree_def)
  then obtain s3 where wr: "writeManifest E (filter (\<lambda>i. ti_name i \<noteq> nm) (trash_entries ?t c)) ?w2 = (Inr (), ?w2\<lparr>ap_store := s3\<rparr>)"
    "inv s3" "trash_entries (fs s3) c = filter (\<lambda>i. ti_name i \<noteq> nm) (trash_entries ?t c)" "\<forall>q. q \<noteq> ?man \<longrightarrow> fs s3 q = fs s2 q"
    using write_manifest [of E ?w2 c "filter (\<lambda>i. ti_name i \<noteq> nm) (trash_entries ?t c)"] assms(1,3,4) rn(2) by auto
  have "restoreFromTrash E nm w = (Inr (), w\<lparr>ap_store := s3\<rparr>)"
    using assms(1,7,8) rd ex mk(1) rn(1) wr(1)
    by (simp add: restoreFromTrash_def Let_def act_simps trashPath_def in_collection_def flip: parent_def del: append_assoc append.simps)
  then show ?thesis using that [of "w\<lparr>ap_store := s3\<rparr>"] wr(2-4) rn(3) by simp
qed

end

section \<open>Properties\<close>


text \<open>
  (C9) Closing a note loses the edits that were not saved yet: after \<open>closeNote\<close> the save timer does
  nothing, and opening the next note clears the dirty mark without writing, so the storage is as before
  the edit while the buffer holds the other note.
\<close>

theorem close_note_loses_edits:
  assumes "storage E = idb_backend" and "idb_inv (ap_store w)" and "dirtyPath w = Some p" and "p \<noteq> []"
    and "path_ok q" and "norm_segs q \<noteq> []" and "idb_fs (ap_store w) (norm_segs q) = Some (FileN b)"
    and "closeNote w = (Inr (), w1)" and "save_timer_fires E w1 = (x, w2)" and "openNote E q False w2 = (y, w3)"
  shows "ap_store w3 = ap_store w \<and> dirtyPath w3 = None \<and> sourceContent w3 = utf8_decode b \<and> activeFile w3 = Some q"
proof -
  have w1: "w1 = w\<lparr>activeFile := None\<rparr>" using assms(8) by (simp add: closeNote_def act_simps)
  have w2: "ap_store w2 = ap_store w" "dirtyPath w2 = Some p" "activeFile w2 = None"
    using assms(3,9) by (auto simp: w1 save_timer_fires_def Let_def split: option.splits prod.splits if_splits)
  have "openNote E q False w2 = openNote E q False (w2\<lparr>dirtyPath := None\<rparr>)"
    using openNote_dirty [OF w2(2) assms(4), of E q False] w2(3) by (simp add: saveNote_def)
  also have "\<dots> = (Inr (), opened E q False (utf8_decode b) (w2\<lparr>dirtyPath := None\<rparr>))"
    using idb.open_note_clean [of E "w2\<lparr>dirtyPath := None\<rparr>" q b False] assms(1,2,5-7) w2 by simp
  finally show ?thesis using assms(10) w2(1) by simp
qed


text \<open>
  (C6) The trash gives back what it took: an entry moved to the trash is gone from its place, lies in the
  trash with its bytes, and restoring it puts the whole subtree back and leaves the manifest as it was;
  nothing outside the internal directory differs.
\<close>

theorem trash_roundtrip:
  assumes "storage E = idb_backend" and "idb_inv (ap_store w)" and "collection w = Some c" and "path_ok c"
    and "idb_fs (ap_store w) (norm_segs c) = Some DirN" and "segs_ok ps" and "ps \<noteq> []" and "idb_fs (ap_store w) ps \<noteq> None"
    and "trash_ready (idb_fs (ap_store w)) c (List.last ps)"
    and "\<not> prefix (norm_segs c @ [''.tactile'']) ps" and "\<not> prefix ps (norm_segs c @ [''.tactile''])"
    and "List.last ps \<notin> ti_name ` set (trash_entries (idb_fs (ap_store w)) c)"
  shows "\<exists>w1 w2. moveToTrash E (render ps) folder w = (Inr (), w1)
    \<and> idb_fs (ap_store w1) ps = None
    \<and> idb_fs (ap_store w1) (norm_segs c @ [''.tactile'', ''trash'', List.last ps]) = idb_fs (ap_store w) ps
    \<and> restoreFromTrash E (List.last ps) w1 = (Inr (), w2)
    \<and> (\<forall>q. \<not> prefix (norm_segs c @ [''.tactile'']) q \<longrightarrow> idb_fs (ap_store w2) q = idb_fs (ap_store w) q)
    \<and> trash_entries (idb_fs (ap_store w2)) c = trash_entries (idb_fs (ap_store w)) c"
proof -
  let ?cs = "norm_segs c" and ?t = "idb_fs (ap_store w)" and ?nm = "List.last ps"
  let ?tac = "?cs @ [''.tactile'']" and ?tr = "?cs @ [''.tactile'', ''trash'']"
  let ?tg = "?cs @ [''.tactile'', ''trash'', ?nm]" and ?man = "?cs @ [''.tactile'', ''trash.json'']"
  obtain w1 item where m: "moveToTrash E (render ps) folder w = (Inr (), w1)" "idb_inv (ap_store w1)" "collection w1 = Some c"
    "ti_name item = ?nm" "originalPath item = render ps"
    "trash_entries (idb_fs (ap_store w1)) c = trash_entries ?t c @ [item]"
    "\<forall>q. q \<noteq> ?man \<longrightarrow> idb_fs (ap_store w1) q = move_tree ps ?tg (mkdirs ?tr ?t) q"
    "idb_fs (ap_store w1) ?man \<noteq> Some DirN"
    by (rule idb.move_to_trash [OF assms(1-4,6-11), of folder]) (rule that, assumption+)
  have under: "prefix ?tac (?tg @ z)" "prefix ?tac ?man" "prefix ?tac ?tr" for z by (simp_all add: prefix_def)
  have off: "\<not> prefix ps ?tg" "\<not> prefix ps ?man" "\<not> prefix ps ?tr"
    using apart_prefix [OF assms(11,10), of "[''trash'', ?nm]"] apart_prefix [OF assms(11,10), of "[''trash.json'']"]
      apart_prefix [OF assms(11,10), of "[''trash'']"] by simp_all
  have off': "\<not> prefix ?tg ps" "ps \<noteq> ?man"
  proof -
    show "\<not> prefix ?tg ps" using assms(10) prefix_order.trans [of ?tac ?tg ps] under(1) [of "[]"] by auto
    show "ps \<noteq> ?man" using off(2) by blast
  qed
  have t1: "idb_fs (ap_store w1) q = (if prefix ?tg q then mkdirs ?tr ?t (ps @ drop (length ?tg) q) else if prefix ps q then None else mkdirs ?tr ?t q)"
    if "q \<noteq> ?man" for q using m(7) that by (simp add: move_tree_def)
  have mk: "mkdirs ?tr ?t (ps @ z) = ?t (ps @ z)" for z
    using off(3) append_prefixD [of ps z ?tr] by (auto simp: mkdirs_def)
  have at: "idb_fs (ap_store w1) ps = None" "idb_fs (ap_store w1) ?tg = ?t ps"
    using t1 [OF off'(2)] t1 [of ?tg] off'(1) mk [of "[]"] by simp_all
  have dirs: "idb_fs (ap_store w1) q = Some DirN" if q: "prefix q ?tac" for q
  proof -
    have len: "length q \<le> length ?cs + 1" using prefix_length_le [OF q] by simp
    have "q \<noteq> ?man" using len by auto
    moreover have "\<not> prefix ?tg q" using len prefix_length_le [of ?tg q] by auto
    moreover have "\<not> prefix ps q" using prefix_order.trans [OF _ q, of ps] assms(11) by blast
    moreover have "prefix q ?tr" using prefix_order.trans [OF q under(3)] .
    ultimately show ?thesis using t1 by (simp add: mkdirs_def)
  qed
  have frame: "idb_fs (ap_store w1) q = ?t q" if q: "\<not> prefix ps q" "\<not> prefix ?tac q" for q
  proof (cases "prefix q ?tac")
    case True
    then have "prefix q ?cs" using q(2) by (auto simp: prefix_snoc)
    then have "?t q = Some DirN" using dir_prefixes [OF idb.tree_ok [OF assms(2)] assms(5)] by blast
    then show ?thesis using dirs [OF True] by simp
  next
    case False
    have "q \<noteq> ?man" "\<not> prefix ?tg q" using q(2) under(2) prefix_order.trans [OF under(1) [of "[]"], of q] by auto
    moreover have "\<not> prefix q ?tr" using apart_prefix [OF False q(2), of "[''trash'']"] by simp
    ultimately show ?thesis using t1 q(1) by (simp add: mkdirs_def)
  qed
  have parent: "idb_fs (ap_store w1) (butlast ps) = Some DirN"
  proof -
    have "?t (butlast ps) = Some DirN" using tree_okD(4) [OF idb.tree_ok [OF assms(2)]] assms(7,8) by auto
    moreover have "\<not> prefix ps (butlast ps)" using assms(7) prefix_length_le [of ps "butlast ps"] by (cases ps rule: rev_cases) auto
    moreover have "\<not> prefix ?tac (butlast ps)" using assms(10) prefix_order.trans [OF _ prefixeq_butlast, of ?tac ps] by blast
    ultimately show ?thesis using frame by simp
  qed
  have found: "find (\<lambda>i. ti_name i = ?nm) (trash_entries (idb_fs (ap_store w1)) c) = Some item"
    unfolding m(6) using assms(12) m(4) by (subst find_skip) (force, simp)
  have nm: "seg_ok ?nm" using assms(6,7) by (simp add: segs_ok_def)
  obtain w2 where r: "restoreFromTrash E ?nm w1 = (Inr (), w2)" "idb_inv (ap_store w2)"
    "trash_entries (idb_fs (ap_store w2)) c = filter (\<lambda>i. ti_name i \<noteq> ?nm) (trash_entries (idb_fs (ap_store w1)) c)"
    "\<forall>q. q \<noteq> ?man \<longrightarrow> idb_fs (ap_store w2) q = move_tree ?tg ps (idb_fs (ap_store w1)) q"
    using idb.restore_from_trash [OF assms(1) m(2,3) assms(4,6,7) found m(5) nm at(1) parent _ dirs m(8) assms(10)] at(2) assms(8)
    by auto
  have "idb_fs (ap_store w2) q = ?t q" if q: "\<not> prefix ?tac q" for q
  proof -
    have "q \<noteq> ?man" "\<not> prefix ?tg q" using q under(2) prefix_order.trans [OF under(1) [of "[]"], of q] by auto
    then show ?thesis
      using r(4) frame q t1 [of "?tg @ drop (length ps) q"] mk
      by (auto simp: move_tree_def prefix_def)
  qed
  moreover have "trash_entries (idb_fs (ap_store w2)) c = trash_entries ?t c"
    using r(3) m(4,6) assms(12) by (simp add: filter_id_conv) force
  ultimately show ?thesis using m(1) at r(1) by blast
qed


section \<open>Witnesses\<close>

definition note_store :: idb where
  "note_store = snd (idb_writeFile ''/b'' [66] no_options (snd (idb_writeFile ''/a'' [65] no_options (empty_idb (\<lambda>n. n)))))"

definition note_env :: "(idb, string) app_env" where
  "note_env = \<lparr>storage = idb_backend, moveToSystemTrash = None, parse_doc = (\<lambda>s. s), getMarkdown = (\<lambda>d. d)\<rparr>"

definition note_app :: "string option \<Rightarrow> (idb, string) app" where
  "note_app d = \<lparr>ap_store = note_store, activeFile = Some ''/a'', noteHistory = [], ed_instance = Some ''hi'', ed_editable = True,
     dirtyPath = d, saveGeneration = 1, saveEvents = 0, ed_timer = Some (''/a'', 1), editorMode = Edit, sourceContent = [],
     editorSearchActive = False, noteDetailTab = Toc, isNoteDetailSidebarOpen = False, collection = Some ''/'', collectionEntries = [],
     trash_dir = Trash_tactile, auto_save = True, ap_toasts = [], ap_clock = (\<lambda>n. n)\<rparr>"

lemma note_demo [simp]:
  "storage note_env = idb_backend" "ap_store (note_app d) = note_store" "activeFile (note_app d) = Some ''/a''"
  "dirtyPath (note_app d) = d" "collection (note_app d) = Some ''/''" "buffer note_env (note_app d) = ''hi''"
  by (simp_all add: note_env_def note_app_def buffer_def document_markdown_def)

lemma note_paths: "path_ok ''/''" "norm_segs ''/'' = []" "path_ok ''/a''" "norm_segs ''/a'' = [''a'']" "path_ok ''/b''" "norm_segs ''/b'' = [''b'']"
  by (simp_all add: path_ok_def norm_segs_def)

lemma note_store_holds: "idb_inv note_store" "idb_fs note_store = empty_tree([''a''] \<mapsto> FileN [65], [''b''] \<mapsto> FileN [66])"
proof -
  obtain s where s: "idb_writeFile ''/a'' [65] no_options (empty_idb (\<lambda>n. n)) = (Inr (), s)" "idb_inv s" "idb_fs s = empty_tree([''a''] \<mapsto> FileN [65])"
    using idb.write_file_ok [of "empty_idb (\<lambda>n. n)" "''/a''" "[65]" no_options] note_paths
    by (auto simp: write_error_def empty_tree_def idb_backend_def)
  obtain s' where "idb_writeFile ''/b'' [66] no_options s = (Inr (), s')" "idb_inv s'" "idb_fs s' = (idb_fs s)([''b''] \<mapsto> FileN [66])"
    using idb.write_file_ok [of s "''/b''" "[66]" no_options] note_paths s
    by (auto simp: write_error_def empty_tree_def idb_backend_def)
  then show "idb_inv note_store" "idb_fs note_store = empty_tree([''a''] \<mapsto> FileN [65], [''b''] \<mapsto> FileN [66])"
    using s by (simp_all add: note_store_def)
qed


theorem close_note_loses_edits_witness:
  "ap_store (snd (openNote note_env ''/b'' False (snd (save_timer_fires note_env (snd (closeNote (note_app (Some ''/a'')))))))) = note_store"
proof -
  let ?w1 = "snd (closeNote (note_app (Some ''/a'')))"
  let ?w2 = "snd (save_timer_fires note_env ?w1)"
  have "closeNote (note_app (Some ''/a'')) = (Inr (), ?w1)" by (simp add: closeNote_def act_simps)
  from close_note_loses_edits [OF _ _ _ _ _ _ _ this, of note_env "''/a''" "''/b''" "[66]" "fst (save_timer_fires note_env ?w1)" ?w2
      "fst (openNote note_env ''/b'' False ?w2)" "snd (openNote note_env ''/b'' False ?w2)"]
  show ?thesis by (simp add: note_store_holds note_paths)
qed


theorem trash_roundtrip_witness:
  "\<exists>w1 w2. moveToTrash note_env ''/a'' False (note_app None) = (Inr (), w1) \<and> idb_fs (ap_store w1) [''a''] = None
    \<and> idb_fs (ap_store w1) [''.tactile'', ''trash'', ''a''] = Some (FileN [65])
    \<and> restoreFromTrash note_env ''a'' w1 = (Inr (), w2) \<and> idb_fs (ap_store w2) [''a''] = Some (FileN [65])"
proof -
  have r: "render [''a''] = ''/a''" by (simp add: render_def)
  have "trash_entries (idb_fs note_store) ''/'' = []" "trash_ready (idb_fs note_store) ''/'' ''a''"
    by (simp_all add: trash_entries_def trash_ready_def note_store_holds note_paths empty_tree_def mkdir_error_def)
  then show ?thesis
    using trash_roundtrip [of note_env "note_app None" "''/''" "[''a'']" False, unfolded r]
    by (force simp: note_store_holds note_paths empty_tree_def segs_ok_def seg_ok_def)
qed

end
