(* ===== verification/Search_Replace.thy ===== *)
theory Search_Replace
  imports Prelude
begin

text \<open>
  Find and replace in the editor (\<open>components/shared/editor/extensions/searchAndReplace.ts\<close>). The document
  belongs to the editor library: what the extension sees of it is the sequence of nodes \<open>descendants\<close>
  visits with their positions, and what it does to it is \<open>insertText\<close>. A position counts the tokens of the
  document before it: one for each character of text and one for each border of another node. The regular
  expression engine is a parameter with the contract of \<open>matchAll\<close>.
\<close>

section \<open>Searching\<close>

datatype pm_token = Ch char | Border

datatype visited = Text_node string | Other_node

type_synonym range = "int \<times> int"

text \<open>\<open>matchAll\<close>: source, case sensitivity and text to the matches with their indexes.\<close>

type_synonym regex_engine = "string \<Rightarrow> bool \<Rightarrow> string \<Rightarrow> (nat \<times> string) list"

definition escape_regex :: "string \<Rightarrow> string" where
  "escape_regex s = concat (map (\<lambda>c. if c \<in> set ''.*+?^${}()|[]'' \<or> c = CHR 0x5C then [CHR 0x5C, c] else [c]) s)"

definition getRegex :: "string \<Rightarrow> bool \<Rightarrow> bool \<Rightarrow> string \<times> bool" where
  "getRegex s disableRegex caseSensitive = (if disableRegex then escape_regex s else s, caseSensitive)"

text \<open>The array of texts, the slot of the current index being the last one; a hole is \<open>None\<close>.\<close>

fun gather :: "(visited \<times> nat) list \<Rightarrow> (string \<times> nat) option list \<Rightarrow> (string \<times> nat) option list" where
  "gather [] nodes = nodes"
| "gather ((Text_node t, pos) # vs) nodes =
     gather vs (butlast nodes @ [case List.last nodes of Some (text, p) \<Rightarrow> Some (text @ t, p) | None \<Rightarrow> Some (t, pos)])"
| "gather ((Other_node, pos) # vs) nodes = gather vs (nodes @ [None])"

definition results_of :: "regex_engine \<Rightarrow> string \<times> bool \<Rightarrow> string \<times> nat \<Rightarrow> range list" where
  "results_of M searchTerm element =
     (case element of (text, pos) \<Rightarrow>
        map (\<lambda>(i, m). (int pos + int i, int pos + int i + int (length m)))
          (filter (\<lambda>(i, m). trim m \<noteq> []) (M (fst searchTerm) (snd searchTerm) text)))"

definition search_results :: "regex_engine \<Rightarrow> (visited \<times> nat) list \<Rightarrow> string \<times> bool \<Rightarrow> range list" where
  "search_results M visits searchTerm =
     concat (map (results_of M searchTerm) (List.map_filter (\<lambda>x. x) (gather visits [None])))"

definition decorations_of :: "string \<Rightarrow> int \<Rightarrow> range list \<Rightarrow> (range \<times> string) list" where
  "decorations_of searchResultClass resultIndex results =
     map (\<lambda>i. (results ! i, if int i = resultIndex then searchResultClass @ '' '' @ searchResultClass @ ''-current'' else searchResultClass))
       [0..<length results]"

definition processSearches ::
    "regex_engine \<Rightarrow> (visited \<times> nat) list \<Rightarrow> string \<times> bool \<Rightarrow> string \<Rightarrow> int \<Rightarrow> (range \<times> string) list \<times> range list" where
  "processSearches M visits searchTerm searchResultClass resultIndex =
     (let results = search_results M visits searchTerm
      in (decorations_of searchResultClass resultIndex results, results))"

section \<open>Replacing\<close>

text \<open>A transaction \<open>'tr\<close> with the \<open>insertText\<close> of the editor library.\<close>

type_synonym 'tr insert_text = "string \<Rightarrow> int \<Rightarrow> int \<Rightarrow> 'tr \<Rightarrow> 'tr"

definition replace_first :: "'tr insert_text \<Rightarrow> string \<Rightarrow> range list \<Rightarrow> 'tr \<Rightarrow> 'tr" where
  "replace_first ins replaceTerm results tr =
     (case results of [] \<Rightarrow> tr | (from, to) # _ \<Rightarrow> ins replaceTerm from to tr)"

definition rebaseNextResult :: "string \<Rightarrow> nat \<Rightarrow> int \<Rightarrow> range list \<Rightarrow> (int \<times> range list) option" where
  "rebaseNextResult replaceTerm index lastOffset results =
     (let nextIndex = index + 1 in
      if nextIndex \<ge> length results then None
      else
        let (currentFrom, currentTo) = results ! index;
            offset = currentTo - currentFrom - int (length replaceTerm) + lastOffset;
            (from, to) = results ! nextIndex
        in Some (offset, results[nextIndex := (from - offset, to - offset)]))"

definition replace_step :: "'tr insert_text \<Rightarrow> string \<Rightarrow> nat \<Rightarrow> int \<times> range list \<times> 'tr \<Rightarrow> int \<times> range list \<times> 'tr" where
  "replace_step ins replaceTerm i st =
     (case st of (offset, resultsCopy, tr) \<Rightarrow>
      case resultsCopy ! i of (from, to) \<Rightarrow>
      let tr = ins replaceTerm from to tr in
      case rebaseNextResult replaceTerm i offset resultsCopy of
        None \<Rightarrow> (offset, resultsCopy, tr)
      | Some (offset, resultsCopy) \<Rightarrow> (offset, resultsCopy, tr))"

definition replaceAll :: "'tr insert_text \<Rightarrow> string \<Rightarrow> range list \<Rightarrow> 'tr \<Rightarrow> 'tr" where
  "replaceAll ins replaceTerm results tr =
     (if results = [] then tr
      else snd (snd (fold (replace_step ins replaceTerm) [0..<length results] (0, results, tr))))"

section \<open>The commands\<close>

record search_storage =
  searchTerm :: string
  replaceTerm :: string
  results :: "range list"
  lastSearchTerm :: string
  caseSensitive :: bool
  lastCaseSensitive :: bool
  resultIndex :: int
  lastResultIndex :: int

definition addStorage :: search_storage where
  "addStorage = \<lparr>searchTerm = [], replaceTerm = [], results = [], lastSearchTerm = [], caseSensitive = False,
     lastCaseSensitive = False, resultIndex = 0, lastResultIndex = 0\<rparr>"

definition setSearchTerm :: "string \<Rightarrow> search_storage \<Rightarrow> search_storage" where
  "setSearchTerm t st = st\<lparr>searchTerm := t\<rparr>"

definition setReplaceTerm :: "string \<Rightarrow> search_storage \<Rightarrow> search_storage" where
  "setReplaceTerm t st = st\<lparr>replaceTerm := t\<rparr>"

definition setCaseSensitive :: "bool \<Rightarrow> search_storage \<Rightarrow> search_storage" where
  "setCaseSensitive b st = st\<lparr>caseSensitive := b\<rparr>"

definition resetIndex :: "search_storage \<Rightarrow> search_storage" where
  "resetIndex st = st\<lparr>resultIndex := 0\<rparr>"

definition in_results :: "int \<Rightarrow> search_storage \<Rightarrow> bool" where
  "in_results i st \<longleftrightarrow> 0 \<le> i \<and> i < int (length (results st))"

definition nextSearchResult :: "search_storage \<Rightarrow> search_storage" where
  "nextSearchResult st =
     (let nextIndex = resultIndex st + 1 in
      st\<lparr>resultIndex := if in_results nextIndex st then nextIndex else 0\<rparr>)"

definition previousSearchResult :: "search_storage \<Rightarrow> search_storage" where
  "previousSearchResult st =
     (let prevIndex = resultIndex st - 1 in
      st\<lparr>resultIndex := if in_results prevIndex st then prevIndex else int (length (results st)) - 1\<rparr>)"

definition setSearchResult :: "int \<Rightarrow> search_storage \<Rightarrow> search_storage" where
  "setSearchResult index st = (if in_results index st then st\<lparr>resultIndex := index\<rparr> else st)"

definition replace_command :: "'tr insert_text \<Rightarrow> search_storage \<Rightarrow> 'tr \<Rightarrow> 'tr" where
  "replace_command ins st = replace_first ins (replaceTerm st) (results st)"

definition replaceAll_command :: "'tr insert_text \<Rightarrow> search_storage \<Rightarrow> 'tr \<Rightarrow> 'tr" where
  "replaceAll_command ins st = replaceAll ins (replaceTerm st) (results st)"

text \<open>The plugin state after a transaction: the decorations, searched again when something changed.\<close>

definition plugin_apply ::
    "regex_engine \<Rightarrow> bool \<Rightarrow> string \<Rightarrow> (visited \<times> nat) list \<Rightarrow> bool \<Rightarrow> (range \<times> string) list \<Rightarrow> search_storage
       \<Rightarrow> (range \<times> string) list \<times> search_storage" where
  "plugin_apply M disableRegex searchResultClass visits docChanged oldState st =
     (if \<not> docChanged \<and> lastSearchTerm st = searchTerm st \<and> lastCaseSensitive st = caseSensitive st
         \<and> lastResultIndex st = resultIndex st
      then (oldState, st)
      else
        let st = st\<lparr>lastSearchTerm := searchTerm st, lastCaseSensitive := caseSensitive st, lastResultIndex := resultIndex st\<rparr> in
        if searchTerm st = [] then ([], st\<lparr>results := []\<rparr>)
        else
          case processSearches M visits (getRegex (searchTerm st) disableRegex (caseSensitive st)) searchResultClass (resultIndex st)
          of (decorations, rs) \<Rightarrow> (decorations, st\<lparr>results := rs\<rparr>))"

text \<open>The term the search panel sets: the special characters removed, between word boundaries on request.\<close>

definition panel_term :: "bool \<Rightarrow> string \<Rightarrow> string" where
  "panel_term wholeWord value =
     (let filteredValue = filter (\<lambda>c. c \<notin> set ''.*+?^${}()|[]'' \<and> c \<noteq> CHR 0x5C) value
      in if wholeWord then [CHR 0x5C, CHR ''b''] @ filteredValue @ [CHR 0x5C, CHR ''b''] else filteredValue)"

section \<open>Contracts of the library\<close>

definition matches_ok :: "string \<Rightarrow> (nat \<times> string) list \<Rightarrow> bool" where
  "matches_ok text ms \<longleftrightarrow> sorted_wrt (\<lambda>(i, m) (j, _). i + length m \<le> j) ms
     \<and> (\<forall>(i, m) \<in> set ms. i + length m \<le> length text \<and> take (length m) (drop i text) = m)"

definition engine_ok :: "regex_engine \<Rightarrow> bool" where
  "engine_ok M \<longleftrightarrow> (\<forall>source cs text. matches_ok text (M source cs text))"

text \<open>
  A visit in document order: the characters of a text node stand at its position, and text nodes that follow
  each other without another node in between are adjacent.
\<close>

fun visits_ok :: "pm_token list \<Rightarrow> nat \<Rightarrow> bool \<Rightarrow> (visited \<times> nat) list \<Rightarrow> bool" where
  "visits_ok doc k inText [] = True"
| "visits_ok doc k inText ((Other_node, pos) # vs) = visits_ok doc k False vs"
| "visits_ok doc k inText ((Text_node t, pos) # vs) =
     ((if inText then pos = k else k \<le> pos) \<and> pos + length t \<le> length doc
      \<and> take (length t) (drop pos doc) = map Ch t \<and> visits_ok doc (pos + length t) True vs)"

definition insert_ok :: "'tr insert_text \<Rightarrow> ('tr \<Rightarrow> pm_token list) \<Rightarrow> bool" where
  "insert_ok ins tokens \<longleftrightarrow> (\<forall>text from to tr. 0 \<le> from \<longrightarrow> from \<le> to \<longrightarrow> to \<le> int (length (tokens tr)) \<longrightarrow>
     tokens (ins text from to tr) = take (nat from) (tokens tr) @ map Ch text @ drop (nat to) (tokens tr))"

text \<open>All ranges replaced at once, in a document of which the first \<open>k\<close> tokens are done.\<close>

fun subst_ranges :: "'a list \<Rightarrow> nat \<Rightarrow> (nat \<times> nat) list \<Rightarrow> 'a list \<Rightarrow> 'a list" where
  "subst_ranges new k [] doc = drop k doc"
| "subst_ranges new k ((f, t) # rs) doc = take (f - k) (drop k doc) @ new @ subst_ranges new t rs doc"

definition int_range :: "nat \<times> nat \<Rightarrow> range" where
  "int_range r = (int (fst r), int (snd r))"

fun ranges_ok :: "nat \<Rightarrow> (nat \<times> nat) list \<Rightarrow> nat \<Rightarrow> bool" where
  "ranges_ok k [] n = (k \<le> n)"
| "ranges_ok k ((f, t) # rs) n = (k \<le> f \<and> f \<le> t \<and> t \<le> n \<and> ranges_ok t rs n)"

section \<open>Replacing all results\<close>

text \<open>The loop over the original ranges, each shifted by what the replacements before it changed.\<close>

fun shifted :: "'tr insert_text \<Rightarrow> string \<Rightarrow> int \<Rightarrow> range list \<Rightarrow> 'tr \<Rightarrow> 'tr" where
  "shifted ins rt off [] tr = tr"
| "shifted ins rt off ((f, t) # rs) tr =
     shifted ins rt (t - f - int (length rt) + off) rs (ins rt (f - off) (t - off) tr)"

lemma replace_loop:
  assumes "i < length orig" "length rs = length orig" "drop (Suc i) rs = drop (Suc i) orig"
    and "rs ! i = (fst (orig ! i) - off, snd (orig ! i) - off)"
  shows "snd (snd (fold (replace_step ins rt) [i..<length orig] (off, rs, tr))) = shifted ins rt off (drop i orig) tr"
  using assms
proof (induction "length orig - i" arbitrary: i rs off tr)
  case (Suc k)
  obtain f t where ft: "orig ! i = (f, t)" by (cases "orig ! i")
  have d: "drop i orig = (f, t) # drop (Suc i) orig" using Suc.prems(1) ft by (simp add: Cons_nth_drop_Suc [symmetric])
  have up: "[i..<length orig] = i # [Suc i..<length orig]" using Suc.prems(1) by (simp add: upt_conv_Cons)
  let ?tr = "ins rt (f - off) (t - off) tr" and ?off = "t - f - int (length rt) + off"
  show ?case
  proof (cases "Suc i < length orig")
    case True
    have nxt: "rs ! Suc i = orig ! Suc i" using Suc.prems(2,3) True by (metis Cons_nth_drop_Suc list.inject)
    let ?rs = "rs[Suc i := (fst (orig ! Suc i) - ?off, snd (orig ! Suc i) - ?off)]"
    have "replace_step ins rt i (off, rs, tr) = (?off, ?rs, ?tr)"
      using True Suc.prems ft nxt
      by (simp add: replace_step_def rebaseNextResult_def Let_def algebra_simps split: prod.split)
    moreover have "snd (snd (fold (replace_step ins rt) [Suc i..<length orig] (?off, ?rs, ?tr)))
        = shifted ins rt ?off (drop (Suc i) orig) ?tr"
    proof (rule Suc.hyps(1))
      show "drop (Suc (Suc i)) ?rs = drop (Suc (Suc i)) orig" using arg_cong [OF Suc.prems(3), of "drop 1"] by simp
      show "k = length orig - Suc i" using Suc.hyps(2) by simp
    qed (use True Suc.prems(2) in simp_all)
    ultimately show ?thesis by (simp add: up d)
  next
    case False
    then have n: "length orig = Suc i" using Suc.prems(1) by simp
    have "replace_step ins rt i (off, rs, tr) = (off, rs, ?tr)"
      using Suc.prems ft n by (simp add: replace_step_def rebaseNextResult_def Let_def)
    then show ?thesis using d n by (simp add: up)
  qed
qed simp

lemma replaceAll_shifted: "replaceAll ins rt rs tr = shifted ins rt 0 rs tr"
  using replace_loop [of 0 rs rs 0 ins rt tr] by (cases rs) (auto simp: replaceAll_def)

lemma shifted_subst:
  assumes "insert_ok ins tokens" "ranges_ok k rs (length doc)" "tokens tr = pre @ drop k doc" "int (length pre) = int k - off"
  shows "tokens (shifted ins rt off (map int_range rs) tr) = pre @ subst_ranges (map Ch rt) k rs doc"
  using assms(2-4)
proof (induction rs arbitrary: k off tr pre)
  case (Cons r rs)
  obtain f t where r: "r = (f, t)" by (cases r)
  have b: "k \<le> f" "f \<le> t" "t \<le> length doc" "ranges_ok t rs (length doc)" using Cons.prems(1) by (simp_all add: r)
  let ?f = "int f - off" and ?t = "int t - off"
  have nf: "nat ?f = length pre + (f - k)" "nat ?t = length pre + (t - k)" using Cons.prems(3) b by linarith+
  have bounds: "0 \<le> ?f" "?f \<le> ?t" "?t \<le> int (length (tokens tr))" using Cons.prems(2,3) b by simp_all
  let ?tr = "ins rt ?f ?t tr" and ?pre = "pre @ take (f - k) (drop k doc) @ map Ch rt"
  have "tokens ?tr = take (nat ?f) (tokens tr) @ map Ch rt @ drop (nat ?t) (tokens tr)"
    using assms(1) bounds unfolding insert_ok_def by blast
  also have "\<dots> = ?pre @ drop t doc" using b by (simp add: nf Cons.prems(2))
  finally have tok: "tokens ?tr = ?pre @ drop t doc" .
  have "int (length ?pre) = int t - (int t - int f - int (length rt) + off)"
    using Cons.prems(3) b by simp
  from Cons.IH [OF b(4) tok this] show ?case by (simp add: r int_range_def)
qed simp

section \<open>The results of a search\<close>

lemma ranges_ok_iff:
  "ranges_ok k rs n \<longleftrightarrow> k \<le> n \<and> sorted_wrt (\<lambda>(f, t) (f', t'). t \<le> f') rs \<and> (\<forall>(f, t) \<in> set rs. k \<le> f \<and> f \<le> t \<and> t \<le> n)"
proof (induction rs arbitrary: k)
  case (Cons r rs)
  obtain f t where r: "r = (f, t)" by (cases r)
  show ?case unfolding r by (simp add: Cons.IH) (auto simp: case_prod_beta dest: bspec)
qed simp

definition located :: "pm_token list \<Rightarrow> string \<times> nat \<Rightarrow> bool" where
  "located doc g \<longleftrightarrow> snd g + length (fst g) \<le> length doc \<and> take (length (fst g)) (drop (snd g) doc) = map Ch (fst g)"

definition groups_ok :: "pm_token list \<Rightarrow> nat \<Rightarrow> (string \<times> nat) list \<Rightarrow> bool" where
  "groups_ok doc k gs \<longleftrightarrow> sorted_wrt (\<lambda>(t, p) (u, q). p + length t \<le> q) gs
     \<and> (\<forall>g \<in> set gs. located doc g \<and> snd g + length (fst g) \<le> k)"

lemma groups_ok_snoc:
  assumes "groups_ok doc k gs" "located doc (t, p)" "k \<le> p"
  shows "groups_ok doc (p + length t) (gs @ [(t, p)])"
  using assms by (force simp: groups_ok_def sorted_wrt_append)

lemma groups_ok_extend:
  assumes "groups_ok doc k (gs @ [(u, q)])" "q + length u = k" "located doc (t, k)"
  shows "groups_ok doc (k + length t) (gs @ [(u @ t, q)])"
proof -
  have l: "located doc (u, q)" using assms(1) by (simp add: groups_ok_def)
  have k: "drop k doc = drop (length u) (drop q doc)" using assms(2) by (simp add: add.commute)
  have "take (length u + length t) (drop q doc) = take (length u) (drop q doc) @ take (length t) (drop k doc)"
    unfolding k by (rule take_add)
  then have "located doc (u @ t, q)" using l assms(2,3) by (simp add: located_def)
  then show ?thesis using assms(1,2) by (fastforce simp: groups_ok_def sorted_wrt_append)
qed

definition open_group :: "bool \<Rightarrow> nat \<Rightarrow> (string \<times> nat) option \<Rightarrow> bool" where
  "open_group inText k final = (case final of Some (t, p) \<Rightarrow> inText \<and> p + length t = k | None \<Rightarrow> \<not> inText)"

lemma gather_ok:
  assumes "visits_ok doc k inText vs" "groups_ok doc k (List.map_filter (\<lambda>x. x) nodes)" "nodes \<noteq> []" "open_group inText k (List.last nodes)"
  shows "\<exists>k'. groups_ok doc k' (List.map_filter (\<lambda>x. x) (gather vs nodes))"
  using assms
proof (induction vs arbitrary: k inText nodes)
  case (Cons v vs)
  obtain x pos where v: "v = (x, pos)" by (cases v)
  have split: "nodes = butlast nodes @ [List.last nodes]" using Cons.prems(3) by simp
  have mf: "List.map_filter (\<lambda>x. x) (xs @ [y]) = List.map_filter (\<lambda>x. x) xs @ (case y of None \<Rightarrow> [] | Some z \<Rightarrow> [z])" for xs and y :: "(string \<times> nat) option"
    by (auto simp: List.map_filter_def split: option.split)
  let ?gs = "List.map_filter (\<lambda>x. x) (butlast nodes)"
  show ?case
  proof (cases x)
    case (Text_node t)
    have vis: "if inText then pos = k else k \<le> pos" "located doc (t, pos)" "visits_ok doc (pos + length t) True vs"
      using Cons.prems(1) by (simp_all add: v Text_node located_def)
    show ?thesis
    proof (cases "List.last nodes")
      case None
      have "groups_ok doc k ?gs" "\<not> inText"
        using Cons.prems(2,4) None split mf [of "butlast nodes" None] by (simp_all add: open_group_def)
      then have "groups_ok doc (pos + length t) (?gs @ [(t, pos)])" using groups_ok_snoc vis(1,2) by simp
      then show ?thesis
        using Cons.IH [OF vis(3), of "butlast nodes @ [Some (t, pos)]"] None by (simp add: v Text_node mf open_group_def)
    next
      case (Some g)
      obtain u q where g: "g = (u, q)" by (cases g)
      have "groups_ok doc k (?gs @ [(u, q)])" "inText" "q + length u = k"
        using Cons.prems(2,4) Some g split mf [of "butlast nodes" "Some g"] by (simp_all add: open_group_def)
      then have "groups_ok doc (pos + length t) (?gs @ [(u @ t, q)])" "pos = k" using groups_ok_extend vis(1,2) by simp_all
      then show ?thesis
        using Cons.IH [OF vis(3), of "butlast nodes @ [Some (u @ t, q)]"] Some g \<open>q + length u = k\<close>
        by (simp add: v Text_node mf open_group_def)
    qed
  next
    case Other_node
    then show ?thesis
      using Cons.IH [of k False "nodes @ [None]"] Cons.prems by (simp add: v mf open_group_def)
  qed
qed auto

text \<open>The ranges of one group of texts, as natural numbers.\<close>

definition group_ranges :: "regex_engine \<Rightarrow> string \<times> bool \<Rightarrow> string \<times> nat \<Rightarrow> (nat \<times> nat) list" where
  "group_ranges M re g = map (\<lambda>(i, m). (snd g + i, snd g + i + length m))
     (filter (\<lambda>(i, m). trim m \<noteq> []) (M (fst re) (snd re) (fst g)))"

lemma results_of_ranges: "results_of M re g = map int_range (group_ranges M re g)"
  by (auto simp: results_of_def group_ranges_def int_range_def split: prod.split)

lemma search_results_ranges:
  "search_results M vs re = map int_range (concat (map (group_ranges M re) (List.map_filter (\<lambda>x. x) (gather vs [None]))))"
proof -
  have "results_of M re = (\<lambda>g. map int_range (group_ranges M re g))" by (rule ext) (rule results_of_ranges)
  then show ?thesis by (simp add: search_results_def map_concat comp_def)
qed

definition found_at :: "pm_token list \<Rightarrow> nat \<times> nat \<Rightarrow> bool" where
  "found_at doc r \<longleftrightarrow> (\<exists>m. trim m \<noteq> [] \<and> snd r = fst r + length m \<and> take (length m) (drop (fst r) doc) = map Ch m)"

lemma group_ranges_ok:
  assumes "engine_ok M" "located doc g"
  shows "sorted_wrt (\<lambda>(f, t) (f', t'). t \<le> f') (group_ranges M re g)"
    and "\<forall>r \<in> set (group_ranges M re g). snd g \<le> fst r \<and> fst r \<le> snd r \<and> snd r \<le> snd g + length (fst g) \<and> found_at doc r"
proof -
  obtain u pos where g: "g = (u, pos)" by (cases g)
  let ?ms = "filter (\<lambda>(i, m). trim m \<noteq> []) (M (fst re) (snd re) u)"
  have ok: "matches_ok u (M (fst re) (snd re) u)" using assms(1) by (simp add: engine_ok_def)
  have "sorted_wrt (\<lambda>(i, m) (j, _). i + length m \<le> j) ?ms"
    using ok by (simp add: matches_ok_def sorted_wrt_filter)
  then show "sorted_wrt (\<lambda>(f, t) (f', t'). t \<le> f') (group_ranges M re g)"
    by (simp add: group_ranges_def g sorted_wrt_map case_prod_unfold)
  show "\<forall>r \<in> set (group_ranges M re g). snd g \<le> fst r \<and> fst r \<le> snd r \<and> snd r \<le> snd g + length (fst g) \<and> found_at doc r"
  proof
    fix r assume "r \<in> set (group_ranges M re g)"
    then obtain i m where m: "(i, m) \<in> set (M (fst re) (snd re) u)" "trim m \<noteq> []" "r = (pos + i, pos + i + length m)"
      by (auto simp: group_ranges_def g)
    have at: "i + length m \<le> length u" "take (length m) (drop i u) = m"
      using ok m(1) by (auto simp: matches_ok_def)
    have "take (length m) (drop (pos + i) doc) = take (length m) (drop i (drop pos doc))" by (simp add: add.commute)
    also have "\<dots> = take (length m) (drop i (take (length u) (drop pos doc)))"
      using at(1) by (simp add: drop_take min_def)
    also have "\<dots> = map Ch m" using assms(2) at(2) by (simp add: located_def g drop_map take_map)
    finally show "snd g \<le> fst r \<and> fst r \<le> snd r \<and> snd r \<le> snd g + length (fst g) \<and> found_at doc r"
      using m(2,3) at(1) by (auto simp: g found_at_def)
  qed
qed

lemma groups_ranges_ok:
  assumes "engine_ok M" "groups_ok doc k gs"
  shows "ranges_ok 0 (concat (map (group_ranges M re) gs)) (length doc)"
    and "\<forall>r \<in> set (concat (map (group_ranges M re) gs)). found_at doc r"
proof -
  have loc: "located doc g" if "g \<in> set gs" for g using assms(2) that by (simp add: groups_ok_def)
  show "\<forall>r \<in> set (concat (map (group_ranges M re) gs)). found_at doc r"
    using group_ranges_ok(2) [OF assms(1) loc] by auto
  have "sorted_wrt (\<lambda>(f, t) (f', t'). t \<le> f') (concat (map (group_ranges M re) gs))"
    using assms(2)
  proof (induction gs)
    case (Cons g gs)
    have ok: "groups_ok doc k gs" "located doc g" using Cons.prems by (auto simp: groups_ok_def)
    have "snd r \<le> fst r'" if r: "r \<in> set (group_ranges M re g)" "r' \<in> set (concat (map (group_ranges M re) gs))" for r r'
    proof -
      obtain g' where g': "g' \<in> set gs" "r' \<in> set (group_ranges M re g')" using r(2) by auto
      have "snd g + length (fst g) \<le> snd g'" using Cons.prems g'(1) by (force simp: groups_ok_def)
      moreover have "located doc g'" using ok(1) g'(1) by (simp add: groups_ok_def)
      ultimately show ?thesis
        using group_ranges_ok(2) [OF assms(1) ok(2), of re] group_ranges_ok(2) [OF assms(1) \<open>located doc g'\<close>, of re] r(1) g'(2)
        by fastforce
    qed
    then show ?case
      using Cons.IH [OF ok(1)] group_ranges_ok(1) [OF assms(1) ok(2), of re]
      by (fastforce simp: sorted_wrt_append)
  qed simp
  moreover have "\<forall>(f, t) \<in> set (concat (map (group_ranges M re) gs)). 0 \<le> f \<and> f \<le> t \<and> t \<le> length doc"
  proof
    fix r assume "r \<in> set (concat (map (group_ranges M re) gs))"
    then obtain g where g: "g \<in> set gs" "r \<in> set (group_ranges M re g)" by auto
    have "fst r \<le> snd r \<and> snd r \<le> snd g + length (fst g)" using group_ranges_ok(2) [OF assms(1) loc [OF g(1)], of re] g(2) by blast
    then show "case r of (f, t) \<Rightarrow> 0 \<le> f \<and> f \<le> t \<and> t \<le> length doc"
      using loc [OF g(1)] by (auto simp: located_def)
  qed
  ultimately show "ranges_ok 0 (concat (map (group_ranges M re) gs)) (length doc)"
    unfolding ranges_ok_iff by simp
qed

section \<open>Properties\<close>

text \<open>
  (C19) Replacing all results of a search, one transaction step after the other with rebased positions,
  gives the document in which all of them are replaced at once: the results are disjoint ranges in order
  whose text is a match that is not blank, and everything between them stays.
\<close>

theorem replace_all_simultaneous:
  assumes "engine_ok M" and "insert_ok ins tokens" and "visits_ok (tokens tr) 0 False visits"
    and "processSearches M visits re cls idx = (decorations, found)"
  shows "\<exists>rs. found = map int_range rs \<and> ranges_ok 0 rs (length (tokens tr))
    \<and> (\<forall>r \<in> set rs. found_at (tokens tr) r)
    \<and> tokens (replaceAll ins rt found tr) = subst_ranges (map Ch rt) 0 rs (tokens tr)"
proof -
  let ?gs = "List.map_filter (\<lambda>x. x) (gather visits [None])"
  let ?rs = "concat (map (group_ranges M re) ?gs)"
  have "groups_ok (tokens tr) 0 (List.map_filter (\<lambda>x. x) [None])" by (simp add: groups_ok_def List.map_filter_def)
  then obtain k where gs: "groups_ok (tokens tr) k ?gs"
    using gather_ok [OF assms(3), of "[None]"] by (auto simp: open_group_def)
  have found: "found = map int_range ?rs"
    using assms(4) by (simp add: processSearches_def search_results_ranges Let_def)
  note ok = groups_ranges_ok [OF assms(1) gs, of re]
  have "tokens (replaceAll ins rt found tr) = subst_ranges (map Ch rt) 0 ?rs (tokens tr)"
    using shifted_subst [OF assms(2) ok(1), of tr "[]" 0 rt] by (simp add: replaceAll_shifted found)
  then show ?thesis using ok found by blast
qed

text \<open>
  The results are a ring: with at least one result and a current index among them, going forward and
  back (or back and forward) returns to the same index, the index stays among the results, and going
  forward as often as there are results comes back to the start.
\<close>

lemma next_index:
  assumes "in_results (resultIndex st) st"
  shows "resultIndex (nextSearchResult st) = (resultIndex st + 1) mod int (length (results st))"
    and "results (nextSearchResult st) = results st"
proof -
  let ?n = "int (length (results st))"
  have "(resultIndex st + 1) mod ?n = (if resultIndex st + 1 < ?n then resultIndex st + 1 else 0)"
  proof (cases "resultIndex st + 1 < ?n")
    case False
    then have "resultIndex st + 1 = ?n" using assms by (simp add: in_results_def)
    then show ?thesis using False by simp
  qed (use assms in \<open>simp add: in_results_def\<close>)
  then show "resultIndex (nextSearchResult st) = (resultIndex st + 1) mod ?n" "results (nextSearchResult st) = results st"
    using assms by (auto simp: nextSearchResult_def in_results_def Let_def)
qed

theorem search_results_ring:
  assumes "in_results (resultIndex st) st"
  shows "in_results (resultIndex (nextSearchResult st)) (nextSearchResult st)
    \<and> in_results (resultIndex (previousSearchResult st)) (previousSearchResult st)
    \<and> previousSearchResult (nextSearchResult st) = st \<and> nextSearchResult (previousSearchResult st) = st
    \<and> (nextSearchResult ^^ length (results st)) st = st"
proof -
  have ring: "resultIndex ((nextSearchResult ^^ n) st) = (resultIndex st + int n) mod int (length (results st))
      \<and> (nextSearchResult ^^ n) st = st\<lparr>resultIndex := resultIndex ((nextSearchResult ^^ n) st)\<rparr>" for n
  proof (induction n)
    case 0
    then show ?case using assms by (simp add: in_results_def)
  next
    case (Suc n)
    let ?s = "(nextSearchResult ^^ n) st"
    have res: "results ?s = results st" using Suc.IH by (metis search_storage.select_convs(3) search_storage.surjective search_storage.update_convs(7))
    have "0 < int (length (results st))" using assms unfolding in_results_def by linarith
    then have "in_results (resultIndex ?s) ?s" using Suc.IH by (simp only: in_results_def res) simp
    then have "resultIndex (nextSearchResult ?s) = (resultIndex st + int (Suc n)) mod int (length (results st))"
      using next_index(1) [of ?s] Suc.IH by (simp add: res mod_simps ac_simps)
    moreover obtain k where k: "?s = st\<lparr>resultIndex := k\<rparr>" using Suc.IH by blast
    have "nextSearchResult ?s = st\<lparr>resultIndex := resultIndex (nextSearchResult ?s)\<rparr>"
      unfolding k by (simp add: nextSearchResult_def Let_def)
    ultimately show ?case by simp
  qed
  have "(nextSearchResult ^^ length (results st)) st = st"
  proof -
    have "resultIndex ((nextSearchResult ^^ length (results st)) st) = resultIndex st"
      using ring [of "length (results st)"] assms by (simp add: in_results_def)
    then have start: "st\<lparr>resultIndex := resultIndex ((nextSearchResult ^^ length (results st)) st)\<rparr> = st" by simp
    show ?thesis by (rule trans [OF conjunct2 [OF ring] start])
  qed
  then show ?thesis
    using assms by (auto simp: nextSearchResult_def previousSearchResult_def in_results_def Let_def)
qed

section \<open>Witnesses\<close>

text \<open>An engine for literal sources, and a document that is its own list of tokens.\<close>

function literal_matches :: "string \<Rightarrow> nat \<Rightarrow> string \<Rightarrow> (nat \<times> string) list" where
  "literal_matches s i u =
     (if s = [] \<or> u = [] then []
      else if prefix s u then (i, s) # literal_matches s (i + length s) (drop (length s) u)
      else literal_matches s (i + 1) (tl u))"
  by pat_completeness auto
termination
  by (relation "measure (\<lambda>(s, i, u). length u)") auto

declare literal_matches.simps [simp del]

definition literal_engine :: regex_engine where
  "literal_engine source cs u = literal_matches source 0 u"

lemma literal_matches_ok:
  "sorted_wrt (\<lambda>(i, m) (j, _). i + length m \<le> j) (literal_matches s i u)
   \<and> (\<forall>(j, m) \<in> set (literal_matches s i u). i \<le> j \<and> m = s \<and> j - i + length m \<le> length u \<and> take (length m) (drop (j - i) u) = m)"
proof (induction s i u rule: literal_matches.induct)
  case (1 s i u)
  show ?case
  proof (cases "s = [] \<or> u = []")
    case True
    then show ?thesis by (simp add: literal_matches.simps)
  next
    case ne: False
    show ?thesis
    proof (cases "prefix s u")
      case True
      let ?ms = "literal_matches s (i + length s) (drop (length s) u)"
      have eq: "literal_matches s i u = (i, s) # ?ms" using ne True by (subst literal_matches.simps) simp
      have len: "length s \<le> length u" "take (length s) u = s" using True prefix_length_le by (auto simp: prefix_def)
      note IH = conjunct1 [OF 1(1) [OF ne True]] conjunct2 [OF 1(1) [OF ne True]]
      have "i \<le> j \<and> m = s \<and> j - i + length m \<le> length u \<and> take (length m) (drop (j - i) u) = m" if "(j, m) \<in> set ?ms" for j m
      proof -
        have j: "i + length s \<le> j" "m = s" "j - (i + length s) + length s \<le> length u - length s"
          "take (length s) (drop (j - (i + length s) + length s) u) = s" using bspec [OF IH(2) that] by auto
        have "j - (i + length s) + length s = j - i" using j(1) by simp
        then show ?thesis using j len by simp
      qed
      then show ?thesis using IH len unfolding eq by auto
    next
      case False
      have eq: "literal_matches s i u = literal_matches s (i + 1) (tl u)" using ne False by (subst literal_matches.simps) simp
      note IH = conjunct1 [OF 1(2) [OF ne False]] conjunct2 [OF 1(2) [OF ne False]]
      have "i \<le> j \<and> m = s \<and> j - i + length m \<le> length u \<and> take (length m) (drop (j - i) u) = m"
        if "(j, m) \<in> set (literal_matches s (i + 1) (tl u))" for j m
      proof -
        have h: "i + 1 \<le> j" "m = s" "j - (i + 1) + length m \<le> length (tl u)" "take (length m) (drop (j - (i + 1)) (tl u)) = m"
          using bspec [OF IH(2) that] by auto
        obtain d where d: "j = i + 1 + d" using h(1) by (auto simp: le_iff_add)
        obtain c v where "u = c # v" using ne by (cases u) auto
        then show ?thesis using h d by simp
      qed
      then show ?thesis using IH(1) unfolding eq by auto
    qed
  qed
qed

lemma literal_engine_ok: "engine_ok literal_engine"
proof -
  have "matches_ok u (literal_matches s 0 u)" for s u
    using literal_matches_ok [of s 0 u] by (auto simp: matches_ok_def)
  then show ?thesis by (simp add: engine_ok_def literal_engine_def)
qed

definition splice :: "pm_token list insert_text" where
  "splice u from to doc = take (nat from) doc @ map Ch u @ drop (nat to) doc"

lemma splice_ok: "insert_ok splice (\<lambda>doc. doc)"
  by (simp add: insert_ok_def splice_def)

definition demo_doc :: "pm_token list" where
  "demo_doc = [Border] @ map Ch ''ab ab'' @ [Border]"

definition demo_visits :: "(visited \<times> nat) list" where
  "demo_visits = [(Other_node, 0), (Text_node ''ab'', 1), (Text_node '' ab'', 3)]"

lemma demo_matches: "literal_matches ''ab'' 0 ''ab ab'' = [(0, ''ab''), (3, ''ab'')]"
proof -
  have 1: "literal_matches ''ab'' i [] = []" for i by (subst literal_matches.simps) simp
  have 2: "literal_matches ''ab'' i ''ab'' = [(i, ''ab'')]" for i by (subst literal_matches.simps) (simp add: 1)
  have 3: "literal_matches ''ab'' i '' ab'' = [(i + 1, ''ab'')]" for i by (subst literal_matches.simps) (simp add: 2)
  show ?thesis by (subst literal_matches.simps) (simp add: 3)
qed

theorem replace_all_simultaneous_witness:
  "replaceAll splice ''xyz'' (search_results literal_engine demo_visits (''ab'', True)) demo_doc
     = [Border] @ map Ch ''xyz xyz'' @ [Border]"
proof -
  have run: "processSearches literal_engine demo_visits (''ab'', True) ''hit'' 0
      = (decorations_of ''hit'' 0 (search_results literal_engine demo_visits (''ab'', True)), search_results literal_engine demo_visits (''ab'', True))"
    by (simp add: processSearches_def Let_def)
  have visits: "visits_ok demo_doc 0 False demo_visits" by (simp add: demo_doc_def demo_visits_def)
  obtain rs where rs: "search_results literal_engine demo_visits (''ab'', True) = map int_range rs"
    "replaceAll splice ''xyz'' (search_results literal_engine demo_visits (''ab'', True)) demo_doc = subst_ranges (map Ch ''xyz'') 0 rs demo_doc"
    using replace_all_simultaneous [OF literal_engine_ok splice_ok visits run, of "''xyz''"] by blast
  have "gather demo_visits [None] = [None, Some (''ab ab'', 1)]" by (simp add: demo_visits_def)
  then have "search_results literal_engine demo_visits (''ab'', True) = results_of literal_engine (''ab'', True) (''ab ab'', 1)"
    by (simp add: search_results_def List.map_filter_def)
  also have "\<dots> = map int_range [(1, 3), (4, 6)]"
    by (simp add: results_of_def literal_engine_def demo_matches [simplified] trim_def is_space_def int_range_def)
  finally have "rs = [(1, 3), (4, 6)]" using rs(1) by (auto simp: int_range_def)
  then show ?thesis using rs(2) by (simp add: demo_doc_def)
qed

theorem search_results_ring_witness:
  "resultIndex (nextSearchResult (addStorage\<lparr>results := [(1, 3), (4, 6)], resultIndex := 1\<rparr>)) = 0
   \<and> previousSearchResult (nextSearchResult (addStorage\<lparr>results := [(1, 3), (4, 6)], resultIndex := 1\<rparr>))
      = addStorage\<lparr>results := [(1, 3), (4, 6)], resultIndex := 1\<rparr>"
  using search_results_ring [of "addStorage\<lparr>results := [(1, 3), (4, 6)], resultIndex := 1\<rparr>"]
  by (simp add: in_results_def nextSearchResult_def Let_def)

end
