(* ===== verification/Links.thy ===== *)
theory Links
  imports Notes_Props "HOL-Library.AList"
begin

unbundle bit_operations_syntax

text \<open>
  Links between notes (\<open>api/links.ts\<close>) and the graph of them (\<open>api/graph.ts\<close>): the index of the notes of
  the collection, the resolution of a link target, the links found in a text, and the graph with its cache
  of parsed links, which a build reads and updates.
\<close>

section \<open>Targets\<close>

definition stripMd :: "string \<Rightarrow> string" where
  "stripMd s = (if ends_with (lower s) ''.md'' then take (length s - 3) s else s)"

fun flatten :: "file_entry list \<Rightarrow> file_entry list" where
  "flatten [] = []"
| "flatten (FileEntry n p d f l cs # es) =
     FileEntry n p d f l cs # (case cs of None \<Rightarrow> [] | Some kids \<Rightarrow> flatten kids) @ flatten es"

record note_index_entry =
  ni_path :: string
  ni_rel :: string
  ni_name :: string

definition noteIndex :: "('s, 'd) app \<Rightarrow> note_index_entry list" where
  "noteIndex w =
     (case collection w of
        None \<Rightarrow> []
      | Some root \<Rightarrow>
          if root = [] then []
          else
            let pfx = (if ends_with root ''/'' then root else root @ ''/'') in
            map (\<lambda>e. \<lparr>ni_path = fe_path e,
                     ni_rel = (if starts_with (fe_path e) pfx then drop (length pfx) (fe_path e) else fe_path e),
                     ni_name = stripMd (fe_name e)\<rparr>)
              (filter (\<lambda>e. fe_isFile e \<and> ends_with (lower (fe_name e)) MARKDOWN_EXTENSION) (flatten (collectionEntries w))))"

definition clean_target :: "string \<Rightarrow> string" where
  "clean_target target = stripMd (dropWhile (\<lambda>c. c = CHR ''/'') (trim target))"

definition resolveNoteTarget :: "string \<Rightarrow> note_index_entry list \<Rightarrow> string option \<Rightarrow> string option" where
  "resolveNoteTarget target notes active =
     (let clean = clean_target target; low = lower clean in
      if clean = [] then None
      else case find (\<lambda>n. lower (stripMd (ni_rel n)) = low) notes of
        Some exact \<Rightarrow> Some (ni_path exact)
      | None \<Rightarrow>
          let matches = filter (\<lambda>n. lower (ni_name n) = low) notes;
              activeDir = (case active of None \<Rightarrow> [] | Some f \<Rightarrow> dir_of f)
          in if matches = [] then None
             else if activeDir = [] then Some (ni_path (hd matches))
             else case find (\<lambda>n. dir_of (ni_path n) = activeDir) matches of
                 Some sibling \<Rightarrow> Some (ni_path sibling)
               | None \<Rightarrow> Some (ni_path (hd matches)))"

text \<open>An empty string counts as no result.\<close>

definition truthy :: "string option \<Rightarrow> string option" where
  "truthy r = (if r = Some [] then None else r)"

definition openWikilink :: "('s, 'd) app_env \<Rightarrow> string \<Rightarrow> (('s, 'd) app, unit) act" where
  "openWikilink E target = (\<lambda>w.
     case truthy (resolveNoteTarget target (noteIndex w) (activeFile w)) of
       Some existing \<Rightarrow> openNote E existing False w
     | None \<Rightarrow>
         let clean = clean_target target in
         if clean = [] then (Inr (), w)
         else
           let name = last_segment clean;
               activeDir = (case activeFile w of None \<Rightarrow> [] | Some f \<Rightarrow> dir_of f)
           in if CHR ''/'' \<in> set clean then createNote E (in_collection (dir_of clean) w) (Some name) w
              else if activeDir \<noteq> [] then createNote E activeDir (Some name) w
              else case collection w of
                  None \<Rightarrow> (Inl (StorageError Invalid_path), w)
                | Some c \<Rightarrow> createNote E c (Some name) w)"

section \<open>Links in a text\<close>

text \<open>
  A matcher returns the captured group and the length of the match at the start of a text. The scan takes
  the first match, goes on behind it, and otherwise moves on by one character.
\<close>

fun scan_all :: "(string \<Rightarrow> (string \<times> nat) option) \<Rightarrow> nat \<Rightarrow> string \<Rightarrow> string list" where
  "scan_all m k [] = []"
| "scan_all m (Suc k) (c # cs) = scan_all m k cs"
| "scan_all m 0 (c # cs) =
     (case m (c # cs) of None \<Rightarrow> scan_all m 0 cs | Some (g, n) \<Rightarrow> g # scan_all m (n - 1) cs)"

definition wiki_char :: "char \<Rightarrow> bool" where
  "wiki_char c \<longleftrightarrow> c \<noteq> CHR ''['' \<and> c \<noteq> CHR '']'' \<and> c \<noteq> CHR 0x0A"

definition wiki_match :: "string \<Rightarrow> (string \<times> nat) option" where
  "wiki_match s =
     (if \<not> starts_with s ''[['' then None
      else
        let target = takeWhile (\<lambda>c. wiki_char c \<and> c \<noteq> CHR ''|'') (drop 2 s);
            rest = drop (2 + length target) s;
            label = (if rest \<noteq> [] \<and> hd rest = CHR ''|'' then 1 + length (takeWhile wiki_char (tl rest)) else 0)
        in if target \<noteq> [] \<and> starts_with (drop label rest) '']]''
           then Some (target, 2 + length target + label + 2) else None)"

definition md_match :: "string \<Rightarrow> (string \<times> nat) option" where
  "md_match s =
     (if \<not> starts_with s ''['' then None
      else
        let label = length (takeWhile wiki_char (drop 1 s));
            rest = drop (1 + label) s;
            href = takeWhile (\<lambda>c. c \<noteq> CHR '')'' \<and> \<not> is_space c) (drop 2 rest)
        in if starts_with rest ''](''  \<and> href \<noteq> [] \<and> starts_with (drop (2 + length href) rest) '')''
           then Some (href, 1 + label + 2 + length href + 1) else None)"

definition clean_href :: "string \<Rightarrow> string" where
  "clean_href s =
     (let a = (if starts_with s ''<'' then tl s else s);
          b = (if ends_with a ''>'' then butlast a else a)
      in hd (split_on CHR ''?'' (hd (split_on CHR ''#'' b))))"

definition extractNoteLinks :: "string \<Rightarrow> string list" where
  "extractNoteLinks content =
     map trim (scan_all wiki_match 0 content)
     @ map trim (filter (\<lambda>href. ends_with (lower href) MARKDOWN_EXTENSION
           \<and> \<not> starts_with (lower href) ''http:'' \<and> \<not> starts_with (lower href) ''https:'')
         (map clean_href (scan_all md_match 0 content)))"

section \<open>The graph\<close>

record graph_node =
  gn_id :: string
  gn_name :: string
  gn_exists :: bool
  gn_path :: "string option"

record graph_link =
  gl_source :: string
  gl_target :: string

record note_graph =
  gr_nodes :: "graph_node list"
  gr_links :: "graph_link list"

type_synonym link_cache = "(string \<times> int \<times> string list) list"

definition clearGraphCache :: "link_cache \<Rightarrow> link_cache" where
  "clearGraphCache c = []"

fun hash_loop :: "32 word \<Rightarrow> string \<Rightarrow> 32 word" where
  "hash_loop h [] = h"
| "hash_loop h (c # cs) = hash_loop ((h XOR word_of_nat (of_char c)) * 0x01000193) cs"

text \<open>\<open>Math.imul\<close> gives a signed result, so only the hash of the empty text is the unsigned constant.\<close>

definition content_hash :: "string \<Rightarrow> int" where
  "content_hash s = (if s = [] then 0x811c9dc5 else sint (hash_loop 0x811c9dc5 s))"

record graph_build =
  gb_cache :: link_cache
  gb_nodes :: "(string \<times> graph_node) list"
  gb_links :: "graph_link list"
  gb_seen :: "string list"

definition add_link :: "string \<Rightarrow> string \<Rightarrow> graph_build \<Rightarrow> graph_build" where
  "add_link source target g =
     (let key = source @ ''->'' @ target in
      if key \<in> set (gb_seen g) then g
      else g\<lparr>gb_seen := gb_seen g @ [key], gb_links := gb_links g @ [\<lparr>gl_source = source, gl_target = target\<rparr>]\<rparr>)"

definition missing_name :: "string \<Rightarrow> string" where
  "missing_name raw = trim (stripMd (last_segment raw))"

definition add_missing :: "string \<Rightarrow> string \<Rightarrow> graph_build \<Rightarrow> graph_build" where
  "add_missing targetId name g =
     (if map_of (gb_nodes g) targetId \<noteq> None then g
      else g\<lparr>gb_nodes := gb_nodes g @ [(targetId, \<lparr>gn_id = targetId, gn_name = name, gn_exists = False, gn_path = None\<rparr>)]\<rparr>)"

definition link_target :: "note_index_entry list \<Rightarrow> string option \<Rightarrow> string \<Rightarrow> string \<Rightarrow> graph_build \<Rightarrow> graph_build" where
  "link_target index active source raw g =
     (case truthy (resolveNoteTarget raw index active) of
        Some targetPath \<Rightarrow> add_link source targetPath g
      | None \<Rightarrow>
          (let name = missing_name raw; targetId = ''missing:'' @ lower name in
            if name = [] then g else add_link source targetId (add_missing targetId name g)))"

definition cached_targets :: "string \<Rightarrow> string \<Rightarrow> link_cache \<Rightarrow> string list \<times> link_cache" where
  "cached_targets path content cache =
     (let h = content_hash content; fresh = extractNoteLinks content in
      case map_of cache path of
        Some (h', targets) \<Rightarrow> if h' = h then (targets, cache) else (fresh, AList.update path (h, fresh) cache)
      | None \<Rightarrow> (fresh, AList.update path (h, fresh) cache))"

definition link_note :: "note_index_entry list \<Rightarrow> string option \<Rightarrow> note_index_entry \<times> string option \<Rightarrow> graph_build \<Rightarrow> graph_build" where
  "link_note index active nc g =
     (case nc of
        (n, None) \<Rightarrow> g
      | (n, Some content) \<Rightarrow>
          (case cached_targets (ni_path n) content (gb_cache g) of (targets, cache) \<Rightarrow>
             fold (link_target index active (ni_path n)) targets (g\<lparr>gb_cache := cache\<rparr>)))"

definition READ_BATCH :: nat where "READ_BATCH = 16"

fun read_batch :: "('s, 'd) app_env \<Rightarrow> note_index_entry list \<Rightarrow> (('s, 'd) app, string option list) act" where
  "read_batch E [] = aret []"
| "read_batch E (n # ns) =
     abind (acatch (abind (on_files (readTextFile (storage E) (ni_path n) no_options)) (\<lambda>c. aret (Some c))) (\<lambda>_. aret None))
       (\<lambda>c. abind (read_batch E ns) (\<lambda>cs. aret (c # cs)))"

function link_batches ::
    "('s, 'd) app_env \<Rightarrow> note_index_entry list \<Rightarrow> note_index_entry list \<Rightarrow> graph_build \<Rightarrow> (('s, 'd) app, graph_build) act" where
  "link_batches E index notes g =
     (if notes = [] then aret g
      else
        let batch = take READ_BATCH notes in
        abind (read_batch E batch) (\<lambda>contents.
        abind (aread activeFile) (\<lambda>active.
          link_batches E index (drop READ_BATCH notes) (fold (link_note index active) (zip batch contents) g))))"
  by pat_completeness auto
termination
  by (relation "measure (\<lambda>(E, index, notes, g). length notes)") (auto simp: READ_BATCH_def)

definition existing_node :: "note_index_entry \<Rightarrow> graph_node" where
  "existing_node n = \<lparr>gn_id = ni_path n, gn_name = ni_name n, gn_exists = True, gn_path = Some (ni_path n)\<rparr>"

definition buildNoteGraph :: "('s, 'd) app_env \<Rightarrow> link_cache \<Rightarrow> (('s, 'd) app, note_graph \<times> link_cache) act" where
  "buildNoteGraph E linkCache =
     abind (aread noteIndex) (\<lambda>notes.
     let nodes = fold (\<lambda>n. AList.update (ni_path n) (existing_node n)) notes [];
         cache = filter (\<lambda>(key, _). key \<in> ni_path ` set notes) linkCache
     in abind (link_batches E notes notes \<lparr>gb_cache = cache, gb_nodes = nodes, gb_links = [], gb_seen = []\<rparr>) (\<lambda>g.
          aret (\<lparr>gr_nodes = map snd (gb_nodes g), gr_links = gb_links g\<rparr>, gb_cache g)))"

declare link_batches.simps [simp del]

lemma link_batches_step:
  "link_batches E index [] g = aret g"
  "ns \<noteq> [] \<Longrightarrow> link_batches E index ns g =
     abind (read_batch E (take READ_BATCH ns)) (\<lambda>contents. abind (aread activeFile) (\<lambda>active.
       link_batches E index (drop READ_BATCH ns) (fold (link_note index active) (zip (take READ_BATCH ns) contents) g)))"
  by (subst link_batches.simps, simp add: Let_def)+

section \<open>The graph is closed\<close>

definition node_ids :: "graph_build \<Rightarrow> string list" where
  "node_ids g = map fst (gb_nodes g)"

text \<open>What every step keeps: \<open>base\<close> are the identifiers of the notes.\<close>

definition build_ok :: "string set \<Rightarrow> graph_build \<Rightarrow> bool" where
  "build_ok base g \<longleftrightarrow> distinct (node_ids g) \<and> base \<subseteq> set (node_ids g)
     \<and> (\<forall>(i, n) \<in> set (gb_nodes g). gn_id n = i \<and> (i \<in> base \<longrightarrow> gn_exists n))
     \<and> (\<forall>l \<in> set (gb_links g). gl_source l \<in> base \<and> gl_target l \<in> set (node_ids g))
     \<and> distinct (gb_links g) \<and> (\<forall>l \<in> set (gb_links g). gl_source l @ ''->'' @ gl_target l \<in> set (gb_seen g))"

lemma find_in_set: "find P xs = Some x \<Longrightarrow> x \<in> set xs \<and> P x"
  by (induction xs) (auto split: if_splits)

lemma resolve_in_index: "resolveNoteTarget raw index active = Some p \<Longrightarrow> p \<in> ni_path ` set index"
  using hd_in_set [of "filter (\<lambda>n. lower (ni_name n) = lower (clean_target raw)) index"]
  by (auto simp: resolveNoteTarget_def Let_def split: if_splits option.splits dest!: find_in_set)

lemma add_link_ok:
  assumes "build_ok base g" "source \<in> base" "target \<in> set (node_ids g)"
  shows "build_ok base (add_link source target g)"
  using assms by (auto simp: build_ok_def add_link_def Let_def node_ids_def)

lemma add_missing_ok:
  assumes "build_ok base g"
  shows "build_ok base (add_missing i name g)" "i \<in> set (node_ids (add_missing i name g))"
  using assms by (auto simp: build_ok_def add_missing_def node_ids_def map_of_eq_None_iff)

lemma link_target_ok:
  assumes "build_ok base g" "source \<in> base" "ni_path ` set index \<subseteq> base"
  shows "build_ok base (link_target index active source raw g)"
proof (cases "truthy (resolveNoteTarget raw index active)")
  case None
  then show ?thesis
    using assms add_link_ok [OF add_missing_ok(1) assms(2) add_missing_ok(2)] by (simp add: link_target_def Let_def)
next
  case (Some p)
  then have "p \<in> ni_path ` set index" using resolve_in_index by (auto simp: truthy_def split: if_splits)
  then have "p \<in> set (node_ids g)" using assms(1,3) by (auto simp: build_ok_def)
  then show ?thesis using Some add_link_ok [OF assms(1,2)] by (simp add: link_target_def)
qed

lemma link_note_ok:
  assumes "build_ok base g" "ni_path ` set index \<subseteq> base" "ni_path (fst nc) \<in> base"
  shows "build_ok base (link_note index active nc g)"
proof -
  have many: "build_ok base (fold (link_target index active s) ts h)" if "build_ok base h" "s \<in> base" for ts s h
    using that link_target_ok [OF _ that(2) assms(2)] by (induction ts arbitrary: h) auto
  show ?thesis
  proof (cases nc)
    case (Pair n c)
    then show ?thesis
      using assms many [of "g\<lparr>gb_cache := ch\<rparr>" for ch]
      by (auto simp: link_note_def build_ok_def node_ids_def split: option.split prod.split)
  qed
qed

lemma link_notes_ok:
  assumes "build_ok base g" "ni_path ` set index \<subseteq> base" "\<forall>nc \<in> set ncs. ni_path (fst nc) \<in> base"
  shows "build_ok base (fold (link_note index active) ncs g)"
  using assms by (induction ncs arbitrary: g) (auto intro: link_note_ok)

lemma read_batch_returns: "\<exists>cs w'. read_batch E ns w = (Inr cs, w')"
proof (induction ns arbitrary: w)
  case (Cons n ns)
  then show ?case by (auto simp: act_simps split: prod.split sum.split) (metis sum.distinct(1) old.sum.exhaust prod.exhaust Pair_inject)+
qed (simp add: act_simps)

lemma link_batches_ok:
  assumes "build_ok base g" "ni_path ` set index \<subseteq> base" "ni_path ` set ns \<subseteq> base"
  shows "\<exists>g' w'. link_batches E index ns g w = (Inr g', w') \<and> build_ok base g'"
  using assms
proof (induction E index ns g arbitrary: w rule: link_batches.induct)
  case (1 E index ns g)
  show ?case
  proof (cases "ns = []")
    case True
    then show ?thesis using 1(2) by (simp add: act_simps link_batches_step)
  next
    case False
    obtain contents w1 where r: "read_batch E (take READ_BATCH ns) w = (Inr contents, w1)"
      using read_batch_returns by blast
    have "build_ok base (fold (link_note index (activeFile w1)) (zip (take READ_BATCH ns) contents) g)"
    proof (rule link_notes_ok [OF 1(2,3)], rule ballI)
      fix nc assume "nc \<in> set (zip (take READ_BATCH ns) contents)"
      then have "fst nc \<in> set (take READ_BATCH ns)" using set_zip_leftD [of "fst nc" "snd nc"] by simp
      then have "fst nc \<in> set ns" by (rule in_set_takeD)
      then show "ni_path (fst nc) \<in> base" using 1(4) by blast
    qed
    moreover have "ni_path ` set (drop READ_BATCH ns) \<subseteq> base" using 1(4) set_drop_subset [of READ_BATCH ns] by blast
    ultimately obtain g' w' where
      "link_batches E index (drop READ_BATCH ns) (fold (link_note index (activeFile w1)) (zip (take READ_BATCH ns) contents) g) w1 = (Inr g', w')"
      "build_ok base g'" using 1(1) [OF False refl _ 1(3)] by blast
    then show ?thesis unfolding link_batches_step(2) [OF False] by (simp add: act_simps r)
  qed
qed

lemma note_nodes:
  fixes ns :: "note_index_entry list"
  defines "nodes \<equiv> fold (\<lambda>n. AList.update (ni_path n) (existing_node n)) ns []"
  shows "distinct (map fst nodes)" "set (map fst nodes) = ni_path ` set ns" "\<forall>(i, n) \<in> set nodes. gn_id n = i \<and> gn_exists n"
proof -
  have "distinct (map fst xs) \<Longrightarrow> (\<forall>(i, n) \<in> set xs. gn_id n = i \<and> gn_exists n) \<Longrightarrow>
      distinct (map fst (fold (\<lambda>n. AList.update (ni_path n) (existing_node n)) ns xs))
      \<and> set (map fst (fold (\<lambda>n. AList.update (ni_path n) (existing_node n)) ns xs)) = fst ` set xs \<union> ni_path ` set ns
      \<and> (\<forall>(i, n) \<in> set (fold (\<lambda>n. AList.update (ni_path n) (existing_node n)) ns xs). gn_id n = i \<and> gn_exists n)" for xs
  proof (induction ns arbitrary: xs)
    case (Cons n ns)
    have "set (AList.update (ni_path n) (existing_node n) xs) \<subseteq> insert (ni_path n, existing_node n) (set xs)"
      by (induction xs) auto
    then have "\<forall>(i, m) \<in> set (AList.update (ni_path n) (existing_node n) xs). gn_id m = i \<and> gn_exists m"
      using Cons.prems(2) by (auto simp: existing_node_def)
    then show ?case
      using Cons.IH [of "AList.update (ni_path n) (existing_node n) xs"] Cons.prems(1) by (auto simp: distinct_update dom_update)
  qed simp
  from this [of "[]"] show "distinct (map fst nodes)" "set (map fst nodes) = ni_path ` set ns"
    "\<forall>(i, n) \<in> set nodes. gn_id n = i \<and> gn_exists n" by (simp_all add: nodes_def)
qed

text \<open>
  (C21) Building the note graph always returns, and the graph is closed: the nodes have distinct identifiers,
  every note of the collection is an existing node, both ends of every link are nodes, every link starts at
  a note, and no link occurs twice, whatever the cache held before and whichever notes could not be read.
\<close>

theorem note_graph_closed:
  "\<exists>G cache' w'. buildNoteGraph E cache w = (Inr (G, cache'), w')
    \<and> distinct (map gn_id (gr_nodes G))
    \<and> (\<forall>n \<in> set (noteIndex w). \<exists>m \<in> set (gr_nodes G). gn_id m = ni_path n \<and> gn_exists m)
    \<and> (\<forall>l \<in> set (gr_links G). gl_source l \<in> ni_path ` set (noteIndex w) \<and> gl_target l \<in> gn_id ` set (gr_nodes G))
    \<and> distinct (gr_links G)"
proof -
  let ?ns = "noteIndex w" and ?base = "ni_path ` set (noteIndex w)"
  let ?g = "\<lparr>gb_cache = filter (\<lambda>(key, _). key \<in> ?base) cache,
     gb_nodes = fold (\<lambda>n. AList.update (ni_path n) (existing_node n)) ?ns [], gb_links = [], gb_seen = []\<rparr>"
  have start: "build_ok ?base ?g" using note_nodes [of ?ns] by (auto simp: build_ok_def node_ids_def)
  obtain g w' where g: "link_batches E ?ns ?ns ?g w = (Inr g, w')" "build_ok ?base g"
    using link_batches_ok [OF start subset_refl subset_refl] by blast
  have run: "buildNoteGraph E cache w = (Inr (\<lparr>gr_nodes = map snd (gb_nodes g), gr_links = gb_links g\<rparr>, gb_cache g), w')"
    using g(1) by (simp add: buildNoteGraph_def act_simps Let_def)
  have ids: "map gn_id (map snd (gb_nodes g)) = node_ids g"
    using g(2) by (auto simp: build_ok_def node_ids_def)
  have set_ids: "gn_id ` set (map snd (gb_nodes g)) = set (node_ids g)" unfolding ids [symmetric] by (simp add: image_image)
  have "\<exists>m \<in> set (map snd (gb_nodes g)). gn_id m = ni_path n \<and> gn_exists m" if "n \<in> set ?ns" for n
  proof -
    have "ni_path n \<in> set (node_ids g)" using g(2) that by (auto simp: build_ok_def)
    then obtain m where m: "(ni_path n, m) \<in> set (gb_nodes g)" by (auto simp: node_ids_def)
    have "\<forall>(i, n) \<in> set (gb_nodes g). gn_id n = i \<and> (i \<in> ?base \<longrightarrow> gn_exists n)" using g(2) by (simp add: build_ok_def)
    from bspec [OF this m] have "gn_id m = ni_path n \<and> gn_exists m" using that by simp
    moreover have "m \<in> set (map snd (gb_nodes g))" using m by force
    ultimately show ?thesis by blast
  qed
  then show ?thesis
    using run ids set_ids g(2) by (simp add: build_ok_def del: set_map map_map)
qed

section \<open>Links are found\<close>

definition plain_target :: "string \<Rightarrow> bool" where
  "plain_target t \<longleftrightarrow> t \<noteq> [] \<and> (\<forall>c \<in> set t. wiki_char c \<and> c \<noteq> CHR ''|'')"

definition plain_label :: "string \<Rightarrow> bool" where
  "plain_label l \<longleftrightarrow> l = [] \<or> (hd l = CHR ''|'' \<and> (\<forall>c \<in> set (tl l). wiki_char c))"

lemma wiki_match_shape:
  assumes "wiki_match s = Some (g, n)"
  shows "\<exists>lab rest. s = ''[['' @ g @ lab @ '']]'' @ rest \<and> n = length g + length lab + 4 \<and> g \<noteq> []
    \<and> CHR ''['' \<notin> set g \<and> CHR ''['' \<notin> set lab"
proof -
  obtain u where u: "s = ''[['' @ u" using assms by (auto simp: wiki_match_def prefix_def split: if_splits)
  let ?P = "\<lambda>c. wiki_char c \<and> c \<noteq> CHR ''|''"
  define r where "r = drop (length (takeWhile ?P u)) u"
  define k where "k = (if r \<noteq> [] \<and> hd r = CHR ''|'' then 1 + length (takeWhile wiki_char (tl r)) else 0)"
  have g: "g = takeWhile ?P u" "g \<noteq> []" "starts_with (drop k r) '']]''" "n = 2 + length g + k + 2"
    using assms by (auto simp: wiki_match_def u Let_def k_def r_def split: if_splits)
  have ur: "u = g @ r" unfolding g(1) r_def by (metis append_take_drop_id takeWhile_eq_take)
  have k: "k \<le> length r" using g(3) by (cases "k \<le> length r") auto
  obtain rest where rest: "drop k r = '']]'' @ rest" using g(3) by (auto simp: prefix_def)
  have "CHR ''['' \<notin> set (take k r)"
  proof (cases "r \<noteq> [] \<and> hd r = CHR ''|''")
    case True
    then obtain v where v: "r = CHR ''|'' # v" by (cases r) auto
    then have "take k r = CHR ''|'' # takeWhile wiki_char v" by (simp add: k_def takeWhile_eq_take [symmetric])
    then show ?thesis by (auto dest: set_takeWhileD simp: wiki_char_def)
  next
    case False
    then have "k = 0" by (simp add: k_def)
    then show ?thesis by simp
  qed
  moreover have "CHR ''['' \<notin> set g" unfolding g(1) by (auto dest: set_takeWhileD simp: wiki_char_def)
  moreover have "s = ''[['' @ g @ take k r @ '']]'' @ rest" using u ur rest by (metis append_take_drop_id)
  ultimately show ?thesis using g(2,4) k by (intro exI [of _ "take k r"] exI [of _ rest]) simp
qed

lemma wiki_match_stops:
  assumes "wiki_match (a @ ''[['' @ b) = Some (g, n)" "a \<noteq> []"
  shows "n \<le> length a"
proof (rule ccontr)
  assume long: "\<not> n \<le> length a"
  obtain lab rest where s: "a @ ''[['' @ b = ''[['' @ g @ lab @ '']]'' @ rest" "n = length g + length lab + 4" "g \<noteq> []"
    "CHR ''['' \<notin> set g" "CHR ''['' \<notin> set lab" using wiki_match_shape [OF assms(1)] by blast
  have inner: "(a @ ''[['' @ b) ! i \<noteq> CHR ''[''" if "2 \<le> i" "i < n" for i
  proof -
    obtain j where j: "i = Suc (Suc j)" using \<open>2 \<le> i\<close> by (metis Suc_le_D numeral_2_eq_2 Suc_le_mono)
    let ?x = "g @ lab @ '']]''"
    have "j < length ?x" using that s(2) j by simp
    moreover have "a @ ''[['' @ b = CHR ''['' # CHR ''['' # (?x @ rest)" unfolding s(1) by simp
    moreover have "(y @ rest) ! j = y ! j" if "j < length y" for y by (simp add: that nth_append)
    ultimately have "(a @ ''[['' @ b) ! i = ?x ! j" unfolding j by (simp only: nth_Cons_Suc)
    moreover have "?x ! j \<in> set ?x" using \<open>j < length ?x\<close> by (rule nth_mem)
    ultimately show ?thesis using s(4,5) by auto
  qed
  have br: "(a @ ''[['' @ b) ! length a = CHR ''[''" "(a @ ''[['' @ b) ! (length a + 1) = CHR ''[''" by (simp_all add: nth_append)
  have "length a = 1" using br(1) inner [of "length a"] long assms(2) by (cases a; cases "tl a") auto
  then show False using br(2) inner [of 2] s(2,3) by (cases g) (auto simp: numeral_2_eq_2)
qed

lemma wiki_match_link:
  assumes "plain_target t" "plain_label l"
  shows "wiki_match (''[['' @ t @ l @ '']]'' @ b) = Some (t, length t + length l + 4)"
proof -
  let ?P = "\<lambda>c. wiki_char c \<and> c \<noteq> CHR ''|''"
  define r where "r = l @ '']]'' @ b"
  have t: "takeWhile ?P (t @ r) = t"
    using assms by (cases l) (auto simp: r_def plain_target_def plain_label_def wiki_char_def takeWhile_append2)
  have lab: "(if r \<noteq> [] \<and> hd r = CHR ''|'' then 1 + length (takeWhile wiki_char (tl r)) else 0) = length l"
    using assms(2) by (cases l) (auto simp: r_def plain_label_def wiki_char_def takeWhile_append2)
  have d: "drop 2 (''[['' @ t @ r) = t @ r" "drop (2 + length t) (''[['' @ t @ r) = r" "starts_with (''[['' @ t @ r) ''[[''" by simp_all
  have "starts_with (drop (length l) r) '']]''" by (simp add: r_def)
  then have "wiki_match (''[['' @ t @ r) = Some (t, 2 + length t + length l + 2)"
    using assms(1) unfolding wiki_match_def Let_def d(1) t d(2) lab by (simp add: d(3) plain_target_def)
  then show ?thesis by (simp add: r_def)
qed

lemma scan_finds:
  assumes "wiki_match (''[['' @ r) = Some (t, n)" "k \<le> length a"
  shows "t \<in> set (scan_all wiki_match k (a @ ''[['' @ r))"
  using assms(2)
proof (induction a arbitrary: k)
  case Nil
  then show ?case using assms(1) by simp
next
  case (Cons c a)
  show ?case
  proof (cases k)
    case 0
    show ?thesis
    proof (cases "wiki_match (c # a @ ''[['' @ r)")
      case None
      then show ?thesis using Cons.IH [of 0] 0 by simp
    next
      case (Some p)
      obtain g m where p: "p = (g, m)" by (cases p)
      have "m \<le> Suc (length a)" using wiki_match_stops [of "c # a" r g m] Some p by simp
      then show ?thesis using Cons.IH [of "m - 1"] Some p 0 by simp
    qed
  next
    case (Suc j)
    then show ?thesis using Cons by simp
  qed
qed

text \<open>
  (C37) Every wikilink of a text is found: wherever \<open>[[target]]\<close> or \<open>[[target|label]]\<close> stands, with any text
  before and behind it, the trimmed target is among the extracted links.
\<close>

theorem wikilink_found:
  assumes "plain_target t" and "plain_label l"
  shows "trim t \<in> set (extractNoteLinks (a @ ''[['' @ t @ l @ '']]'' @ b))"
  using scan_finds [OF wiki_match_link [OF assms], of 0 a b] by (simp add: extractNoteLinks_def)

theorem wikilink_found_witness:
  "''Note'' \<in> set (extractNoteLinks (''see [x [['' @ '' Note'' @ ''|label'' @ '']]'' @ '' end''))"
proof -
  have "plain_target '' Note''" "plain_label ''|label''" by (simp_all add: plain_target_def plain_label_def wiki_char_def)
  from wikilink_found [OF this, of "''see [x ''" "'' end''"] show ?thesis by (simp add: trim_def is_space_def)
qed

section \<open>The cache\<close>

text \<open>An entry whose hash is that of the text holds the links of the text: no collision in the cache.\<close>

definition cache_ok :: "link_cache \<Rightarrow> string \<Rightarrow> string \<Rightarrow> bool" where
  "cache_ok cache path content \<longleftrightarrow>
     (\<forall>ts. map_of cache path = Some (content_hash content, ts) \<longrightarrow> ts = extractNoteLinks content)"

lemma cached_targets_ok: "cache_ok cache path content \<Longrightarrow> fst (cached_targets path content cache) = extractNoteLinks content"
  by (auto simp: cached_targets_def cache_ok_def Let_def split: option.split prod.split)

lemma cached_targets_again:
  "cached_targets path content (snd (cached_targets path content cache)) = cached_targets path content cache"
  by (auto simp: cached_targets_def Let_def update_conv split: option.splits prod.splits)

text \<open>The reference: every text is parsed.\<close>

definition link_plain :: "note_index_entry list \<Rightarrow> string option \<Rightarrow> note_index_entry \<times> string option \<Rightarrow> graph_build \<Rightarrow> graph_build" where
  "link_plain index active nc g =
     (case nc of
        (n, None) \<Rightarrow> g
      | (n, Some content) \<Rightarrow> fold (link_target index active (ni_path n)) (extractNoteLinks content) g)"

definition note_text :: "tree \<Rightarrow> string \<Rightarrow> string option" where
  "note_text t p =
     (if path_ok p \<and> norm_segs p \<noteq> [] then (case t (norm_segs p) of Some (FileN b) \<Rightarrow> Some (utf8_decode b) | _ \<Rightarrow> None) else None)"

definition plain_graph :: "note_index_entry list \<Rightarrow> string option \<Rightarrow> tree \<Rightarrow> note_graph" where
  "plain_graph index active t =
     (let g = fold (link_plain index active) (map (\<lambda>n. (n, note_text t (ni_path n))) index)
            \<lparr>gb_cache = [], gb_nodes = fold (\<lambda>n. AList.update (ni_path n) (existing_node n)) index [], gb_links = [], gb_seen = []\<rparr>
      in \<lparr>gr_nodes = map snd (gb_nodes g), gr_links = gb_links g\<rparr>)"

lemma link_target_cache [simp]:
  "link_target index active s raw (g\<lparr>gb_cache := c\<rparr>) = (link_target index active s raw g)\<lparr>gb_cache := c\<rparr>"
  by (simp add: link_target_def add_link_def add_missing_def Let_def split: option.split)

lemma fold_link_target_cache:
  "fold (link_target index active s) ts (g\<lparr>gb_cache := c\<rparr>) = (fold (link_target index active s) ts g)\<lparr>gb_cache := c\<rparr>"
  by (induction ts arbitrary: g) simp_all

lemma cached_targets_get:
  "cache_ok cache path content \<Longrightarrow>
     map_of (snd (cached_targets path content cache)) path = Some (content_hash content, extractNoteLinks content)"
  "p \<noteq> path \<Longrightarrow> map_of (snd (cached_targets path content cache)) p = map_of cache p"
  by (auto simp: cached_targets_def cache_ok_def Let_def update_conv split: option.split prod.split)

lemma link_note_plain:
  assumes "cache_ok c (ni_path n) content"
  shows "link_note index active (n, Some content) (g\<lparr>gb_cache := c\<rparr>)
    = (link_plain index active (n, Some content) g)\<lparr>gb_cache := snd (cached_targets (ni_path n) content c)\<rparr>"
  using cached_targets_ok [OF assms]
  by (cases "cached_targets (ni_path n) content c") (simp add: link_note_def link_plain_def fold_link_target_cache)

lemma link_notes_plain:
  assumes "distinct (map (ni_path \<circ> fst) ncs)" "\<forall>(n, t) \<in> set ncs. \<forall>x. t = Some x \<longrightarrow> cache_ok c (ni_path n) x"
  shows "\<exists>c'. fold (link_note index active) ncs (g\<lparr>gb_cache := c\<rparr>) = (fold (link_plain index active) ncs g)\<lparr>gb_cache := c'\<rparr>
    \<and> (\<forall>(n, t) \<in> set ncs. \<forall>x. t = Some x \<longrightarrow> map_of c' (ni_path n) = Some (content_hash x, extractNoteLinks x))
    \<and> (\<forall>p. p \<notin> ni_path ` fst ` set ncs \<longrightarrow> map_of c' p = map_of c p)"
  using assms
proof (induction ncs arbitrary: g c)
  case (Cons nc ncs)
  obtain n t where nc: "nc = (n, t)" by (cases nc)
  have new: "ni_path n \<notin> ni_path ` fst ` set ncs" "distinct (map (ni_path \<circ> fst) ncs)" using Cons.prems(1) by (auto simp: nc image_image comp_def)
  show ?case
  proof (cases t)
    case None
    obtain c' where "fold (link_note index active) ncs (g\<lparr>gb_cache := c\<rparr>) = (fold (link_plain index active) ncs g)\<lparr>gb_cache := c'\<rparr>"
      "\<forall>(n, t) \<in> set ncs. \<forall>x. t = Some x \<longrightarrow> map_of c' (ni_path n) = Some (content_hash x, extractNoteLinks x)"
      "\<forall>p. p \<notin> ni_path ` fst ` set ncs \<longrightarrow> map_of c' p = map_of c p"
      using Cons.IH [OF new(2), of c g] Cons.prems(2) by auto
    moreover have "link_note index active (n, None) h = h" "link_plain index active (n, None) h = h" for h
      by (simp_all add: link_note_def link_plain_def)
    ultimately show ?thesis by (intro exI [of _ c']) (simp add: nc None)
  next
    case (Some x)
    let ?c1 = "snd (cached_targets (ni_path n) x c)" and ?g1 = "link_plain index active (n, Some x) g"
    have ok: "cache_ok c (ni_path n) x" using Cons.prems(2) by (simp add: nc Some)
    have "\<forall>(m, t) \<in> set ncs. \<forall>y. t = Some y \<longrightarrow> cache_ok ?c1 (ni_path m) y"
    proof (clarify)
      fix m y assume m: "(m, Some y) \<in> set ncs"
      then have "m \<in> fst ` set ncs" by force
      then have "ni_path m \<noteq> ni_path n" using new(1) by (metis imageI)
      then show "cache_ok ?c1 (ni_path m) y" using Cons.prems(2) m cached_targets_get(2) by (auto simp: cache_ok_def)
    qed
    then obtain c' where c': "fold (link_note index active) ncs (?g1\<lparr>gb_cache := ?c1\<rparr>) = (fold (link_plain index active) ncs ?g1)\<lparr>gb_cache := c'\<rparr>"
      "\<forall>(n, t) \<in> set ncs. \<forall>x. t = Some x \<longrightarrow> map_of c' (ni_path n) = Some (content_hash x, extractNoteLinks x)"
      "\<forall>p. p \<notin> ni_path ` fst ` set ncs \<longrightarrow> map_of c' p = map_of ?c1 p"
      using Cons.IH [OF new(2)] by blast
    have "map_of c' (ni_path n) = Some (content_hash x, extractNoteLinks x)"
      using c'(3) new(1) cached_targets_get(1) [OF ok] by simp
    then show ?thesis
      using c' cached_targets_get(2) [of _ "ni_path n" x c] by (intro exI [of _ c']) (simp add: nc Some link_note_plain [OF ok])
  qed
qed auto

context storage_backend
begin

lemma read_note_text:
  assumes "storage E = B" "inv (ap_store w)"
  shows "acatch (abind (on_files (readTextFile (storage E) p no_options)) (\<lambda>c. aret (Some c))) (\<lambda>_. aret None) w
    = (Inr (note_text (fs (ap_store w)) p), w)"
proof (cases "path_ok p")
  case True
  then show ?thesis
    using readText_law [OF assms(2) True, of no_options] assms(1)
    by (auto simp: act_simps note_text_def read_error_def split: option.split node.split)
next
  case False
  then show ?thesis using invalid_law [OF assms(2) False] assms(1) by (simp add: act_simps note_text_def)
qed

lemma read_batch_texts:
  assumes "storage E = B" "inv (ap_store w)"
  shows "read_batch E ns w = (Inr (map (\<lambda>n. note_text (fs (ap_store w)) (ni_path n)) ns), w)"
proof (induction ns)
  case (Cons n ns)
  show ?case by (simp add: abind_apply read_note_text [OF assms] Cons.IH act_basic_apply)
qed (simp add: act_simps)

lemma link_batches_texts:
  assumes "storage E = B" "inv (ap_store w)"
  shows "link_batches E index ns g w
    = (Inr (fold (link_note index (activeFile w)) (map (\<lambda>n. (n, note_text (fs (ap_store w)) (ni_path n))) ns) g), w)"
  using assms
proof (induction E index ns g rule: link_batches.induct)
  case (1 E index ns g)
  show ?case
  proof (cases "ns = []")
    case True
    then show ?thesis by (simp add: link_batches_step act_simps)
  next
    case False
    let ?text = "\<lambda>n. note_text (fs (ap_store w)) (ni_path n)"
    have zips: "zip xs (map ?text xs) = map (\<lambda>n. (n, ?text n)) xs" for xs by (induction xs) auto
    have split: "map (\<lambda>n. (n, ?text n)) ns = map (\<lambda>n. (n, ?text n)) (take READ_BATCH ns) @ map (\<lambda>n. (n, ?text n)) (drop READ_BATCH ns)"
      by (simp flip: map_append)
    let ?g = "fold (link_note index (activeFile w)) (zip (take READ_BATCH ns) (map ?text (take READ_BATCH ns))) g"
    have "link_batches E index ns g w = link_batches E index (drop READ_BATCH ns) ?g w"
      unfolding link_batches_step(2) [OF False] by (simp add: abind_apply read_batch_texts [OF 1(2,3)] act_basic_apply)
    also have "\<dots> = (Inr (fold (link_note index (activeFile w)) (map (\<lambda>n. (n, ?text n)) (drop READ_BATCH ns)) ?g), w)"
      by (rule 1(1) [OF False refl 1(2,3)])
    also have "?g = fold (link_note index (activeFile w)) (map (\<lambda>n. (n, ?text n)) (take READ_BATCH ns)) g" unfolding zips ..
    finally show ?thesis unfolding split by simp
  qed
qed

lemma build_graph_plain:
  assumes "storage E = B" "inv (ap_store w)" "distinct (map ni_path (noteIndex w))"
    and "\<forall>n \<in> set (noteIndex w). \<forall>x. note_text (fs (ap_store w)) (ni_path n) = Some x \<longrightarrow> cache_ok cache (ni_path n) x"
  shows "\<exists>cache'. buildNoteGraph E cache w = (Inr (plain_graph (noteIndex w) (activeFile w) (fs (ap_store w)), cache'), w)
    \<and> (\<forall>n \<in> set (noteIndex w). \<forall>x. note_text (fs (ap_store w)) (ni_path n) = Some x
        \<longrightarrow> map_of cache' (ni_path n) = Some (content_hash x, extractNoteLinks x))"
proof -
  let ?ns = "noteIndex w" and ?text = "\<lambda>n. note_text (fs (ap_store w)) (ni_path n)"
  let ?ncs = "map (\<lambda>n. (n, note_text (fs (ap_store w)) (ni_path n))) (noteIndex w)"
  let ?c = "filter (\<lambda>(key, _). key \<in> ni_path ` set ?ns) cache"
  let ?g = "\<lparr>gb_cache = [], gb_nodes = fold (\<lambda>n. AList.update (ni_path n) (existing_node n)) ?ns [], gb_links = [], gb_seen = []\<rparr>"
  have kept: "map_of ?c p = map_of cache p" if "p \<in> ni_path ` set ?ns" for p
    using that by (induction cache) auto
  have d: "distinct (map (ni_path \<circ> fst) ?ncs)" using assms(3) by (simp add: comp_def)
  have ok: "\<forall>(n, t) \<in> set ?ncs. \<forall>x. t = Some x \<longrightarrow> cache_ok ?c (ni_path n) x"
    using assms(4) kept by (auto simp: cache_ok_def)
  obtain c' where c': "fold (link_note ?ns (activeFile w)) ?ncs (?g\<lparr>gb_cache := ?c\<rparr>) = (fold (link_plain ?ns (activeFile w)) ?ncs ?g)\<lparr>gb_cache := c'\<rparr>"
    "\<forall>(n, t) \<in> set ?ncs. \<forall>x. t = Some x \<longrightarrow> map_of c' (ni_path n) = Some (content_hash x, extractNoteLinks x)"
    using link_notes_plain [OF d ok, where index = ?ns and active = "activeFile w" and g = ?g] by (elim exE conjE) (rule that)
  have "link_batches E ?ns ?ns (?g\<lparr>gb_cache := ?c\<rparr>) w = (Inr ((fold (link_plain ?ns (activeFile w)) ?ncs ?g)\<lparr>gb_cache := c'\<rparr>), w)"
    unfolding link_batches_texts [OF assms(1,2)] c'(1) by simp
  then have "buildNoteGraph E cache w = (Inr (plain_graph ?ns (activeFile w) (fs (ap_store w)), c'), w)"
    by (simp add: buildNoteGraph_def act_simps plain_graph_def Let_def)
  then show ?thesis using c'(2) by fastforce
qed

end

text \<open>
  (C20) The cache of parsed links does not change the graph: when no cached hash collides with that of a text
  with other links, the build gives the graph in which every text is parsed, leaves the application as it
  was, and the cache it leaves holds the links of every readable note.
\<close>

theorem note_graph_cache:
  assumes "storage E = idb_backend" and "idb_inv (ap_store w)" and "distinct (map ni_path (noteIndex w))"
    and "\<forall>n \<in> set (noteIndex w). \<forall>x. note_text (idb_fs (ap_store w)) (ni_path n) = Some x \<longrightarrow> cache_ok cache (ni_path n) x"
  shows "\<exists>cache'. buildNoteGraph E cache w = (Inr (plain_graph (noteIndex w) (activeFile w) (idb_fs (ap_store w)), cache'), w)
    \<and> (\<forall>n \<in> set (noteIndex w). \<forall>x. note_text (idb_fs (ap_store w)) (ni_path n) = Some x
        \<longrightarrow> map_of cache' (ni_path n) = Some (content_hash x, extractNoteLinks x))"
  by (rule idb.build_graph_plain [OF assms])

definition link_store :: idb where
  "link_store = snd (idb_writeTextFile ''/a.md'' ''[[b]]'' no_options (empty_idb (\<lambda>n. n)))"

definition link_app :: "(idb, string) app" where
  "link_app = (note_app None)\<lparr>ap_store := link_store, collectionEntries := [FileEntry ''a.md'' ''/a.md'' False True False None]\<rparr>"

lemma link_paths: "path_ok ''/a.md''" "norm_segs ''/a.md'' = [''a.md'']"
  by (simp_all add: path_ok_def norm_segs_def)

lemma link_store_holds: "idb_inv link_store" "idb_fs link_store [''a.md''] = Some (FileN (utf8_encode ''[[b]]''))"
proof -
  obtain s where s: "idb_writeTextFile ''/a.md'' ''[[b]]'' no_options (empty_idb (\<lambda>n. n)) = (Inr (), s)" "idb_inv s"
    "idb_fs s = empty_tree([''a.md''] \<mapsto> FileN (utf8_encode ''[[b]]''))"
    using idb.write_text_ok [of "empty_idb (\<lambda>n. n)" "''/a.md''" "''[[b]]''" no_options] link_paths
    by (auto simp: write_error_def empty_tree_def idb_backend_def)
  then show "idb_inv link_store" "idb_fs link_store [''a.md''] = Some (FileN (utf8_encode ''[[b]]''))"
    by (simp_all add: link_store_def)
qed

lemma link_app_index: "noteIndex link_app = [\<lparr>ni_path = ''/a.md'', ni_rel = ''a.md'', ni_name = ''a''\<rparr>]"
  by (simp add: noteIndex_def link_app_def note_app_def Let_def MARKDOWN_EXTENSION_def lower_def lower_char_def stripMd_def suffix_def prefix_def)

theorem note_graph_cache_witness:
  "\<exists>cache'. buildNoteGraph note_env [(''/a.md'', content_hash ''[[b]]'', extractNoteLinks ''[[b]]'')] link_app
      = (Inr (plain_graph (noteIndex link_app) (activeFile link_app) (idb_fs link_store), cache'), link_app)
    \<and> map_of cache' ''/a.md'' = Some (content_hash ''[[b]]'', extractNoteLinks ''[[b]]'')"
proof -
  let ?c = "[(''/a.md'', content_hash ''[[b]]'', extractNoteLinks ''[[b]]'')]"
  have t: "note_text (idb_fs link_store) ''/a.md'' = Some ''[[b]]''"
    by (simp add: note_text_def link_paths link_store_holds)
  have s: "ap_store link_app = link_store" by (simp add: link_app_def)
  have "cache_ok ?c ''/a.md'' ''[[b]]''" by (simp add: cache_ok_def)
  then have "\<forall>n \<in> set (noteIndex link_app). \<forall>x. note_text (idb_fs link_store) (ni_path n) = Some x \<longrightarrow> cache_ok ?c (ni_path n) x"
    by (simp add: link_app_index t)
  moreover have "distinct (map ni_path (noteIndex link_app))" by (simp add: link_app_index)
  ultimately obtain cache' where "buildNoteGraph note_env ?c link_app = (Inr (plain_graph (noteIndex link_app) (activeFile link_app) (idb_fs link_store), cache'), link_app)"
    "\<forall>n \<in> set (noteIndex link_app). \<forall>x. note_text (idb_fs link_store) (ni_path n) = Some x
        \<longrightarrow> map_of cache' (ni_path n) = Some (content_hash x, extractNoteLinks x)"
    using note_graph_cache [of note_env link_app ?c, unfolded s] link_store_holds(1) note_demo(1) by blast
  then show ?thesis by (simp add: link_app_index t)
qed


theorem note_graph_closed_witness:
  "\<exists>G cache' w'. buildNoteGraph note_env [] link_app = (Inr (G, cache'), w')
    \<and> (\<exists>m \<in> set (gr_nodes G). gn_id m = ''/a.md'' \<and> gn_exists m) \<and> distinct (gr_links G)"
  using note_graph_closed [of note_env "[]" link_app] by (fastforce simp: link_app_index)

end
