(* ===== verification/Attachments.thy ===== *)
theory Attachments
  imports Notes_Props Zip "HOL-Library.AList" "HOL-Library.Multiset"
begin

text \<open>
  Attachments (\<open>api/attachments.ts\<close>): the kind of a source, safe and collision-free names, the import of
  dropped files into the \<open>attachments\<close> directory of the collection, and the reference-counted cache of
  object URLs, whose lookups settle in any order with the calls.
\<close>

section \<open>Sources\<close>

definition ATTACHMENTS_DIR :: string where "ATTACHMENTS_DIR = ''attachments''"

definition IMAGE_EXTS :: "string list" where
  "IMAGE_EXTS = [''png'', ''jpg'', ''jpeg'', ''gif'', ''webp'', ''avif'', ''svg'', ''bmp'', ''ico'']"
definition VIDEO_EXTS :: "string list" where "VIDEO_EXTS = [''mp4'', ''webm'', ''mov'', ''m4v'', ''ogv'']"
definition AUDIO_EXTS :: "string list" where
  "AUDIO_EXTS = [''mp3'', ''wav'', ''ogg'', ''oga'', ''m4a'', ''flac'', ''opus'', ''aac'']"

datatype attachment_kind = Image | Video | Audio | File

definition attachmentKind :: "string \<Rightarrow> attachment_kind" where
  "attachmentKind src =
     (let ext = lower (List.last (split_on CHR ''.'' (hd (split_on CHR ''#'' (hd (split_on CHR ''?'' src)))))) in
      if ext \<in> set IMAGE_EXTS then Image
      else if ext \<in> set VIDEO_EXTS then Video
      else if ext \<in> set AUDIO_EXTS then Audio
      else File)"

text \<open>\<open>/^(https?:|data:|blob:|mailto:)/i\<close>\<close>

definition isExternalSrc :: "string \<Rightarrow> bool" where
  "isExternalSrc src \<longleftrightarrow>
     list_ex (\<lambda>scheme. starts_with (lower src) scheme) [''http:'', ''https:'', ''data:'', ''blob:'', ''mailto:'']"

section \<open>Names\<close>

text \<open>\<open>replace(/\s+/g, ' ')\<close>: every run of white space becomes one blank.\<close>

lemma dropWhile_shorter [termination_simp]: "length (dropWhile P xs) < Suc (length xs)"
  by (rule le_imp_less_Suc) (rule length_dropWhile_le)

fun collapse_spaces :: "string \<Rightarrow> string" where
  "collapse_spaces [] = []"
| "collapse_spaces (c # cs) =
     (if is_space c then CHR '' '' # collapse_spaces (dropWhile is_space cs) else c # collapse_spaces cs)"

definition attachment_name :: "string \<Rightarrow> string" where
  "attachment_name name =
     (let clean = trim (collapse_spaces (map (\<lambda>c. if c \<in> set ''/?%*:|<>'' \<or> c = CHR 0x5C \<or> c = CHR 0x22 then CHR '' '' else c) name));
          clean = trim (dropWhile (\<lambda>c. is_space c \<or> c = CHR ''.'') clean)
      in if clean = [] then ''attachment'' else clean)"

text \<open>The candidates of \<open>uniqueName\<close>: the name itself, then the numbered ones.\<close>

definition attachment_candidate :: "string \<Rightarrow> nat \<Rightarrow> string" where
  "attachment_candidate name i =
     (if i = 0 then name
      else case last_index_of CHR ''.'' name of
             Some dot \<Rightarrow> if dot > 0 then numbered_name (take dot name) (drop dot name) i else numbered_name name [] i
           | None \<Rightarrow> numbered_name name [] i)"

text \<open>The loop asks the storage about one candidate after the other; \<open>None\<close> means that the fuel ran out.\<close>

fun probe_names :: "('s, 'd) app_env \<Rightarrow> nat \<Rightarrow> string \<Rightarrow> (nat \<Rightarrow> string) \<Rightarrow> nat \<Rightarrow> (('s, 'd) app, string option) act" where
  "probe_names E 0 dir candidate i = aret None"
| "probe_names E (Suc fuel) dir candidate i =
     abind (on_files (exists_path (storage E) (dir @ ''/'' @ candidate i) no_options)) (\<lambda>taken.
       if taken then probe_names E fuel dir candidate (Suc i) else aret (Some (candidate i)))"

definition uniqueName :: "('s, 'd) app_env \<Rightarrow> nat \<Rightarrow> string \<Rightarrow> string \<Rightarrow> (('s, 'd) app, string option) act" where
  "uniqueName E fuel dir name = probe_names E fuel dir (attachment_candidate name) 0"

section \<open>Import\<close>

record js_file =
  jf_name :: string
  jf_type :: string
  arrayBuffer :: bytes

record imported_attachment =
  ia_src :: string
  ia_name :: string
  mime :: string

fun import_loop ::
  "('s, 'd) app_env \<Rightarrow> nat \<Rightarrow> string \<Rightarrow> js_file list \<Rightarrow> imported_attachment list
     \<Rightarrow> (('s, 'd) app, imported_attachment list option) act" where
  "import_loop E fuel dir [] out = aret (Some out)"
| "import_loop E fuel dir (file # files) out =
     abind (uniqueName E fuel dir (attachment_name (if jf_name file = [] then ''attachment'' else jf_name file))) (\<lambda>r.
       case r of
         None \<Rightarrow> aret None
       | Some name \<Rightarrow>
           athen (on_files (writeFile (storage E) (dir @ ''/'' @ name) (arrayBuffer file) no_options))
             (import_loop E fuel dir files
                (out @ [\<lparr>ia_src = ATTACHMENTS_DIR @ ''/'' @ name, ia_name = name, mime = jf_type file\<rparr>])))"

definition importAttachments ::
  "('s, 'd) app_env \<Rightarrow> nat \<Rightarrow> js_file list \<Rightarrow> (('s, 'd) app, imported_attachment list option) act" where
  "importAttachments E fuel files =
     (\<lambda>w. case collection w of
        None \<Rightarrow> (Inr (Some []), w)
      | Some c \<Rightarrow>
          if c = [] then (Inr (Some []), w)
          else let dir = c @ ''/'' @ ATTACHMENTS_DIR in
               athen (on_files (mkdir (storage E) dir recursively)) (import_loop E fuel dir files []) w)"

section \<open>Names are safe and candidates distinct\<close>

lemma collapse_spaces_set: "set (collapse_spaces s) \<subseteq> insert (CHR '' '') (set s)"
  by (induction s rule: collapse_spaces.induct) (auto dest: set_dropWhileD)

lemma dropWhile_set: "set (dropWhile P s) \<subseteq> set s"
  by (auto dest: set_dropWhileD)

lemma trim_set: "set (trim s) \<subseteq> set s"
  using dropWhile_set [of is_space "rev (dropWhile is_space s)"] dropWhile_set [of is_space s]
  by (simp add: trim_def)

lemma hd_trim:
  assumes "s \<noteq> []" "\<not> is_space (hd s)"
  shows "trim s \<noteq> [] \<and> hd (trim s) = hd s"
proof -
  obtain c cs where s: "s = c # cs" "\<not> is_space c" using assms by (cases s) auto
  then have "dropWhile is_space (rev s) = dropWhile is_space (rev cs @ [c])" by simp
  also have "\<dots> = dropWhile is_space (rev cs) @ [c]"
    using s(2) by (induction cs rule: rev_induct) auto
  finally show ?thesis using s by (simp add: trim_def)
qed

lemma attachment_name_safe:
  "seg_ok (attachment_name name)" "hd (attachment_name name) \<noteq> CHR ''.''"
  "set (attachment_name name) \<inter> set ''/?%*:|<>'' = {}"
  "CHR 0x5C \<notin> set (attachment_name name)" "CHR 0x22 \<notin> set (attachment_name name)"
proof -
  define bad :: "char set" where "bad = set ''/?%*:|<>'' \<union> {CHR 0x5C, CHR 0x22}"
  define u where "u = map (\<lambda>c. if c \<in> set ''/?%*:|<>'' \<or> c = CHR 0x5C \<or> c = CHR 0x22 then CHR '' '' else c) name"
  define v where "v = dropWhile (\<lambda>c. is_space c \<or> c = CHR ''.'') (trim (collapse_spaces u))"
  have "set u \<inter> bad = {}" unfolding u_def bad_def by auto
  then have "set v \<inter> bad = {}"
    unfolding v_def using dropWhile_set [of _ "trim (collapse_spaces u)"] trim_set [of "collapse_spaces u"] collapse_spaces_set [of u]
    by (force simp: bad_def)
  then have tv: "set (trim v) \<inter> bad = {}" using trim_set [of v] by blast
  have n: "attachment_name name = (if trim v = [] then ''attachment'' else trim v)"
    by (simp add: attachment_name_def Let_def u_def v_def)
  have "hd (trim v) \<noteq> CHR ''.''" if "trim v \<noteq> []"
  proof -
    have "v \<noteq> []" using that by (auto simp: trim_def)
    then have "\<not> is_space (hd v)" "hd v \<noteq> CHR ''.''"
      using hd_dropWhile [of "\<lambda>c. is_space c \<or> c = CHR ''.''" "trim (collapse_spaces u)"] by (simp_all add: v_def)
    then show ?thesis using hd_trim [of v] \<open>v \<noteq> []\<close> by simp
  qed
  then show dot: "hd (attachment_name name) \<noteq> CHR ''.''" by (simp add: n)
  have away: "set (attachment_name name) \<inter> bad = {}"
    using tv by (simp add: n bad_def)
  then show "set (attachment_name name) \<inter> set ''/?%*:|<>'' = {}"
    "CHR 0x5C \<notin> set (attachment_name name)" "CHR 0x22 \<notin> set (attachment_name name)"
    unfolding bad_def by blast+
  have "attachment_name name \<noteq> []" by (simp add: n)
  then show "seg_ok (attachment_name name)"
    using dot away by (auto simp: seg_ok_def bad_def)
qed

lemma numbered_longer: "numbered_name (take k s) (drop k s) i \<noteq> s"
proof
  assume "numbered_name (take k s) (drop k s) i = s"
  then have "length (numbered_name (take k s) (drop k s) i) = length s" by simp
  then show False by (simp add: numbered_name_def)
qed

lemma attachment_candidate_inj: "inj (attachment_candidate name)"
proof (rule injI)
  fix i j
  assume "attachment_candidate name i = attachment_candidate name j"
  then show "i = j"
    using numbered_longer [of _ name i] numbered_longer [of _ name j] numbered_longer [of "length name" name]
    by (auto simp: attachment_candidate_def inj_eq [OF numbered_name_inj] split: if_splits option.splits dest: sym)
qed

lemma attachment_candidate_ok: "seg_ok name \<Longrightarrow> seg_ok (attachment_candidate name i)"
  using in_set_takeD [of "CHR ''/''" _ name] in_set_dropD [of "CHR ''/''" _ name] slash_show [of i]
  by (auto simp: attachment_candidate_def numbered_name_def seg_ok_def append_eq_Cons_conv split: option.splits)


section \<open>The import ends, and every file gets a fresh name\<close>

text \<open>What the import stores: each file at its name, in the order given.\<close>

fun put_files :: "string list \<Rightarrow> (string \<times> bytes) list \<Rightarrow> tree \<Rightarrow> tree" where
  "put_files ds [] t = t"
| "put_files ds ((nm, b) # nbs) t = put_files ds nbs (t(ds @ [nm] \<mapsto> FileN b))"

definition names_in :: "tree \<Rightarrow> string list \<Rightarrow> string set" where
  "names_in t ds = {nm. t (ds @ [nm]) \<noteq> None}"

lemma names_in_finite: "finite (dom t) \<Longrightarrow> finite (names_in t ds)"
proof -
  assume "finite (dom t)"
  then have "finite ((\<lambda>nm. ds @ [nm]) -` dom t)" by (rule finite_vimageI) (simp add: inj_def)
  then show ?thesis by (rule finite_subset [rotated]) (auto simp: names_in_def)
qed

lemma names_in_put [simp]: "names_in (t(ds @ [nm] \<mapsto> n)) ds = insert nm (names_in t ds)"
  by (auto simp: names_in_def)

lemma names_in_mkdirs [simp]: "names_in (mkdirs ds t) ds = names_in t ds"
  by (auto simp: names_in_def mkdirs_def)

lemma first_free_name:
  assumes "inj cand" "finite N" "card N < fuel"
  shows "\<exists>j. first_free fuel (\<lambda>i. cand i \<in> N) k = Some j \<and> cand j \<notin> N"
proof -
  have "{j. cand j \<in> N} = cand -` N" by auto
  then have fin: "finite {j. cand j \<in> N}" using assms(1,2) by (simp add: finite_vimageI)
  have "card {j. cand j \<in> N} \<le> card N"
    by (rule card_inj_on_le [of cand]) (use assms in \<open>auto simp: inj_on_def\<close>)
  then have "first_free fuel (\<lambda>i. cand i \<in> N) k \<noteq> None" using fin assms(3) by (intro first_free_total) simp_all
  then show ?thesis using first_free_Some by blast
qed

lemma put_files_off: "q \<notin> (\<lambda>nb. ds @ [fst nb]) ` set nbs \<Longrightarrow> put_files ds nbs t q = t q"
  by (induction nbs arbitrary: t) auto

lemma put_files_at:
  "length names = length bs \<Longrightarrow> distinct names \<Longrightarrow> i < length names \<Longrightarrow>
     put_files ds (zip names bs) t (ds @ [names ! i]) = Some (FileN (bs ! i))"
proof (induction names bs arbitrary: t i rule: list_induct2)
  case (Cons n names b bs)
  show ?case
  proof (cases i)
    case 0
    have "ds @ [n] \<notin> (\<lambda>nb. ds @ [fst nb]) ` set (zip names bs)"
      using Cons.prems(1) by (auto dest: set_zip_leftD)
    then show ?thesis using 0 by (simp add: put_files_off)
  qed (use Cons in simp)
qed simp

context storage_backend
begin

lemma probe_names_run:
  assumes "storage E = B" "inv (ap_store w)" "path_ok dir" "\<And>i. seg_ok (cand i)"
  shows "probe_names E fuel dir cand i w
    = (Inr (map_option cand (first_free fuel (\<lambda>i. cand i \<in> names_in (fs (ap_store w)) (norm_segs dir)) i)), w)"
proof (induction fuel arbitrary: i)
  case (Suc fuel)
  have "path_ok (dir @ ''/'' @ cand i)" "norm_segs (dir @ ''/'' @ cand i) = norm_segs dir @ [cand i]"
    using assms(3,4) path_append_seg [of dir "cand i"] by simp_all
  then have "exists_path B (dir @ ''/'' @ cand i) no_options (ap_store w)
      = (Inr (cand i \<in> names_in (fs (ap_store w)) (norm_segs dir)), ap_store w)"
    using exists_iff [OF assms(2)] by (simp add: names_in_def)
  then show ?case using Suc.IH assms(1) by (simp add: act_simps)
qed (simp add: act_simps)

lemma import_loop_run:
  assumes "storage E = B" "path_ok dir"
  shows "inv (ap_store w) \<Longrightarrow> fs (ap_store w) (norm_segs dir) = Some DirN \<Longrightarrow>
    card (names_in (fs (ap_store w)) (norm_segs dir)) + length files < fuel \<Longrightarrow>
    \<exists>names w'. import_loop E fuel dir files out w
        = (Inr (Some (out @ map2 (\<lambda>name file. \<lparr>ia_src = ATTACHMENTS_DIR @ ''/'' @ name, ia_name = name, mime = jf_type file\<rparr>) names files)), w')
      \<and> length names = length files \<and> distinct names \<and> set names \<inter> names_in (fs (ap_store w)) (norm_segs dir) = {}
      \<and> (\<forall>n \<in> set names. seg_ok n) \<and> inv (ap_store w')
      \<and> fs (ap_store w') = put_files (norm_segs dir) (zip names (map arrayBuffer files)) (fs (ap_store w))"
proof (induction files arbitrary: w out)
  case (Cons f files)
  let ?t = "fs (ap_store w)" and ?ds = "norm_segs dir"
  let ?name = "attachment_name (if jf_name f = [] then ''attachment'' else jf_name f)"
  have cand: "seg_ok (attachment_candidate ?name i)" for i
    using attachment_name_safe(1) by (rule attachment_candidate_ok)
  have fin: "finite (names_in ?t ?ds)" using names_in_finite tree_okD(1) [OF tree_ok [OF Cons.prems(1)]] by blast
  have "card (names_in ?t ?ds) < fuel" using Cons.prems(3) by simp
  from first_free_name [OF attachment_candidate_inj fin this]
  obtain j where j: "first_free fuel (\<lambda>i. attachment_candidate ?name i \<in> names_in ?t ?ds) 0 = Some j"
    "attachment_candidate ?name j \<notin> names_in ?t ?ds" by blast
  define nm where "nm = attachment_candidate ?name j"
  have nm: "seg_ok nm" "nm \<notin> names_in ?t ?ds" using cand j(2) by (simp_all add: nm_def)
  have uniq: "uniqueName E fuel dir ?name w = (Inr (Some nm), w)"
    using probe_names_run [OF assms(1) Cons.prems(1) assms(2) cand, of fuel _ 0] j(1)
    by (simp add: uniqueName_def nm_def)
  have p: "path_ok (dir @ ''/'' @ nm)" "norm_segs (dir @ ''/'' @ nm) = ?ds @ [nm]"
    using path_append_seg [OF assms(2) nm(1)] by simp_all
  have "write_error ?t (norm_segs (dir @ ''/'' @ nm)) = None"
    using nm(2) Cons.prems(2) unfolding p(2) by (simp add: write_error_def names_in_def)
  then obtain s' where s': "writeFile B (dir @ ''/'' @ nm) (arrayBuffer f) no_options (ap_store w) = (Inr (), s')" "inv s'"
    "fs s' = ?t(?ds @ [nm] \<mapsto> FileN (arrayBuffer f))"
    using write_file_ok [OF Cons.prems(1) p(1), of "arrayBuffer f" no_options, unfolded p(2)] unfolding p(2) by auto
  let ?w = "w\<lparr>ap_store := s'\<rparr>"
  let ?out = "out @ [\<lparr>ia_src = ATTACHMENTS_DIR @ ''/'' @ nm, ia_name = nm, mime = jf_type f\<rparr>]"
  have step: "import_loop E fuel dir (f # files) out w = import_loop E fuel dir files ?out ?w"
    using uniq s'(1) assms(1) by (simp add: act_simps)
  have c: "card (names_in (fs (ap_store ?w)) ?ds) + length files < fuel"
    using Cons.prems(3) fin nm(2) by (simp add: s'(3) del: fun_upd_apply)
  have w: "inv (ap_store ?w)" "fs (ap_store ?w) ?ds = Some DirN" using s'(2,3) Cons.prems(2) by simp_all
  obtain names w' where ih: "import_loop E fuel dir files ?out ?w = (Inr (Some (?out @ map2 (\<lambda>name file. \<lparr>ia_src = ATTACHMENTS_DIR @ ''/'' @ name, ia_name = name, mime = jf_type file\<rparr>) names files)), w')"
    "length names = length files" "distinct names" "set names \<inter> names_in (fs (ap_store ?w)) ?ds = {}" "\<forall>n \<in> set names. seg_ok n" "inv (ap_store w')"
    "fs (ap_store w') = put_files ?ds (zip names (map arrayBuffer files)) (fs (ap_store ?w))"
    using Cons.IH [OF w c, of ?out] by (elim exE conjE) (rule that)
  have apart: "nm \<notin> set names" "set names \<inter> names_in ?t ?ds = {}"
    using ih(4) by (auto simp: s'(3) simp del: fun_upd_apply)
  show ?case
    by (rule exI [of _ "nm # names"], rule exI [of _ w'])
      (use ih(1-3,5-7) apart nm step s'(3) in simp)
qed (simp add: act_simps)

lemma import_run:
  assumes "storage E = B" "inv (ap_store w)" "collection w = Some c" "c \<noteq> []" "path_ok c"
    and "mkdir_error True (fs (ap_store w)) (norm_segs c @ [ATTACHMENTS_DIR]) = None"
    and "card (names_in (fs (ap_store w)) (norm_segs c @ [ATTACHMENTS_DIR])) + length files < fuel"
  shows "\<exists>names w'. importAttachments E fuel files w
      = (Inr (Some (map2 (\<lambda>name file. \<lparr>ia_src = ATTACHMENTS_DIR @ ''/'' @ name, ia_name = name, mime = jf_type file\<rparr>) names files)), w')
    \<and> length names = length files \<and> distinct names
    \<and> set names \<inter> names_in (fs (ap_store w)) (norm_segs c @ [ATTACHMENTS_DIR]) = {} \<and> (\<forall>n \<in> set names. seg_ok n)
    \<and> inv (ap_store w')
    \<and> fs (ap_store w') = put_files (norm_segs c @ [ATTACHMENTS_DIR]) (zip names (map arrayBuffer files))
        (mkdirs (norm_segs c @ [ATTACHMENTS_DIR]) (fs (ap_store w)))"
proof -
  let ?ds = "norm_segs c @ [ATTACHMENTS_DIR]" and ?dir = "c @ ''/'' @ ATTACHMENTS_DIR"
  have "seg_ok ATTACHMENTS_DIR" by (simp add: seg_ok_def ATTACHMENTS_DIR_def)
  note d = path_append_seg [OF assms(5) this]
  obtain s' where s': "mkdir B ?dir recursively (ap_store w) = (Inr (), s')" "inv s'" "fs s' = mkdirs ?ds (fs (ap_store w))"
    using mkdir_ok [OF assms(2) d(1), of recursively, unfolded d(2)] assms(6) by auto
  let ?w = "w\<lparr>ap_store := s'\<rparr>"
  have step: "importAttachments E fuel files w = import_loop E fuel ?dir files [] ?w"
    using s'(1) assms(1,3,4) by (simp add: importAttachments_def act_simps Let_def)
  have w: "inv (ap_store ?w)" "fs (ap_store ?w) (norm_segs ?dir) = Some DirN"
    "card (names_in (fs (ap_store ?w)) (norm_segs ?dir)) + length files < fuel"
    using s'(2,3) assms(7) unfolding d(2) by (simp_all add: mkdirs_def [of _ _, THEN fun_cong])
  show ?thesis using import_loop_run [OF assms(1) d(1) w, of "[]"] unfolding d(2) step by (simp add: s'(3))
qed

end

text \<open>
  (C13) Importing attachments ends, and overwrites nothing: with more fuel than the directory has names and
  there are files to import, every file is stored with its bytes under a name of its own that nothing in the
  directory had, the result names them in order, and nothing else in the collection changes.
\<close>

theorem attachments_import:
  assumes "storage E = idb_backend" and "idb_inv (ap_store w)" and "collection w = Some c" and "c \<noteq> []" and "path_ok c"
    and "mkdir_error True (idb_fs (ap_store w)) (norm_segs c @ [ATTACHMENTS_DIR]) = None"
    and "card (names_in (idb_fs (ap_store w)) (norm_segs c @ [ATTACHMENTS_DIR])) + length files < fuel"
  shows "\<exists>out w'. importAttachments E fuel files w = (Inr (Some out), w')
    \<and> map mime out = map jf_type files \<and> map ia_src out = map (\<lambda>a. ATTACHMENTS_DIR @ ''/'' @ ia_name a) out
    \<and> distinct (map ia_name out) \<and> (\<forall>a \<in> set out. ia_name a \<notin> names_in (idb_fs (ap_store w)) (norm_segs c @ [ATTACHMENTS_DIR]))
    \<and> (\<forall>i < length files. idb_fs (ap_store w') (norm_segs c @ [ATTACHMENTS_DIR, ia_name (out ! i)]) = Some (FileN (arrayBuffer (files ! i))))
    \<and> (\<forall>q. q \<notin> (\<lambda>a. norm_segs c @ [ATTACHMENTS_DIR, ia_name a]) ` set out \<longrightarrow>
          idb_fs (ap_store w') q = mkdirs (norm_segs c @ [ATTACHMENTS_DIR]) (idb_fs (ap_store w)) q)"
proof -
  let ?ds = "norm_segs c @ [ATTACHMENTS_DIR]"
  obtain names w' where r: "importAttachments E fuel files w
      = (Inr (Some (map2 (\<lambda>name file. \<lparr>ia_src = ATTACHMENTS_DIR @ ''/'' @ name, ia_name = name, mime = jf_type file\<rparr>) names files)), w')"
    "length names = length files" "distinct names" "set names \<inter> names_in (idb_fs (ap_store w)) ?ds = {}"
    "idb_fs (ap_store w') = put_files ?ds (zip names (map arrayBuffer files)) (mkdirs ?ds (idb_fs (ap_store w)))"
    using idb.import_run [OF assms] by (elim exE conjE) (rule that)
  define out where "out = map2 (\<lambda>name file. \<lparr>ia_src = ATTACHMENTS_DIR @ ''/'' @ name, ia_name = name, mime = jf_type file\<rparr>) names files"
  have out: "map ia_name out = names" "map mime out = map jf_type files" "map ia_src out = map (\<lambda>a. ATTACHMENTS_DIR @ ''/'' @ ia_name a) out"
    using r(2) by (auto simp: out_def list_eq_iff_nth_eq)
  have "length out = length names" using r(2) by (simp add: out_def)
  then have nth: "ia_name (out ! i) = names ! i" if "i < length files" for i using that r(2) out(1) by (metis nth_map)
  have names: "set names = ia_name ` set out" using out(1) by (metis set_map)
  have at: "idb_fs (ap_store w') (?ds @ [names ! i]) = Some (FileN (arrayBuffer (files ! i)))" if "i < length files" for i
    using put_files_at [of names "map arrayBuffer files" i ?ds "mkdirs ?ds (idb_fs (ap_store w))"] r(2,3) that unfolding r(5) by simp
  have off: "idb_fs (ap_store w') q = mkdirs ?ds (idb_fs (ap_store w)) q" if "q \<notin> (\<lambda>n. ?ds @ [n]) ` set names" for q
    unfolding r(5) by (rule put_files_off) (use that in \<open>auto dest: set_zip_leftD\<close>)
  have run: "importAttachments E fuel files w = (Inr (Some out), w')" using r(1) by (simp only: out_def)
  have fresh: "\<forall>a \<in> set out. ia_name a \<notin> names_in (idb_fs (ap_store w)) ?ds" using r(4) names by blast
  have stored: "\<forall>i < length files. idb_fs (ap_store w') (norm_segs c @ [ATTACHMENTS_DIR, ia_name (out ! i)]) = Some (FileN (arrayBuffer (files ! i)))"
    using at nth by simp
  have rest: "\<forall>q. q \<notin> (\<lambda>a. norm_segs c @ [ATTACHMENTS_DIR, ia_name a]) ` set out \<longrightarrow> idb_fs (ap_store w') q = mkdirs ?ds (idb_fs (ap_store w)) q"
    using off by (simp add: names image_image)
  have "distinct (map ia_name out)" using r(3) out(1) by simp
  with run out(2,3) fresh stored rest show ?thesis by (intro exI conjI)
qed

theorem attachments_import_witness:
  "\<exists>out w'. importAttachments note_env 3 [\<lparr>jf_name = ''../a.png'', jf_type = ''image/png'', arrayBuffer = [1]\<rparr>,
      \<lparr>jf_name = ''../a.png'', jf_type = ''image/png'', arrayBuffer = [2]\<rparr>] (note_app None) = (Inr (Some out), w')
    \<and> distinct (map ia_name out)
    \<and> idb_fs (ap_store w') [ATTACHMENTS_DIR, ia_name (out ! 1)] = Some (FileN [2]) \<and> idb_fs (ap_store w') [''a''] = Some (FileN [65])"
proof -
  let ?files = "[\<lparr>jf_name = ''../a.png'', jf_type = ''image/png'', arrayBuffer = [1]\<rparr>,
      \<lparr>jf_name = ''../a.png'', jf_type = ''image/png'', arrayBuffer = [2]\<rparr>]"
  have none: "names_in (idb_fs note_store) [ATTACHMENTS_DIR] = {}"
    by (auto simp: names_in_def note_store_holds ATTACHMENTS_DIR_def empty_tree_def)
  have "mkdir_error True (idb_fs note_store) [ATTACHMENTS_DIR] = None"
    by (simp add: mkdir_error_def note_store_holds ATTACHMENTS_DIR_def empty_tree_def)
  then obtain out w' where r: "importAttachments note_env 3 ?files (note_app None) = (Inr (Some out), w')"
    "distinct (map ia_name out)"
    "\<forall>i < length ?files. idb_fs (ap_store w') [ATTACHMENTS_DIR, ia_name (out ! i)] = Some (FileN (arrayBuffer (?files ! i)))"
    "\<forall>q. q \<notin> (\<lambda>a. [ATTACHMENTS_DIR, ia_name a]) ` set out \<longrightarrow> idb_fs (ap_store w') q = mkdirs [ATTACHMENTS_DIR] (idb_fs note_store) q"
    using attachments_import [of note_env "note_app None" "''/''" ?files 3] note_demo none
    by (simp add: note_paths note_store_holds(1)) blast
  have "idb_fs (ap_store w') [ATTACHMENTS_DIR, ia_name (out ! 1)] = Some (FileN [2])" using spec [OF r(3), of 1] by simp
  moreover have "idb_fs (ap_store w') [''a''] = Some (FileN [65])"
    using spec [OF r(4), of "[''a'']"] by (auto simp: mkdirs_def note_store_holds ATTACHMENTS_DIR_def)
  ultimately show ?thesis using r(1,2) by blast
qed

section \<open>The cache of object URLs\<close>

text \<open>
  A lookup is a promise: it reads the bytes and makes an object URL, or it fails. Revoking a URL whose lookup
  is still running happens when it settles. The cache maps a path to a lookup and the number of its users;
  lookups are numbered in the order in which they start.
\<close>

datatype url_state = Loading | Live | Failed | Revoked

record url_lookup =
  ul_path :: string
  ul_state :: url_state
  ul_revoke :: bool

record url_cache =
  uc_entries :: "(string \<times> nat \<times> nat) list"
  uc_lookups :: "url_lookup list"

definition revoke_url :: "url_lookup \<Rightarrow> url_lookup" where
  "revoke_url u = (if ul_state u = Live then u\<lparr>ul_state := Revoked\<rparr>
     else if ul_state u = Loading then u\<lparr>ul_revoke := True\<rparr> else u)"

definition update_lookup :: "nat \<Rightarrow> (url_lookup \<Rightarrow> url_lookup) \<Rightarrow> url_cache \<Rightarrow> url_cache" where
  "update_lookup k f c = c\<lparr>uc_lookups := (uc_lookups c)[k := f (uc_lookups c ! k)]\<rparr>"

text \<open>The view gets the number of the lookup it awaits; a remote source resolves to itself.\<close>

definition acquireAttachmentUrl :: "string \<Rightarrow> string \<Rightarrow> url_cache \<Rightarrow> nat option \<times> url_cache" where
  "acquireAttachmentUrl root src c =
     (if isExternalSrc src then (None, c)
      else let path = root @ ''/'' @ src in
        case map_of (uc_entries c) path of
          None \<Rightarrow> (Some (length (uc_lookups c)),
            c\<lparr>uc_entries := AList.update path (length (uc_lookups c), 1) (uc_entries c),
              uc_lookups := uc_lookups c @ [\<lparr>ul_path = path, ul_state = Loading, ul_revoke = False\<rparr>]\<rparr>)
        | Some (url, refs) \<Rightarrow> (Some url, c\<lparr>uc_entries := AList.update path (url, refs + 1) (uc_entries c)\<rparr>))"

definition releaseAttachmentUrl :: "string \<Rightarrow> string \<Rightarrow> url_cache \<Rightarrow> url_cache" where
  "releaseAttachmentUrl root src c =
     (if isExternalSrc src then c
      else let path = root @ ''/'' @ src in
        case map_of (uc_entries c) path of
          None \<Rightarrow> c
        | Some (url, refs) \<Rightarrow>
            if refs - 1 > 0 then c\<lparr>uc_entries := AList.update path (url, refs - 1) (uc_entries c)\<rparr>
            else (update_lookup url revoke_url c)\<lparr>uc_entries := AList.delete path (uc_entries c)\<rparr>)"

definition clearAttachmentCache :: "url_cache \<Rightarrow> url_cache" where
  "clearAttachmentCache c = (fold (\<lambda>(path, url, refs). update_lookup url revoke_url) (uc_entries c) c)\<lparr>uc_entries := []\<rparr>"

text \<open>A running lookup settles: with an object URL, or, when the read failed, by dropping the entry of its path.\<close>

definition settle_lookup :: "nat \<Rightarrow> bool \<Rightarrow> url_cache \<Rightarrow> url_cache" where
  "settle_lookup k ok c =
     (if ok then update_lookup k (\<lambda>u. u\<lparr>ul_state := (if ul_revoke u then Revoked else Live)\<rparr>) c
      else (update_lookup k (\<lambda>u. u\<lparr>ul_state := Failed\<rparr>) c)
             \<lparr>uc_entries := AList.delete (ul_path (uc_lookups c ! k)) (uc_entries c)\<rparr>)"

text \<open>
  The views of one collection: a view acquires the source it shows, and releases it when it shows another or is
  destroyed. \<open>held\<close> are the views with the source each shows and the lookup it got.
\<close>

inductive views_step :: "string \<Rightarrow> (string \<times> nat) multiset \<times> url_cache \<Rightarrow> (string \<times> nat) multiset \<times> url_cache \<Rightarrow> bool"
  for root :: string where
  shows_source: "acquireAttachmentUrl root src c = (Some url, c') \<Longrightarrow>
      views_step root (held, c) (add_mset (src, url) held, c')"
| drops_source: "views_step root (add_mset (src, url) held, c) (held, releaseAttachmentUrl root src c)"
| lookup_done: "k < length (uc_lookups c) \<Longrightarrow> ul_state (uc_lookups c ! k) = Loading \<Longrightarrow>
      views_step root (held, c) (held, settle_lookup k True c)"

definition empty_url_cache :: url_cache where
  "empty_url_cache = \<lparr>uc_entries = [], uc_lookups = []\<rparr>"

definition usable :: "url_cache \<Rightarrow> nat \<Rightarrow> bool" where
  "usable c k \<longleftrightarrow> k < length (uc_lookups c) \<and> ul_state (uc_lookups c ! k) \<in> {Loading, Live} \<and> \<not> ul_revoke (uc_lookups c ! k)"

text \<open>An entry counts the views of its path, and they all share its lookup, which is of that path.\<close>

definition users :: "(string \<times> nat) multiset \<Rightarrow> string \<Rightarrow> (string \<times> nat) multiset" where
  "users held src = filter_mset (\<lambda>v. fst v = src) held"

definition entry_ok :: "string \<Rightarrow> (string \<times> nat) multiset \<Rightarrow> url_cache \<Rightarrow> string \<Rightarrow> bool" where
  "entry_ok root held c src \<longleftrightarrow>
     (case map_of (uc_entries c) (root @ ''/'' @ src) of
        None \<Rightarrow> users held src = {#}
      | Some (url, refs) \<Rightarrow> 0 < refs \<and> users held src = replicate_mset refs (src, url)
          \<and> usable c url \<and> ul_path (uc_lookups c ! url) = root @ ''/'' @ src)"

definition views_inv :: "string \<Rightarrow> (string \<times> nat) multiset \<times> url_cache \<Rightarrow> bool" where
  "views_inv root = (\<lambda>(held, c). (\<forall>src. entry_ok root held c src) \<and> (\<forall>v \<in># held. \<not> isExternalSrc (fst v)))"

lemma users_add [simp]:
  "users (add_mset v held) src = (if fst v = src then add_mset v (users held src) else users held src)"
  by (simp add: users_def)

lemma users_empty [simp]: "users {#} src = {#}"
  by (simp add: users_def)

lemma entry_ok_keep:
  assumes "entry_ok root held c src" "map_of (uc_entries c') (root @ ''/'' @ src) = map_of (uc_entries c) (root @ ''/'' @ src)"
    and "users held' src = users held src"
    and "\<And>k. usable c k \<Longrightarrow> ul_path (uc_lookups c ! k) = root @ ''/'' @ src \<Longrightarrow>
           usable c' k \<and> ul_path (uc_lookups c' ! k) = ul_path (uc_lookups c ! k)"
  shows "entry_ok root held' c' src"
  using assms unfolding entry_ok_def by (simp split: option.splits prod.splits)

lemma update_other [simp]: "k \<noteq> j \<Longrightarrow> uc_lookups (update_lookup j f c) ! k = uc_lookups c ! k"
  "length (uc_lookups (update_lookup j f c)) = length (uc_lookups c)" "uc_entries (update_lookup j f c) = uc_entries c"
  by (simp_all add: update_lookup_def)

lemma acquire_views_inv:
  assumes "views_inv root (held, c)" "acquireAttachmentUrl root src c = (Some url, c')"
  shows "views_inv root (add_mset (src, url) held, c')"
proof -
  have ok: "entry_ok root held c s" for s using assms(1) by (simp add: views_inv_def)
  have local: "\<not> isExternalSrc src" using assms(2) by (auto simp: acquireAttachmentUrl_def)
  have "entry_ok root (add_mset (src, url) held) c' s" for s
  proof (cases "s = src")
    case True
    show ?thesis using ok [of src] assms(2) local
      by (auto simp: True entry_ok_def acquireAttachmentUrl_def Let_def AList.update_conv' usable_def split: option.splits)
  next
    case False
    show ?thesis
      by (rule entry_ok_keep [OF ok])
        (use assms(2) local False in \<open>auto simp: acquireAttachmentUrl_def Let_def AList.update_conv' usable_def nth_append split: option.splits\<close>)
  qed
  then show ?thesis using assms(1) local by (auto simp: views_inv_def)
qed

lemma release_views_inv:
  assumes "views_inv root (add_mset (src, url) held, c)"
  shows "views_inv root (held, releaseAttachmentUrl root src c)"
proof -
  have ok: "entry_ok root (add_mset (src, url) held) c s" for s using assms by (simp add: views_inv_def)
  have local: "\<not> isExternalSrc src" using assms by (simp add: views_inv_def)
  obtain url' refs where e: "map_of (uc_entries c) (root @ ''/'' @ src) = Some (url', refs)" "0 < refs"
    "add_mset (src, url) (users held src) = replicate_mset refs (src, url')" "usable c url'" "ul_path (uc_lookups c ! url') = root @ ''/'' @ src"
    using ok [of src] by (auto simp: entry_ok_def split: option.splits)
  obtain n where n: "refs = Suc n" using e(2) by (cases refs) auto
  have u: "users held src = replicate_mset n (src, url')"
    using e(3) by (metis add_mset_remove_trivial n replicate_mset_Suc add_eq_conv_ex in_replicate_mset union_single_eq_member)
  have "entry_ok root held (releaseAttachmentUrl root src c) s" for s
  proof (cases "s = src")
    case True
    then show ?thesis using e(1,4,5) n u local
      by (auto simp: entry_ok_def releaseAttachmentUrl_def Let_def AList.update_conv' delete_conv' usable_def)
  next
    case False
    show ?thesis
    proof (rule entry_ok_keep [OF ok])
      fix k assume "usable c k" "ul_path (uc_lookups c ! k) = root @ ''/'' @ s"
      moreover from this have "k \<noteq> url'" using e(5) False by auto
      ultimately show "usable (releaseAttachmentUrl root src c) k
          \<and> ul_path (uc_lookups (releaseAttachmentUrl root src c) ! k) = ul_path (uc_lookups c ! k)"
        using e(1) local by (simp add: releaseAttachmentUrl_def usable_def Let_def)
    qed (use e(1) n local False in \<open>auto simp: releaseAttachmentUrl_def Let_def AList.update_conv' delete_conv'\<close>)
  qed
  then show ?thesis using assms by (auto simp: views_inv_def)
qed

lemma settle_views_inv:
  assumes "views_inv root (held, c)" "k < length (uc_lookups c)"
  shows "views_inv root (held, settle_lookup k True c)"
proof -
  have "entry_ok root held (settle_lookup k True c) s" for s
    by (rule entry_ok_keep [of _ _ c])
      (use assms in \<open>auto simp: views_inv_def settle_lookup_def usable_def update_lookup_def nth_list_update\<close>)
  then show ?thesis using assms(1) by (auto simp: views_inv_def)
qed

lemma views_step_inv: "views_step root x y \<Longrightarrow> views_inv root x \<Longrightarrow> views_inv root y"
  by (induction rule: views_step.induct) (simp_all add: acquire_views_inv release_views_inv settle_views_inv)

lemma views_reachable: "(views_step root)\<^sup>*\<^sup>* ({#}, empty_url_cache) x \<Longrightarrow> views_inv root x"
proof (induction rule: rtranclp_induct)
  case base
  show ?case by (simp add: views_inv_def entry_ok_def empty_url_cache_def)
qed (rule views_step_inv)


text \<open>A view whose lookup failed still releases, and takes the URL of a later view of the same source.\<close>

lemma failed_view_revokes_held_url:
  "let (u1, c1) = acquireAttachmentUrl root ''x.png'' empty_url_cache;
       c2 = settle_lookup (the u1) False c1;
       (u2, c3) = acquireAttachmentUrl root ''x.png'' c2;
       c4 = settle_lookup (the u2) True c3;
       c5 = releaseAttachmentUrl root ''x.png'' c4
   in usable c4 (the u2) \<and> ul_state (uc_lookups c5 ! the u2) = Revoked"
  by (simp add: acquireAttachmentUrl_def empty_url_cache_def settle_lookup_def releaseAttachmentUrl_def Let_def
      update_lookup_def usable_def revoke_url_def isExternalSrc_def lower_def lower_char_def prefix_def)

text \<open>Clearing the cache while a view is open, then releasing it, does the same.\<close>

lemma cleared_view_revokes_held_url:
  "let (u1, c1) = acquireAttachmentUrl root ''x.png'' empty_url_cache;
       c2 = clearAttachmentCache (settle_lookup (the u1) True c1);
       (u2, c3) = acquireAttachmentUrl root ''x.png'' c2;
       c4 = releaseAttachmentUrl root ''x.png'' (settle_lookup (the u2) True c3)
   in ul_state (uc_lookups c4 ! the u2) = Revoked"
  by (simp add: acquireAttachmentUrl_def empty_url_cache_def settle_lookup_def releaseAttachmentUrl_def clearAttachmentCache_def Let_def
      update_lookup_def revoke_url_def isExternalSrc_def lower_def lower_char_def prefix_def)


end
