(* ===== verification/Export.thy ===== *)
theory Export
  imports Attachments
begin

text \<open>
  Export (\<open>api/export.ts\<close>): collecting the files of a directory, saving a note, and the archive of a folder
  or of the whole collection. What the platform does with a finished export is a parameter. The walk takes
  its depth as fuel; \<open>None\<close> means that it ran out.
\<close>

section \<open>Collecting files\<close>

fun collect_entries ::
  "(string \<Rightarrow> string list \<Rightarrow> (('s, 'd) app, string list option) act) \<Rightarrow> bool \<Rightarrow> string \<Rightarrow> dir_entry list \<Rightarrow> string list
     \<Rightarrow> (('s, 'd) app, string list option) act" where
  "collect_entries walk markdownOnly dir [] files = aret (Some files)"
| "collect_entries walk markdownOnly dir (entry # items) files =
     (let path = single_slash (dir @ ''/'' @ de_name entry) in
      abind
        (if isDirectory entry
         then if \<not> starts_with (de_name entry) ''.'' then walk path files
              else if de_name entry = ''.tactile'' then walk (path @ ''/daily'') files
              else aret (Some files)
         else if isFile entry \<and> (\<not> markdownOnly \<or> ends_with (lower (de_name entry)) MARKDOWN_EXTENSION)
         then abind (alift (isInternalPath path)) (\<lambda>internal. aret (Some (if internal then files else files @ [path])))
         else aret (Some files))
        (\<lambda>r. case r of None \<Rightarrow> aret None | Some files \<Rightarrow> collect_entries walk markdownOnly dir items files))"

fun collect_walk ::
  "('s, 'd) app_env \<Rightarrow> bool \<Rightarrow> nat \<Rightarrow> string \<Rightarrow> string list \<Rightarrow> (('s, 'd) app, string list option) act" where
  "collect_walk E markdownOnly 0 dir files = aret None"
| "collect_walk E markdownOnly (Suc fuel) dir files =
     abind (acatch (abind (on_files (readDir (storage E) dir no_options)) (\<lambda>items. aret (Some items))) (\<lambda>_. aret None)) (\<lambda>r.
       case r of
         None \<Rightarrow> aret (Some files)
       | Some items \<Rightarrow> collect_entries (collect_walk E markdownOnly fuel) markdownOnly dir items files)"

definition collectFiles :: "('s, 'd) app_env \<Rightarrow> nat \<Rightarrow> string \<Rightarrow> bool \<Rightarrow> (('s, 'd) app, string list option) act" where
  "collectFiles E fuel dirPath markdownOnly = collect_walk E markdownOnly fuel dirPath []"

section \<open>Saving\<close>

datatype export_data = Text_data string | Bytes_data bytes

record saved_export =
  sx_name :: string
  sx_data :: export_data
  sx_mime :: string

record ('s, 'd) exporter =
  ex_app :: "('s, 'd) app"
  ex_saved :: "saved_export list"

text \<open>
  The platform's \<open>saveExport\<close>, the fields of a \<open>Date\<close> in local time, the markdown renderer, the style
  sheet of printed notes, and the browser's printing of a page.
\<close>

record ('s, 'd) export_env =
  ee_app :: "('s, 'd) app_env"
  saveExport :: "string \<Rightarrow> export_data \<Rightarrow> string \<Rightarrow> (('s, 'd) exporter, unit) act"
  localDate :: "nat \<Rightarrow> js_date"
  renderMarkdown :: "string \<Rightarrow> string"
  printStyles :: string
  printPage :: "string \<Rightarrow> (('s, 'd) exporter, unit) act"

definition on_app :: "(('s, 'd) app, 'a) act \<Rightarrow> (('s, 'd) exporter, 'a) act" where
  "on_app m = (\<lambda>x. case m (ex_app x) of (r, w) \<Rightarrow> (r, x\<lparr>ex_app := w\<rparr>))"

definition noteStem :: "string \<Rightarrow> string" where
  "noteStem path =
     (let name = last_segment path in
      if ends_with (lower name) ''.md'' then take (length name - 3) name else name)"

definition exportNote :: "('s, 'd) export_env \<Rightarrow> string \<Rightarrow> (('s, 'd) exporter, unit) act" where
  "exportNote X path =
     acatch
       (abind (on_app (on_files (readTextFile (storage (ee_app X)) path no_options))) (\<lambda>content.
        athen (saveExport X (noteStem path @ ''.md'') (Text_data content) ''text/markdown'')
          (on_app (show_toast (Toast_ok ''Note exported'')))))
       (\<lambda>e. on_app (show_toast (Toast_error ''Could not export note'' e)))"

text \<open>One file of an archive; one that cannot be read is left out.\<close>

definition zip_one :: "('s, 'd) export_env \<Rightarrow> (string \<Rightarrow> string) \<Rightarrow> string \<Rightarrow> zip_entry list \<Rightarrow> (('s, 'd) exporter, zip_entry list) act" where
  "zip_one X entryName path items =
     acatch
       (abind (on_app (on_files (readFile (storage (ee_app X)) path no_options))) (\<lambda>data.
        abind (acatch (abind (on_app (on_files (stat (storage (ee_app X)) path no_options))) (\<lambda>st. aret (Some st))) (\<lambda>_. aret None)) (\<lambda>st.
        aret (items @ [\<lparr>ze_name = entryName path, ze_data = data,
          ze_modified = (case st of None \<Rightarrow> None | Some st \<Rightarrow> map_option (localDate X) (st_mtime st))\<rparr>]))))
       (\<lambda>_. aret items)"

fun zip_all :: "('s, 'd) export_env \<Rightarrow> (string \<Rightarrow> string) \<Rightarrow> string list \<Rightarrow> zip_entry list \<Rightarrow> (('s, 'd) exporter, zip_entry list) act" where
  "zip_all X entryName [] items = aret items"
| "zip_all X entryName (path # paths) items = abind (zip_one X entryName path items) (zip_all X entryName paths)"

text \<open>The archive reads the clock for every entry without a modification time.\<close>

definition build_archive :: "('s, 'd) export_env \<Rightarrow> zip_entry list \<Rightarrow> (('s, 'd) exporter, bytes) act" where
  "build_archive X items =
     (\<lambda>x. let clock = ap_clock (ex_app x); reads = length (filter (\<lambda>e. ze_modified e = None) items) in
       (Inr (createZip items (\<lambda>n. localDate X (clock n))),
        x\<lparr>ex_app := (ex_app x)\<lparr>ap_clock := (\<lambda>n. clock (n + reads))\<rparr>\<rparr>))"

definition zipPaths :: "('s, 'd) export_env \<Rightarrow> string list \<Rightarrow> (string \<Rightarrow> string) \<Rightarrow> string \<Rightarrow> (('s, 'd) exporter, unit) act" where
  "zipPaths X paths entryName archiveName =
     abind (zip_all X entryName paths []) (\<lambda>items.
       if items = [] then aret ()
       else abind (build_archive X items) (\<lambda>archive. saveExport X archiveName (Bytes_data archive) ''application/zip''))"

definition strip_prefix :: "string \<Rightarrow> string \<Rightarrow> string" where
  "strip_prefix pfx p = (if starts_with p pfx then drop (length pfx) p else p)"

text \<open>Both exports: collect, stop when there is nothing, build the archive, report. \<open>False\<close> means that the fuel ran out.\<close>

definition export_tree ::
  "('s, 'd) export_env \<Rightarrow> nat \<Rightarrow> string \<Rightarrow> string \<Rightarrow> string \<Rightarrow> string \<Rightarrow> string \<Rightarrow> (('s, 'd) exporter, bool) act" where
  "export_tree X fuel dir pfx archive empty_message done_message =
     abind (on_app (collectFiles (ee_app X) fuel dir False)) (\<lambda>r.
       case r of
         None \<Rightarrow> aret False
       | Some files \<Rightarrow>
           if files = [] then athen (on_app (show_toast (Toast_info empty_message))) (aret True)
           else athen (zipPaths X files (strip_prefix pfx) archive)
                  (athen (on_app (show_toast (Toast_ok done_message))) (aret True)))"

definition exportFolder :: "('s, 'd) export_env \<Rightarrow> nat \<Rightarrow> string \<Rightarrow> (('s, 'd) exporter, bool) act" where
  "exportFolder X fuel path =
     (let parent = dir_of path; pfx = (if parent = ''/'' \<or> parent = [] then [] else parent @ ''/'') in
      acatch (export_tree X fuel path pfx (noteStem path @ ''.zip'') ''Nothing to export in this folder'' ''Folder exported'')
        (\<lambda>e. athen (on_app (show_toast (Toast_error ''Could not export folder'' e))) (aret True)))"

definition exportCollection :: "('s, 'd) export_env \<Rightarrow> nat \<Rightarrow> (('s, 'd) exporter, bool) act" where
  "exportCollection X fuel =
     (\<lambda>x. case collection (ex_app x) of
        None \<Rightarrow> (Inr True, x)
      | Some c \<Rightarrow>
          if c = [] then (Inr True, x)
          else acatch (export_tree X fuel c (c @ ''/'') ((if last_segment c = [] then ''collection'' else last_segment c) @ ''.zip'')
                 ''Nothing to export in this collection'' ''Collection exported'')
                 (\<lambda>e. athen (on_app (show_toast (Toast_error ''Could not export collection'' e))) (aret True)) x)"

text \<open>On the web an export is a download, under a name without the characters file systems reserve.\<close>

definition sanitizeFilename :: "string \<Rightarrow> string" where
  "sanitizeFilename name =
     (let cleaned = trim (filter (\<lambda>c. c \<notin> set ''/?%*:|<>'' \<and> c \<noteq> CHR 0x5C \<and> c \<noteq> CHR 0x22) name)
      in if cleaned = [] then ''export'' else cleaned)"

definition browser_save :: "string \<Rightarrow> export_data \<Rightarrow> string \<Rightarrow> (('s, 'd) exporter, unit) act" where
  "browser_save name data ty =
     amodify (\<lambda>x. x\<lparr>ex_saved := ex_saved x @ [\<lparr>sx_name = sanitizeFilename name, sx_data = data, sx_mime = ty\<rparr>]\<rparr>)"

section \<open>Printable documents\<close>

definition nl :: string where "nl = [CHR 0x0A]"

text \<open>\<open>replace(what, '')\<close> drops the first occurrence.\<close>

definition drop_first :: "string \<Rightarrow> string \<Rightarrow> string" where
  "drop_first what s = (case sub_index what s of None \<Rightarrow> s | Some i \<Rightarrow> take i s @ drop (i + length what) s)"

definition collection_name :: "('s, 'd) exporter \<Rightarrow> string \<Rightarrow> string" where
  "collection_name x otherwise = (case collection (ex_app x) of None \<Rightarrow> otherwise | Some c \<Rightarrow> last_segment c)"

definition print_section :: "('s, 'd) export_env \<Rightarrow> string \<Rightarrow> bool \<Rightarrow> string \<times> string \<Rightarrow> string" where
  "print_section X root multi block =
     ''<section class='' @ [CHR 0x22] @ ''tactile-note'' @ [CHR 0x22] @ ''>'' @ nl
     @ (if multi
        then ''<div class='' @ [CHR 0x22] @ ''tactile-note-title'' @ [CHR 0x22] @ ''>'' @ escapeHtml (drop_first root (fst block)) @ ''</div>''
        else []) @ nl
     @ renderMarkdown X (snd block) @ nl @ ''</section>''"

definition renderPrintableDocument :: "('s, 'd) export_env \<Rightarrow> (string \<times> string) list \<Rightarrow> ('s, 'd) exporter \<Rightarrow> string \<times> string" where
  "renderPrintableDocument X blocks x =
     (let root = (case collection (ex_app x) of None \<Rightarrow> [] | Some c \<Rightarrow> c);
          body = join_with nl (map (print_section X root (length blocks > 1)) blocks);
          title = (if length blocks = 1 then noteStem (fst (hd blocks)) else collection_name x ''Notes'')
      in (title,
          ''<!doctype html>'' @ nl @ ''<html>'' @ nl @ ''<head>'' @ nl @ ''<meta charset='' @ [CHR 0x22] @ ''utf-8'' @ [CHR 0x22] @ ''>'' @ nl
          @ ''<title>'' @ escapeHtml title @ ''</title>'' @ nl @ ''<style>'' @ printStyles X @ ''</style>'' @ nl @ ''</head>'' @ nl
          @ ''<body>'' @ body @ ''</body>'' @ nl @ ''</html>''))"

fun read_blocks :: "('s, 'd) export_env \<Rightarrow> string list \<Rightarrow> (string \<times> string) list \<Rightarrow> (('s, 'd) exporter, (string \<times> string) list) act" where
  "read_blocks X [] blocks = aret blocks"
| "read_blocks X (path # paths) blocks =
     abind (acatch (abind (on_app (on_files (readTextFile (storage (ee_app X)) path no_options))) (\<lambda>content. aret (blocks @ [(path, content)])))
              (\<lambda>_. aret blocks)) (read_blocks X paths)"

definition printBlocks :: "('s, 'd) export_env \<Rightarrow> (string \<times> string) list \<Rightarrow> (('s, 'd) exporter, unit) act" where
  "printBlocks X blocks = abind (aread (renderPrintableDocument X blocks)) (\<lambda>(title, html). printPage X html)"

definition exportHtmlBlocks :: "('s, 'd) export_env \<Rightarrow> string \<Rightarrow> (string \<times> string) list \<Rightarrow> (('s, 'd) exporter, unit) act" where
  "exportHtmlBlocks X defaultName blocks =
     abind (aread (renderPrintableDocument X blocks)) (\<lambda>(title, html). saveExport X defaultName (Text_data html) ''text/html'')"

definition printNote :: "('s, 'd) export_env \<Rightarrow> string \<Rightarrow> (('s, 'd) exporter, unit) act" where
  "printNote X path =
     abind (on_app (on_files (readTextFile (storage (ee_app X)) path no_options))) (\<lambda>content. printBlocks X [(path, content)])"

definition exportNoteHtml :: "('s, 'd) export_env \<Rightarrow> string \<Rightarrow> (('s, 'd) exporter, unit) act" where
  "exportNoteHtml X path =
     abind (on_app (on_files (readTextFile (storage (ee_app X)) path no_options))) (\<lambda>content.
       exportHtmlBlocks X (noteStem path @ ''.html'') [(path, content)])"

text \<open>Both directory exports read every note below the directory; \<open>False\<close> means that the fuel ran out.\<close>

definition directory_blocks ::
  "('s, 'd) export_env \<Rightarrow> nat \<Rightarrow> string \<Rightarrow> ((string \<times> string) list \<Rightarrow> (('s, 'd) exporter, unit) act) \<Rightarrow> (('s, 'd) exporter, bool) act" where
  "directory_blocks X fuel path finish =
     abind (on_app (collectFiles (ee_app X) fuel path True)) (\<lambda>r.
       case r of
         None \<Rightarrow> aret False
       | Some files \<Rightarrow>
           abind (read_blocks X files []) (\<lambda>blocks. athen (if blocks = [] then aret () else finish blocks) (aret True)))"

definition printDirectory :: "('s, 'd) export_env \<Rightarrow> nat \<Rightarrow> string \<Rightarrow> (('s, 'd) exporter, bool) act" where
  "printDirectory X fuel path = directory_blocks X fuel path (printBlocks X)"

definition exportDirectoryHtml :: "('s, 'd) export_env \<Rightarrow> nat \<Rightarrow> string \<Rightarrow> (('s, 'd) exporter, bool) act" where
  "exportDirectoryHtml X fuel path =
     directory_blocks X fuel path (\<lambda>blocks x.
       exportHtmlBlocks X ((if collection (ex_app x) = Some path then last_segment path else noteStem path) @ ''.html'') blocks x)"

section \<open>What the walk finds\<close>

text \<open>
  The way from the directory to a file: no hidden directory, except that below \<open>.tactile\<close> exactly \<open>daily\<close>
  is entered. The name of the file itself may start with a dot.
\<close>

fun walkable :: "string list \<Rightarrow> bool" where
  "walkable [] = False"
| "walkable [name] = True"
| "walkable (d # d' # rest) =
     (if starts_with d ''.'' then d = ''.tactile'' \<and> d' = ''daily'' \<and> walkable rest else walkable (d' # rest))"

definition internal_segs :: "string list \<Rightarrow> bool" where
  "internal_segs ss = (case index_of ''.tactile'' ss of None \<Rightarrow> False | Some i \<Rightarrow> \<not> (i + 1 < length ss \<and> ss ! (i + 1) = ''daily''))"

lemma isInternalPath_segs: "path_ok p \<Longrightarrow> isInternalPath p = Inr (internal_segs (norm_segs p))"
  by (simp add: isInternalPath_def pathSegments_eq internal_segs_def)

definition collectable :: "bool \<Rightarrow> tree \<Rightarrow> string list \<Rightarrow> string list set" where
  "collectable md t ds = {ds @ rel | rel. walkable rel \<and> (\<exists>b. t (ds @ rel) = Some (FileN b))
     \<and> (md \<longrightarrow> ends_with (lower (List.last rel)) MARKDOWN_EXTENSION) \<and> \<not> internal_segs (ds @ rel)}"

definition below :: "string list \<Rightarrow> string list set \<Rightarrow> string list set" where
  "below ss S = {q \<in> S. prefix ss q}"

lemma below_child: "ds @ rel \<in> below (ds @ [n]) S \<longleftrightarrow> (\<exists>rest. rel = n # rest) \<and> ds @ rel \<in> S"
  by (cases rel) (auto simp: below_def)

lemma in_collectable:
  "q \<in> collectable md t ds \<longleftrightarrow> (\<exists>rel. q = ds @ rel \<and> walkable rel \<and> (\<exists>b. t q = Some (FileN b))
     \<and> (md \<longrightarrow> ends_with (lower (List.last rel)) MARKDOWN_EXTENSION) \<and> \<not> internal_segs q)"
  by (auto simp: collectable_def)

lemma collectableE:
  assumes "q \<in> collectable md t ds"
  obtains n rest b where "q = ds @ n # rest" "t q = Some (FileN b)"
proof -
  obtain rel b where "q = ds @ rel" "walkable rel" "t q = Some (FileN b)" using assms by (auto simp: in_collectable)
  then show ?thesis using that by (cases rel) auto
qed

lemma below_dir:
  assumes "t (ds @ [n]) = Some DirN"
  shows "below (ds @ [n]) (collectable md t ds) =
    (if \<not> starts_with n ''.'' then collectable md t (ds @ [n])
     else if n = ''.tactile'' then collectable md t (ds @ [''.tactile'', ''daily'']) else {})" (is "?L = ?R")
proof (rule set_eqI)
  fix q
  show "q \<in> ?L \<longleftrightarrow> q \<in> ?R"
  proof (cases "\<exists>d rest. q = ds @ n # d # rest")
    case True
    then obtain d rest where q: "q = ds @ n # d # rest" by blast
    show ?thesis
      using assms by (cases rest) (auto simp: below_def in_collectable q)
  next
    case False
    have "q \<notin> ?L"
    proof
      assume q: "q \<in> ?L"
      then obtain n' rest b where r: "q = ds @ n' # rest" "t q = Some (FileN b)" by (auto simp: below_def elim: collectableE)
      have "n' = n" using q by (simp add: below_def r(1))
      moreover have "rest \<noteq> []" using assms r \<open>n' = n\<close> by auto
      ultimately show False using False r(1) by (cases rest) auto
    qed
    moreover have "q \<notin> ?R"
    proof
      assume "q \<in> ?R"
      then consider "q \<in> collectable md t (ds @ [n])" | "n = ''.tactile''" "q \<in> collectable md t (ds @ [''.tactile'', ''daily''])"
        by (auto split: if_splits)
      then show False by cases (use False in \<open>auto elim: collectableE\<close>)
    qed
    ultimately show ?thesis by blast
  qed
qed

lemma single_set:
  assumes "\<And>q. q \<in> A \<Longrightarrow> q = x"
  shows "A = (if x \<in> A then {x} else {})"
proof -
  have "A \<subseteq> {x}" by (rule subsetI) (drule assms, simp)
  then have "A = {} \<or> A = {x}" by (simp only: subset_singleton_iff)
  then show ?thesis by (elim disjE) simp_all
qed

lemma below_file:
  assumes "tree_ok t" "t (ds @ [n]) = Some (FileN b)"
  shows "below (ds @ [n]) (collectable md t ds) =
    (if (\<not> md \<or> ends_with (lower n) MARKDOWN_EXTENSION) \<and> \<not> internal_segs (ds @ [n]) then {ds @ [n]} else {})"
proof -
  have "q = ds @ [n]" if "q \<in> below (ds @ [n]) (collectable md t ds)" for q
  proof -
    have "prefix (ds @ [n]) q" "t q \<noteq> None" using that by (auto simp: below_def in_collectable)
    then show ?thesis using tree_ok_under_file [OF assms, of q] unfolding strict_prefix_def by metis
  qed
  moreover have "ds @ [n] \<in> below (ds @ [n]) (collectable md t ds)
      \<longleftrightarrow> (\<not> md \<or> ends_with (lower n) MARKDOWN_EXTENSION) \<and> \<not> internal_segs (ds @ [n])"
    using assms(2) by (auto simp: below_def in_collectable)
  ultimately show ?thesis using single_set [of "below (ds @ [n]) (collectable md t ds)" "ds @ [n]"] by simp
qed

lemma collectable_listing:
  assumes "tree_ok t" "listing_of t ds es"
  shows "collectable md t ds = (\<Union>e \<in> set es. below (ds @ [de_name e]) (collectable md t ds))"
proof -
  have "\<exists>e \<in> set es. q \<in> below (ds @ [de_name e]) (collectable md t ds)" if q: "q \<in> collectable md t ds" for q
  proof -
    obtain n rest b where r: "q = ds @ n # rest" "t q = Some (FileN b)" using q by (rule collectableE)
    have "prefix (ds @ [n]) q" by (simp add: r(1))
    then have "t (ds @ [n]) \<noteq> None" using tree_ok_under_none [OF assms(1) _, of "ds @ [n]" q] unfolding r(2) by blast
    then have "n \<in> set (map de_name es)" by (rule contrapos_np) (rule listing_absent [OF assms(2)])
    then obtain e where e: "e \<in> set es" "de_name e = n" by auto
    have "q \<in> below (ds @ [de_name e]) (collectable md t ds)" using q e(2) by (simp add: below_def r(1))
    then show ?thesis using e(1) by blast
  qed
  moreover have "below x S \<subseteq> S" for x S by (simp add: below_def)
  ultimately show ?thesis by blast
qed

lemma collectable_none: "tree_ok t \<Longrightarrow> t ds \<noteq> Some DirN \<Longrightarrow> collectable md t ds = {}"
proof -
  assume a: "tree_ok t" "t ds \<noteq> Some DirN"
  have False if "q \<in> collectable md t ds" for q
    using that by (rule collectableE) (use a tree_ok_prefix [of t ds] in auto)
  then show ?thesis by blast
qed

text \<open>What a part of the walk returns: the files it adds, each once, and the application as it was.\<close>

definition adds :: "string list set \<Rightarrow> string list \<Rightarrow> ('s, 'd) app \<Rightarrow> string list option res \<times> ('s, 'd) app \<Rightarrow> bool" where
  "adds S files w r \<longleftrightarrow> (\<exists>new. r = (Inr (Some (files @ new)), w) \<and> distinct (map norm_segs new)
     \<and> norm_segs ` set new = S \<and> (\<forall>p \<in> set new. path_ok p))"

lemma adds_none [simp]: "adds {} files w (Inr (Some files), w)"
  by (simp add: adds_def)

lemma below_apart: "a \<noteq> b \<Longrightarrow> below (ds @ [a]) S \<inter> below (ds @ [b]) S' = {}"
  by (auto simp: below_def prefix_def)

lemma collect_entries_adds:
  assumes t: "tree_ok t" "listing_of t (norm_segs dir) es" and dir: "path_ok dir"
    and walk: "\<And>sub files. path_ok sub \<Longrightarrow> (\<exists>n. t (norm_segs dir @ [n]) = Some DirN \<and> prefix (norm_segs dir @ [n]) (norm_segs sub)) \<Longrightarrow>
        adds (collectable md t (norm_segs sub)) files w (walk sub files w)"
  shows "set es' \<subseteq> set es \<Longrightarrow> distinct (map de_name es') \<Longrightarrow>
    adds (\<Union>e \<in> set es'. below (norm_segs dir @ [de_name e]) (collectable md t (norm_segs dir))) files w
      (collect_entries walk md dir es' files w)"
proof (induction es' arbitrary: files)
  case Nil
  then show ?case by (simp add: act_simps)
next
  case (Cons e es')
  let ?ds = "norm_segs dir" and ?p = "single_slash (dir @ ''/'' @ de_name e)"
  let ?here = "below (?ds @ [de_name e]) (collectable md t ?ds)"
  let ?step = "if isDirectory e
         then if \<not> starts_with (de_name e) ''.'' then walk ?p files
              else if de_name e = ''.tactile'' then walk (?p @ ''/daily'') files
              else aret (Some files)
         else if isFile e \<and> (\<not> md \<or> ends_with (lower (de_name e)) MARKDOWN_EXTENSION)
         then abind (alift (isInternalPath ?p)) (\<lambda>internal. aret (Some (if internal then files else files @ [?p])))
         else aret (Some files)"
  have "e \<in> set es" using Cons.prems(1) by simp
  note e = entry_child [OF t this]
  note p = child_path [OF dir e(1)]
  have daily: "path_ok (?p @ ''/daily'')" "norm_segs (?p @ ''/daily'') = norm_segs ?p @ [''daily'']"
    using path_append_seg [OF p(1), of "''daily''"] by (simp_all add: seg_ok_def)
  have step: "adds ?here files w (?step w)"
  proof (cases "isDirectory e")
    case True
    then have d: "t (?ds @ [de_name e]) = Some DirN" using e(2) by simp
    have w1: "adds (collectable md t (?ds @ [de_name e])) files w (walk ?p files w)"
      using walk [OF p(1), of files] d unfolding p(2) by blast
    have w2: "adds (collectable md t (?ds @ [de_name e, ''daily''])) files w (walk (?p @ ''/daily'') files w)"
      using walk [OF daily(1), of files] d unfolding daily(2) p(2) by auto
    show ?thesis unfolding below_dir [of t ?ds "de_name e" md, OF d] using True w1 w2 by (cases "de_name e = ''.tactile''") (simp_all add: act_simps)
  next
    case False
    show ?thesis
    proof (cases "isFile e")
      case True
      then obtain b where "t (?ds @ [de_name e]) = Some (FileN b)" using e(3) by blast
      note leaf = below_file [OF t(1) this, of md]
      have "isInternalPath ?p = Inr (internal_segs (?ds @ [de_name e]))" using isInternalPath_segs [OF p(1)] p(2) by simp
      then have out: "?step w = (Inr (Some (files @ (if ?here = {} then [] else [?p]))), w)"
        unfolding leaf using False True by (simp add: act_simps)
      have "norm_segs ` set (if ?here = {} then [] else [?p]) = ?here" unfolding leaf using p(2) by simp
      then show ?thesis
        unfolding adds_def by (intro exI [of _ "if ?here = {} then [] else [?p]"]) (use out p(1) in simp)
    next
      case none: False
      then have "t (?ds @ [de_name e]) = None" using e(2,3) False by (metis node.exhaust option.exhaust)
      moreover have "t (?ds @ [de_name e]) \<noteq> None" using listing_of_name [OF t(2) \<open>e \<in> set es\<close>] by auto
      ultimately show ?thesis by simp
    qed
  qed
  obtain new where new: "?step w = (Inr (Some (files @ new)), w)" "distinct (map norm_segs new)" "norm_segs ` set new = ?here"
    "\<forall>p \<in> set new. path_ok p" using step unfolding adds_def by blast
  have rest: "collect_entries walk md dir (e # es') files w = collect_entries walk md dir es' (files @ new) w"
    using new(1) by (simp only: collect_entries.simps Let_def abind_apply prod.case sum.case option.case)
  obtain more where more: "collect_entries walk md dir es' (files @ new) w = (Inr (Some ((files @ new) @ more)), w)"
    "distinct (map norm_segs more)" "norm_segs ` set more = (\<Union>e \<in> set es'. below (?ds @ [de_name e]) (collectable md t ?ds))"
    "\<forall>p \<in> set more. path_ok p"
    using Cons.IH [of "files @ new"] Cons.prems unfolding adds_def by auto
  have "?here \<inter> below (?ds @ [de_name e']) (collectable md t ?ds) = {}" if "e' \<in> set es'" for e'
    using Cons.prems(2) that by (intro below_apart) auto
  then have apart: "norm_segs ` set new \<inter> norm_segs ` set more = {}" unfolding new(3) more(3) by blast
  have "distinct (map norm_segs (new @ more))" using new(2) more(2) apart by simp
  moreover have "norm_segs ` set (new @ more) = (\<Union>e \<in> set (e # es'). below (?ds @ [de_name e]) (collectable md t ?ds))"
    using new(3) more(3) by (simp only: set_append image_Un) simp
  moreover have "\<forall>p \<in> set (new @ more). path_ok p" using new(4) more(4) by (simp only: set_append ball_Un)
  ultimately show ?case
    unfolding adds_def rest more(1) append_assoc by (intro exI [of _ "new @ more"] conjI refl)
qed

context storage_backend
begin

lemma collect_walk_adds:
  assumes "storage E = B" "inv (ap_store w)"
  shows "path_ok dir \<Longrightarrow> 0 < fuel \<Longrightarrow>
    (\<And>q. fs (ap_store w) q = Some DirN \<Longrightarrow> prefix (norm_segs dir) q \<Longrightarrow> length q < length (norm_segs dir) + fuel) \<Longrightarrow>
    adds (collectable md (fs (ap_store w)) (norm_segs dir)) files w (collect_walk E md fuel dir files w)"
proof (induction fuel arbitrary: dir files)
  case (Suc fuel)
  let ?t = "fs (ap_store w)" and ?ds = "norm_segs dir"
  obtain r where r: "readDir B dir no_options (ap_store w) = (r, ap_store w)"
    "\<forall>e. r = Inl e \<longrightarrow> list_error ?t ?ds \<noteq> None \<and> e = StorageError (the (list_error ?t ?ds))"
    "\<forall>es. r = Inr es \<longrightarrow> list_error ?t ?ds = None \<and> listing_of ?t ?ds es"
    by (rule read_dir_result [OF assms(2) Suc.prems(1)], rule that; assumption)
  have t: "tree_ok ?t" using assms(2) by (rule tree_ok)
  show ?case
  proof (cases r)
    case (Inl e)
    then have "?t ?ds \<noteq> Some DirN" using r(2) by (auto simp: list_error_def)
    then show ?thesis using r(1) Inl assms(1) by (simp add: act_simps collectable_none [OF t])
  next
    case (Inr es)
    have es: "listing_of ?t ?ds es" using r(3) Inr by simp
    have walk: "adds (collectable md ?t (norm_segs sub)) files w (collect_walk E md fuel sub files w)"
      if sub: "path_ok sub" "\<exists>n. ?t (?ds @ [n]) = Some DirN \<and> prefix (?ds @ [n]) (norm_segs sub)" for sub files
    proof -
      obtain n where n: "?t (?ds @ [n]) = Some DirN" "prefix (?ds @ [n]) (norm_segs sub)" using sub(2) by blast
      note next_level = deeper_fuel [of ?t ?ds n "norm_segs sub" fuel, OF n Suc.prems(3)]
      show ?thesis by (rule Suc.IH [OF sub(1) next_level])
    qed
    have "distinct (map de_name es)" using es by (simp add: listing_of_def)
    from collect_entries_adds [where walk = "collect_walk E md fuel" and md = md and w = w, OF t es Suc.prems(1) walk subset_refl this, of files]
    show ?thesis using r(1) Inr assms(1) by (simp add: act_simps collectable_listing [OF t es, symmetric])
  qed
qed simp

lemma collect_files:
  assumes "storage E = B" "inv (ap_store w)" "path_ok dir"
    and "\<And>q. fs (ap_store w) q = Some DirN \<Longrightarrow> length q < fuel"
  obtains files where "collectFiles E fuel dir md w = (Inr (Some files), w)" "distinct (map norm_segs files)"
    "norm_segs ` set files = collectable md (fs (ap_store w)) (norm_segs dir)" "\<forall>p \<in> set files. path_ok p"
proof -
  have "0 < fuel" using assms(4) [of "[]"] tree_okD(2) [OF tree_ok [OF assms(2)]] by simp
  from collect_walk_adds [OF assms(1-3) this, of md "[]"] assms(4) that
  show ?thesis by (fastforce simp: adds_def collectFiles_def)
qed

end


context storage_backend
begin

lemma zip_one_reads:
  assumes "storage (ee_app X) = B" "inv (ap_store (ex_app x))" "path_ok p" "fs (ap_store (ex_app x)) (norm_segs p) = Some (FileN b)"
  obtains e where "zip_one X nm p acc x = (Inr (acc @ [e]), x)" "ze_name e = nm p" "ze_data e = b"
proof -
  let ?t = "fs (ap_store (ex_app x))"
  have "norm_segs p \<noteq> []" using assms(4) tree_okD(2) [OF tree_ok [OF assms(2)]] by auto
  then have r: "readFile B p no_options (ap_store (ex_app x)) = (Inr b, ap_store (ex_app x))"
    using readFile_law [OF assms(2,3), of no_options] assms(4) by (simp add: read_error_def)
  obtain st where s: "stat B p no_options (ap_store (ex_app x)) = (Inr st, ap_store (ex_app x))"
    using stat_law [OF assms(2,3), of no_options] assms(4) by auto
  show ?thesis
    by (rule that [of "\<lparr>ze_name = nm p, ze_data = b, ze_modified = map_option (localDate X) (st_mtime st)\<rparr>"])
      (use r s assms(1) in \<open>simp_all add: zip_one_def on_app_def act_simps\<close>)
qed

lemma zip_all_reads:
  assumes "storage (ee_app X) = B" "inv (ap_store (ex_app x))"
  shows "\<forall>p \<in> set paths. path_ok p \<and> (\<exists>b. fs (ap_store (ex_app x)) (norm_segs p) = Some (FileN b)) \<Longrightarrow>
    \<exists>new. zip_all X nm paths acc x = (Inr (acc @ new), x) \<and> map ze_name new = map nm paths
      \<and> map (\<lambda>e. Some (FileN (ze_data e))) new = map (\<lambda>p. fs (ap_store (ex_app x)) (norm_segs p)) paths"
proof (induction paths arbitrary: acc)
  case Nil
  then show ?case by (simp add: act_simps)
next
  case (Cons p paths)
  obtain b where p: "path_ok p" "fs (ap_store (ex_app x)) (norm_segs p) = Some (FileN b)" using Cons.prems by auto
  obtain e where e: "zip_one X nm p acc x = (Inr (acc @ [e]), x)" "ze_name e = nm p" "ze_data e = b"
    by (rule zip_one_reads [OF assms p])
  obtain new where new: "zip_all X nm paths (acc @ [e]) x = (Inr ((acc @ [e]) @ new), x)" "map ze_name new = map nm paths"
    "map (\<lambda>e. Some (FileN (ze_data e))) new = map (\<lambda>p. fs (ap_store (ex_app x)) (norm_segs p)) paths"
    using Cons.IH [of "acc @ [e]"] Cons.prems by auto
  show ?case by (rule exI [of _ "e # new"]) (use e new p(2) in \<open>simp add: act_simps\<close>)
qed

end

context storage_backend
begin

lemma export_tree_saves:
  assumes "storage (ee_app X) = B" "inv (ap_store (ex_app x))" "path_ok dir" "\<And>nm d ty. saveExport X nm d ty = browser_save nm d ty"
    and deep: "\<And>q. fs (ap_store (ex_app x)) q = Some DirN \<Longrightarrow> length q < fuel"
    and some: "collectable False (fs (ap_store (ex_app x))) (norm_segs dir) \<noteq> {}"
  shows "\<exists>paths items dates x'. export_tree X fuel dir pfx archive m1 m2 x = (Inr True, x')
    \<and> distinct (map norm_segs paths) \<and> norm_segs ` set paths = collectable False (fs (ap_store (ex_app x))) (norm_segs dir)
    \<and> map ze_name items = map (strip_prefix pfx) paths
    \<and> map (\<lambda>e. Some (FileN (ze_data e))) items = map (\<lambda>p. fs (ap_store (ex_app x)) (norm_segs p)) paths
    \<and> ex_saved x' = ex_saved x @ [\<lparr>sx_name = sanitizeFilename archive, sx_data = Bytes_data (createZip items dates), sx_mime = ''application/zip''\<rparr>]
    \<and> ap_store (ex_app x') = ap_store (ex_app x)"
proof -
  let ?t = "fs (ap_store (ex_app x))"
  obtain paths where c: "collectFiles (ee_app X) fuel dir False (ex_app x) = (Inr (Some paths), ex_app x)"
    "distinct (map norm_segs paths)" "norm_segs ` set paths = collectable False ?t (norm_segs dir)" "\<forall>p \<in> set paths. path_ok p"
    by (rule collect_files [OF assms(1-3) deep])
  have stored: "\<forall>p \<in> set paths. path_ok p \<and> (\<exists>b. ?t (norm_segs p) = Some (FileN b))"
  proof
    fix p assume p: "p \<in> set paths"
    then have "norm_segs p \<in> collectable False ?t (norm_segs dir)" using c(3) by blast
    then show "path_ok p \<and> (\<exists>b. ?t (norm_segs p) = Some (FileN b))" using c(4) p by (auto simp: collectable_def)
  qed
  obtain items where z: "zip_all X (strip_prefix pfx) paths [] x = (Inr items, x)" "map ze_name items = map (strip_prefix pfx) paths"
    "map (\<lambda>e. Some (FileN (ze_data e))) items = map (\<lambda>p. ?t (norm_segs p)) paths"
    using zip_all_reads [OF assms(1,2) stored, of "strip_prefix pfx" "[]"] by auto
  have ne: "paths \<noteq> []" using some c(3) by auto
  then have "items \<noteq> []" using z(2) by auto
  have "on_app (collectFiles (ee_app X) fuel dir False) x = (Inr (Some paths), x)" using c(1) by (simp add: on_app_def)
  moreover obtain dates x1 where b: "build_archive X items x = (Inr (createZip items dates), x1)" "ex_saved x1 = ex_saved x"
    "ap_store (ex_app x1) = ap_store (ex_app x)" by (simp add: build_archive_def Let_def)
  ultimately show ?thesis
    using ne \<open>items \<noteq> []\<close> z c(2,3) assms(4)
    by (intro exI [of _ paths] exI [of _ items] exI [of _ dates])
      (simp add: export_tree_def zipPaths_def act_simps browser_save_def on_app_def)
qed

end


definition export_demo :: "(idb, string) export_env" where
  "export_demo = \<lparr>ee_app = note_env, saveExport = browser_save,
     localDate = (\<lambda>ms. \<lparr>fullYear = 2024, month = 0, day = 1, hours = 0, minutes = 0, seconds = 0\<rparr>),
     renderMarkdown = escapeHtml, printStyles = [], printPage = (\<lambda>_. aret ())\<rparr>"


end
