(* ===== verification/Search.thy ===== *)
theory Search
  imports Links "HOL-Library.Multiset"
begin

text \<open>
  Full-text search (\<open>utils/search.ts\<close>): the content cache with its first scan and its change events, the
  search of one file, the ranking over all files, and the grouping of results by file.
\<close>

section \<open>One file\<close>

definition MAX_MATCHES_PER_FILE :: nat where "MAX_MATCHES_PER_FILE = 12"
definition MAX_RESULTS :: nat where "MAX_RESULTS = 400"

datatype result_kind = Name_result | Content_result

record search_result =
  sr_path :: string
  context_preview :: string
  sr_kind :: result_kind
  sr_line :: "nat option"
  sr_score :: int
  sr_highlights :: "(nat \<times> nat) list"

record file_search_result =
  fr_results :: "search_result list"
  fr_score :: int

text \<open>All terms on one text: the sum of the scores and the indices one term after the other.\<close>

fun match_terms :: "string list \<Rightarrow> string \<Rightarrow> match_mode \<Rightarrow> bool \<Rightarrow> int \<Rightarrow> nat list \<Rightarrow> (int \<times> nat list) option" where
  "match_terms [] hay mode cs sc idx = Some (sc, idx)"
| "match_terms (trm # terms) hay mode cs sc idx =
     (case matchTerm trm hay mode cs of
        None \<Rightarrow> None
      | Some m \<Rightarrow> match_terms terms hay mode cs (sc + score m) (idx @ indices m))"

definition line_result :: "string \<Rightarrow> string list \<Rightarrow> nat \<Rightarrow> int \<Rightarrow> nat list \<Rightarrow> search_result" where
  "line_result path lines i sc idx =
     (let startLine = i - 1; endLine = min (length lines - 1) (i + 1);
          context = join_with [CHR 0x0A] (take (endLine + 1 - startLine) (drop startLine lines));
          lineOffset = sum_list (map (\<lambda>l. length l + 1) (take (i - startLine) (drop startLine lines)))
      in \<lparr>sr_path = path, context_preview = context, sr_kind = Content_result, sr_line = Some (i + 1), sr_score = sc,
          sr_highlights = toHighlightRanges (map (\<lambda>k. k + lineOffset) idx)\<rparr>)"

fun line_loop ::
  "string \<Rightarrow> string list \<Rightarrow> string list \<Rightarrow> match_mode \<Rightarrow> bool \<Rightarrow> nat \<Rightarrow> string list \<Rightarrow> search_result list \<Rightarrow> int
     \<Rightarrow> search_result list \<times> int" where
  "line_loop path lines terms mode cs i [] lineResults best = (lineResults, best)"
| "line_loop path lines terms mode cs i (line # rest) lineResults best =
     (if length lineResults < MAX_MATCHES_PER_FILE
      then if trim line = [] then line_loop path lines terms mode cs (i + 1) rest lineResults best
           else case match_terms terms line mode cs 0 [] of
             None \<Rightarrow> line_loop path lines terms mode cs (i + 1) rest lineResults best
           | Some (sc, idx) \<Rightarrow>
               line_loop path lines terms mode cs (i + 1) rest (lineResults @ [line_result path lines i sc idx]) (max best sc)
      else (lineResults, best))"

definition searchFile ::
  "string \<Rightarrow> string \<Rightarrow> string list \<Rightarrow> match_mode \<Rightarrow> bool \<Rightarrow> file_search_result option" where
  "searchFile path content terms mode cs =
     (let name = last_segment path; byName = match_terms terms name mode cs 0 [];
          lines = split_on CHR 0x0A content in
      case line_loop path lines terms mode cs 0 lines [] 0 of (lineResults, best) \<Rightarrow>
        if byName = None \<and> (list_ex (\<lambda>trm. matchTerm trm content mode cs = None) terms \<or> lineResults = []) then None
        else Some
          \<lparr>fr_results = (case byName of None \<Rightarrow> []
              | Some (sc, idx) \<Rightarrow> [\<lparr>sr_path = path, context_preview = name, sr_kind = Name_result, sr_line = None,
                  sr_score = sc, sr_highlights = toHighlightRanges idx\<rparr>])
              @ sort_key (\<lambda>r. - sr_score r) lineResults,
           fr_score = (case byName of None \<Rightarrow> 0 | Some (sc, idx) \<Rightarrow> sc + 100) + best + int (length lineResults) * 3\<rparr>)"

section \<open>All files\<close>

lemma dropWhile_word: "dropWhile is_space s = c # cs \<Longrightarrow> length (dropWhile (\<lambda>x. \<not> is_space x) (c # cs)) < length s"
proof -
  assume s: "dropWhile is_space s = c # cs"
  then have "\<not> is_space c" using hd_dropWhile [of is_space s] by simp
  then have "length (dropWhile (\<lambda>x. \<not> is_space x) (c # cs)) \<le> length cs" by (simp add: length_dropWhile_le)
  moreover have "length (c # cs) \<le> length s" using s length_dropWhile_le [of is_space s] by simp
  ultimately show ?thesis by simp
qed

function words_of :: "string \<Rightarrow> string list" where
  "words_of s =
     (case dropWhile is_space s of
        [] \<Rightarrow> []
      | c # cs \<Rightarrow> takeWhile (\<lambda>x. \<not> is_space x) (c # cs) # words_of (dropWhile (\<lambda>x. \<not> is_space x) (c # cs)))"
  by pat_completeness auto

termination
  by (relation "measure length") (simp_all only: in_measure dropWhile_word wf_measure)

declare words_of.simps [simp del]

definition search_contents ::
  "string \<Rightarrow> (string \<times> string) list \<Rightarrow> string list \<Rightarrow> match_mode \<Rightarrow> bool \<Rightarrow> search_result list res" where
  "search_contents collectionPath contents terms mode cs =
     res_bind (filter_res (\<lambda>(path, content).
         res_bind (isUnder path collectionPath) (\<lambda>under.
           if \<not> under then Inr False else res_bind (isInternalPath path) (\<lambda>internal. Inr (\<not> internal)))) contents) (\<lambda>visible.
       let perFile = List.map_filter (\<lambda>(path, content). searchFile path content terms mode cs) visible
       in Inr (take MAX_RESULTS (concat (map fr_results (sort_key (\<lambda>f. - fr_score f) perFile)))))"

section \<open>The content cache\<close>

record ('s, 'd) searcher =
  se_app :: "('s, 'd) app"
  contentCache :: "(string \<times> string) list"
  cacheCollection :: "string option"
  cacheSubscribed :: bool

definition on_searched :: "(('s, 'd) app, 'a) act \<Rightarrow> (('s, 'd) searcher, 'a) act" where
  "on_searched m = (\<lambda>x. case m (se_app x) of (r, w) \<Rightarrow> (r, x\<lparr>se_app := w\<rparr>))"

text \<open>Reading one file into the cache; a file that cannot be read is left out.\<close>

definition cache_file :: "('s, 'd) app_env \<Rightarrow> string \<Rightarrow> (('s, 'd) searcher, unit) act" where
  "cache_file E path =
     acatch (abind (on_searched (on_files (readTextFile (storage E) path no_options))) (\<lambda>content.
        amodify (\<lambda>x. x\<lparr>contentCache := AList.update path content (contentCache x)\<rparr>))) (\<lambda>_. aret ())"

text \<open>The scan, with its depth as fuel; \<open>False\<close> means that it ran out.\<close>

fun cache_entries ::
  "('s, 'd) app_env \<Rightarrow> (string \<Rightarrow> (('s, 'd) searcher, bool) act) \<Rightarrow> string \<Rightarrow> dir_entry list \<Rightarrow> (('s, 'd) searcher, bool) act" where
  "cache_entries E walk dirPath [] = aret True"
| "cache_entries E walk dirPath (entry # items) =
     (let path = single_slash (dirPath @ ''/'' @ de_name entry) in
      abind
        (if isDirectory entry
         then if \<not> starts_with (de_name entry) ''.'' then walk path
              else if de_name entry = ''.tactile'' then walk (path @ ''/daily'')
              else aret True
         else if ends_with (lower (de_name entry)) MARKDOWN_EXTENSION
         then abind (alift (isInternalPath path)) (\<lambda>internal. if internal then aret True else athen (cache_file E path) (aret True))
         else aret True)
        (\<lambda>ok. if ok then cache_entries E walk dirPath items else aret False))"

fun cache_walk :: "('s, 'd) app_env \<Rightarrow> nat \<Rightarrow> string \<Rightarrow> (('s, 'd) searcher, bool) act" where
  "cache_walk E 0 dirPath = aret False"
| "cache_walk E (Suc fuel) dirPath =
     abind (acatch (abind (on_searched (on_files (readDir (storage E) dirPath no_options))) (\<lambda>items. aret (Some items))) (\<lambda>_. aret None)) (\<lambda>r.
       case r of None \<Rightarrow> aret True | Some items \<Rightarrow> cache_entries E (cache_walk E fuel) dirPath items)"

definition ensureCache :: "('s, 'd) app_env \<Rightarrow> nat \<Rightarrow> string \<Rightarrow> (('s, 'd) searcher, bool) act" where
  "ensureCache E fuel collectionPath =
     athen (amodify (\<lambda>x. if cacheCollection x \<noteq> Some collectionPath
                         then x\<lparr>contentCache := [], cacheCollection := Some collectionPath, cacheSubscribed := True\<rparr>
                         else x\<lparr>cacheSubscribed := True\<rparr>))
       (\<lambda>x. if contentCache x \<noteq> [] then (Inr True, x) else cache_walk E fuel collectionPath x)"

text \<open>
  The listener on storage changes: it drops what the event touches, and says whether the file is read again,
  which happens later.
\<close>

definition on_search_change :: "change_event \<Rightarrow> (('s, 'd) searcher, bool) act" where
  "on_search_change event =
     athen (amodify (\<lambda>x. x\<lparr>contentCache := AList.delete (ev_path event)
              (case oldPath event of None \<Rightarrow> contentCache x
               | Some old \<Rightarrow> if old = [] then contentCache x else AList.delete old (contentCache x))\<rparr>))
       (if ev_kind event \<noteq> Deleted \<and> ends_with (lower (ev_path event)) MARKDOWN_EXTENSION
        then abind (alift (isInternalPath (ev_path event))) (\<lambda>internal. aret (\<not> internal))
        else aret False)"

definition searchEntries ::
  "('s, 'd) app_env \<Rightarrow> nat \<Rightarrow> string \<Rightarrow> string \<Rightarrow> match_mode \<Rightarrow> bool \<Rightarrow> (('s, 'd) searcher, search_result list option) act" where
  "searchEntries E fuel collectionPath query mode caseSensitive =
     (let terms = words_of (trim query) in
      if terms = [] then aret (Some [])
      else abind (ensureCache E fuel collectionPath) (\<lambda>ok.
        if \<not> ok then aret None
        else abind (aread contentCache) (\<lambda>contents.
          abind (alift (search_contents collectionPath contents terms mode caseSensitive)) (\<lambda>rs. aret (Some rs)))))"

text \<open>\<open>groupResultsByPath\<close>: an object keyed by path, in the order in which the paths first occur.\<close>

definition groupResultsByPath :: "search_result list \<Rightarrow> (string \<times> search_result list) list" where
  "groupResultsByPath results =
     fold (\<lambda>r grouped. AList.update (sr_path r)
        ((case map_of grouped (sr_path r) of None \<Rightarrow> [] | Some rs \<Rightarrow> rs) @ [r]) grouped) results []"

section \<open>Matches\<close>

lemma covered_range_loop: "a < b \<Longrightarrow> covered (range_loop xs [] a b) = {a..<b} \<union> set xs"
proof (induction xs arbitrary: a b)
  case (Cons x xs)
  show ?case
  proof (cases "x = b")
    case True
    have "{a..<b + 1} = insert b {a..<b}" using Cons.prems by auto
    then show ?thesis using True Cons.IH [of a "b + 1"] Cons.prems by simp
  next
    case False
    then show ?thesis
      using Cons.IH [of x "x + 1"] range_loop_append [of xs "[(a, b)]" x "x + 1"] by (simp add: covered_def)
  qed
qed (simp add: covered_def)

lemma covered_highlights: "covered (toHighlightRanges idx) = set idx"
proof (cases "sort idx")
  case Nil
  then have "idx = []" by (metis set_empty set_sort)
  then show ?thesis by (simp add: toHighlightRanges_def covered_def)
next
  case (Cons x xs)
  then have "set idx = insert x (set xs)" by (metis list.simps(15) set_sort)
  then show ?thesis using covered_range_loop [of x "x + 1" xs] by (simp add: toHighlightRanges_def Cons)
qed

lemma picks_matchTerm: "matchTerm t hay mode cs = Some m \<Longrightarrow> picks (fold_case cs hay) (indices m) (fold_case cs t)"
  using matchTerm_law [of cs hay t mode] by (simp add: Let_def)

lemma match_terms_spec:
  "(match_terms terms hay mode cs sc idx = None) = (\<exists>t \<in> set terms. matchTerm t hay mode cs = None)"
  "match_terms terms hay mode cs sc idx = Some (sc', idx') \<Longrightarrow>
     set idx \<subseteq> set idx' \<and> (\<forall>t \<in> set terms. \<exists>is. set is \<subseteq> set idx' \<and> picks (fold_case cs hay) is (fold_case cs t))
     \<and> (\<forall>i \<in> set idx'. i \<in> set idx \<or> i < length hay)"
proof (induction terms arbitrary: sc idx)
  case (Cons t terms)
  case 1
  show ?case using Cons.IH(1) by (auto split: option.splits)
next
  case (Cons t terms)
  case 2
  then obtain m where m: "matchTerm t hay mode cs = Some m" "match_terms terms hay mode cs (sc + score m) (idx @ indices m) = Some (sc', idx')"
    by (auto split: option.splits)
  have p: "picks (fold_case cs hay) (indices m) (fold_case cs t)" using m(1) by (rule picks_matchTerm)
  moreover have "\<forall>i \<in> set (indices m). i < length hay" using p by (simp add: picks_def)
  ultimately show ?case using Cons.IH(2) [OF m(2)] by auto
qed simp_all

lemma join_with_parts:
  "k < length ws \<Longrightarrow> \<exists>pre post. join_with [c] ws = pre @ ws ! k @ post
     \<and> length pre = sum_list (map (\<lambda>l. length l + 1) (take k ws)) \<and> (pre = [] \<or> List.last pre = c) \<and> (post = [] \<or> hd post = c)"
proof (induction ws arbitrary: k)
  case (Cons w ws)
  show ?case
  proof (cases k)
    case 0
    then show ?thesis
      by (intro exI [of _ "[]"] exI [of _ "if ws = [] then [] else c # join_with [c] ws"]) (simp add: join_with_Cons)
  next
    case (Suc j)
    then have "j < length ws" using Cons.prems by simp
    then obtain pre post where p: "join_with [c] ws = pre @ ws ! j @ post"
      "length pre = sum_list (map (\<lambda>l. length l + 1) (take j ws))" "pre = [] \<or> List.last pre = c" "post = [] \<or> hd post = c"
      using Cons.IH by blast
    have "ws \<noteq> []" using \<open>j < length ws\<close> by auto
    then have "join_with [c] (w # ws) = (w @ c # pre) @ ws ! j @ post" by (simp add: join_with_Cons p(1))
    moreover have "List.last (w @ c # pre) = c" using p(3) by auto
    ultimately show ?thesis
      using Suc p(2,4) by (intro exI [of _ "w @ c # pre"] exI [of _ post]) simp
  qed
qed simp

lemma fold_case_append [simp]: "fold_case cs (a @ b) = fold_case cs a @ fold_case cs b"
  by (simp add: fold_case_def)

lemma picks_shift: "picks xs is ys \<Longrightarrow> picks (pre @ xs @ post) (map (\<lambda>k. k + length pre) is) ys"
  by (auto simp: picks_def sorted_wrt_map nth_append)

text \<open>The highlights of a result lie in its preview, and for every term they contain an occurrence of it.\<close>

definition marks :: "string list \<Rightarrow> bool \<Rightarrow> search_result \<Rightarrow> bool" where
  "marks terms cs r \<longleftrightarrow> (\<forall>i \<in> covered (sr_highlights r). i < length (context_preview r))
     \<and> (\<forall>t \<in> set terms. \<exists>is. set is \<subseteq> covered (sr_highlights r) \<and> picks (fold_case cs (context_preview r)) is (fold_case cs t))"

lemma line_result_marks:
  assumes "i < length lines" "match_terms terms (lines ! i) mode cs 0 [] = Some (sc, idx)"
  shows "marks terms cs (line_result path lines i sc idx)" "sr_path (line_result path lines i sc idx) = path"
proof -
  let ?s = "i - 1" and ?e = "min (length lines - 1) (i + 1)"
  let ?ws = "take (?e + 1 - ?s) (drop ?s lines)"
  have k: "i - ?s < ?e + 1 - ?s" "i - ?s < length ?ws" "?ws ! (i - ?s) = lines ! i"
    using assms(1) by (auto simp: min_def)
  have tk: "take (i - ?s) ?ws = take (i - ?s) (drop ?s lines)" using k(1) by (simp add: min_def)
  obtain pre post where p: "join_with [CHR 0x0A] ?ws = pre @ lines ! i @ post"
    "length pre = sum_list (map (\<lambda>l. length l + 1) (take (i - ?s) (drop ?s lines)))"
    using join_with_parts [OF k(2), of "CHR 0x0A", unfolded k(3) tk] by (elim exE conjE) (rule that)
  define r where "r = line_result path lines i sc idx"
  have r: "context_preview r = pre @ lines ! i @ post" "covered (sr_highlights r) = (\<lambda>k. k + length pre) ` set idx" "sr_path r = path"
    using p by (simp_all add: r_def line_result_def Let_def covered_highlights)
  note m = match_terms_spec(2) [OF assms(2)]
  have "\<exists>is. set is \<subseteq> covered (sr_highlights r) \<and> picks (fold_case cs (context_preview r)) is (fold_case cs t)" if tt: "t \<in> set terms" for t
  proof -
    obtain "is" where i: "set is \<subseteq> set idx" "picks (fold_case cs (lines ! i)) is (fold_case cs t)"
      using bspec [OF conjunct1 [OF conjunct2 [OF m]] tt] by (elim exE conjE) (rule that)
    have "picks (fold_case cs (context_preview r)) (map (\<lambda>k. k + length pre) is) (fold_case cs t)"
      using picks_shift [OF i(2), of "fold_case cs pre" "fold_case cs post"] by (simp add: r(1))
    then show ?thesis using i(1) by (intro exI [of _ "map (\<lambda>k. k + length pre) is"]) (auto simp: r(2))
  qed
  moreover have "\<forall>i \<in> covered (sr_highlights r). i < length (context_preview r)" using m by (auto simp: r(1,2))
  ultimately show "marks terms cs (line_result path lines i sc idx)" unfolding marks_def r_def by blast
  show "sr_path (line_result path lines i sc idx) = path" using r(3) by (simp add: r_def)
qed

definition line_matches :: "string list \<Rightarrow> match_mode \<Rightarrow> bool \<Rightarrow> string \<Rightarrow> bool" where
  "line_matches terms mode cs line \<longleftrightarrow> trim line \<noteq> [] \<and> (\<forall>t \<in> set terms. matchTerm t line mode cs \<noteq> None)"

lemma drop_ConsD: "x # xs = drop i ys \<Longrightarrow> i < length ys \<and> ys ! i = x \<and> xs = drop (i + 1) ys"
  by (cases "i < length ys") (simp_all add: Cons_nth_drop_Suc [symmetric])

lemma line_loop_spec:
  assumes "\<forall>r \<in> set acc. marks terms cs r \<and> sr_path r = path" "length acc \<le> MAX_MATCHES_PER_FILE" "rest = drop i lines"
    and "line_loop path lines terms mode cs i rest acc best = (rs, b)"
  shows "(\<forall>r \<in> set rs. marks terms cs r \<and> sr_path r = path) \<and> length rs \<le> MAX_MATCHES_PER_FILE
    \<and> (rs = [] \<longleftrightarrow> acc = [] \<and> \<not> (\<exists>l \<in> set rest. line_matches terms mode cs l))"
  using assms
proof (induction path lines terms mode cs i rest acc best rule: line_loop.induct)
  case (2 path lines terms mode cs i line rest acc best)
  have i: "i < length lines" "lines ! i = line" "rest = drop (i + 1) lines" using drop_ConsD [OF "2.prems"(3)] by simp_all
  show ?case
  proof (cases "length acc < MAX_MATCHES_PER_FILE")
    case full: False
    then have "acc \<noteq> []" by (auto simp: MAX_MATCHES_PER_FILE_def)
    then show ?thesis using full "2.prems"(1,2,4) by simp
  next
    case room: True
    show ?thesis
    proof (cases "trim line = [] \<or> match_terms terms line mode cs 0 [] = None")
      case True
      then have "line_loop path lines terms mode cs (i + 1) rest acc best = (rs, b)"
        using "2.prems"(4) room by (cases "trim line = []") simp_all
      moreover have "\<not> line_matches terms mode cs line" using True by (auto simp: line_matches_def match_terms_spec(1))
      moreover have IH: "line_loop path lines terms mode cs (i + 1) rest acc best = (rs, b) \<Longrightarrow>
          (\<forall>r \<in> set rs. marks terms cs r \<and> sr_path r = path) \<and> length rs \<le> MAX_MATCHES_PER_FILE
          \<and> (rs = [] \<longleftrightarrow> acc = [] \<and> \<not> (\<exists>l \<in> set rest. line_matches terms mode cs l))"
        using "2.IH"(1) [OF room _ "2.prems"(1,2) i(3)] "2.IH"(2) [OF room _ _ "2.prems"(1,2) i(3)] True
        by (cases "trim line = []") simp_all
      ultimately show ?thesis by simp
    next
      case False
      then obtain sc idx where m: "match_terms terms line mode cs 0 [] = Some (sc, idx)" "trim line \<noteq> []" by fastforce
      let ?acc = "acc @ [line_result path lines i sc idx]"
      have run: "line_loop path lines terms mode cs (i + 1) rest ?acc (max best sc) = (rs, b)"
        using "2.prems"(4) room m by simp
      have good: "\<forall>r \<in> set ?acc. marks terms cs r \<and> sr_path r = path"
        using "2.prems"(1) line_result_marks [OF i(1), of terms mode cs sc idx path] m(1) i(2) by simp
      have len: "length ?acc \<le> MAX_MATCHES_PER_FILE" using room by simp
      have "(\<forall>r \<in> set rs. marks terms cs r \<and> sr_path r = path) \<and> length rs \<le> MAX_MATCHES_PER_FILE
          \<and> (rs = [] \<longleftrightarrow> ?acc = [] \<and> \<not> (\<exists>l \<in> set rest. line_matches terms mode cs l))"
        by (rule "2.IH"(3) [OF room m(2) m(1) refl good len i(3) run])
      moreover have "line_matches terms mode cs line"
        using m match_terms_spec(1) [of terms line mode cs 0 "[]"] by (simp add: line_matches_def)
      ultimately show ?thesis by simp
    qed
  qed
qed simp

lemma searchFile_results:
  assumes "searchFile path content terms mode cs = Some f"
  shows "(\<forall>r \<in> set (fr_results f). marks terms cs r \<and> sr_path r = path) \<and> length (fr_results f) \<le> MAX_MATCHES_PER_FILE + 1"
proof -
  obtain rs b where l: "line_loop path (split_on CHR 0x0A content) terms mode cs 0 (split_on CHR 0x0A content) [] 0 = (rs, b)" by fastforce
  have rs: "\<forall>r \<in> set rs. marks terms cs r \<and> sr_path r = path" "length rs \<le> MAX_MATCHES_PER_FILE"
    using line_loop_spec [OF _ _ _ l] by simp_all
  show ?thesis
  proof (cases "match_terms terms (last_segment path) mode cs 0 []")
    case None
    then have "fr_results f = sort_key (\<lambda>r. - sr_score r) rs"
      using assms l by (auto simp: searchFile_def Let_def split: if_splits)
    then show ?thesis using rs by simp
  next
    case (Some p)
    obtain sc idx where p: "p = (sc, idx)" by fastforce
    let ?r = "\<lparr>sr_path = path, context_preview = last_segment path, sr_kind = Name_result, sr_line = None,
      sr_score = sc, sr_highlights = toHighlightRanges idx\<rparr>"
    have "marks terms cs ?r"
      using match_terms_spec(2) [OF Some [unfolded p]] by (simp add: marks_def covered_highlights)
    moreover have "fr_results f = ?r # sort_key (\<lambda>r. - sr_score r) rs"
      using assms l Some p by (auto simp: searchFile_def Let_def)
    ultimately show ?thesis using rs by simp
  qed
qed

text \<open>A line is surrounded by line feeds, so what matches a line matches the text it is part of.\<close>

lemma split_on_around:
  assumes "l \<in> set (split_on c s)"
  obtains pre post where "s = pre @ l @ post" "pre = [] \<or> List.last pre = c" "post = [] \<or> hd post = c"
proof -
  obtain k where "k < length (split_on c s)" "split_on c s ! k = l" using assms by (auto simp: in_set_conv_nth)
  with join_with_parts [of k "split_on c s" c] that show ?thesis by auto
qed

lemma word_at_around:
  assumes "word_at l needle i" "pre = [] \<or> \<not> isWordChar (List.last pre)" "post = [] \<or> \<not> isWordChar (hd post)"
  shows "word_at (pre @ l @ post) needle (length pre + i)"
proof -
  let ?hay = "pre @ l @ post" and ?j = "length pre + i"
  have at: "prefix needle (drop i l)" "i + length needle \<le> length l" "0 < i \<longrightarrow> \<not> isWordChar (l ! (i - 1))"
    "i + length needle < length l \<longrightarrow> \<not> isWordChar (l ! (i + length needle))"
    using assms(1) by (simp_all add: word_at_def)
  have "drop ?j ?hay = drop i l @ post" using at(2) by simp
  then have pre: "prefix needle (drop ?j ?hay)" using at(1) by (simp add: prefix_prefix)
  have before: "\<not> isWordChar (?hay ! (?j - 1))" if "0 < ?j"
  proof (cases i)
    case 0
    then have "pre \<noteq> []" using that by auto
    then show ?thesis using 0 assms(2) by (simp add: nth_append last_conv_nth)
  next
    case (Suc k)
    then show ?thesis using at(2,3) by (cases "k < length l") (simp_all add: nth_append)
  qed
  have after: "\<not> isWordChar (?hay ! (?j + length needle))" if "?j + length needle < length ?hay"
  proof (cases "i + length needle < length l")
    case True
    then show ?thesis using at(4) by (simp add: nth_append add.assoc)
  next
    case False
    then have "?j + length needle = length pre + length l" "post \<noteq> []" using at(2) that by auto
    then show ?thesis using assms(3) by (simp add: nth_append hd_conv_nth)
  qed
  show ?thesis using pre before after at(2) by (simp add: word_at_def)
qed

lemma newline_folds: "\<not> isWordChar CHR 0x0A" "fold_case cs [CHR 0x0A] = [CHR 0x0A]"
  by (simp_all add: isWordChar_def fold_case_def lower_def lower_char_def)

lemma fold_case_last: "pre \<noteq> [] \<Longrightarrow> List.last pre = CHR 0x0A \<Longrightarrow> List.last (fold_case cs pre) = CHR 0x0A"
  by (auto simp: fold_case_def lower_def last_map lower_char_def)

lemma fold_case_hd: "post \<noteq> [] \<Longrightarrow> hd post = CHR 0x0A \<Longrightarrow> hd (fold_case cs post) = CHR 0x0A"
  by (auto simp: fold_case_def lower_def hd_map lower_char_def)

lemma matchTerm_line:
  assumes "l \<in> set (split_on CHR 0x0A content)" "matchTerm t l mode cs \<noteq> None"
  shows "matchTerm t content mode cs \<noteq> None"
proof -
  obtain pre post where s: "content = pre @ l @ post" "pre = [] \<or> List.last pre = CHR 0x0A" "post = [] \<or> hd post = CHR 0x0A"
    using assms(1) by (rule split_on_around)
  let ?n = "fold_case cs t" and ?l = "fold_case cs l" and ?pre = "fold_case cs pre" and ?post = "fold_case cs post"
  note law = matchTerm_law [of cs _ t mode, unfolded Let_def, THEN conjunct1]
  have hay: "fold_case cs content = ?pre @ ?l @ ?post" by (simp add: s(1))
  have "case mode of Fuzzy_mode \<Rightarrow> subseq ?n ?l | Exact_mode \<Rightarrow> sublist ?n ?l | Word_mode \<Rightarrow> ?n = [] \<or> (\<exists>i. word_at ?l ?n i)"
    using assms(2) law [of l] by simp
  moreover have "\<exists>i. word_at (?pre @ ?l @ ?post) ?n i" if "word_at ?l ?n i" for i
  proof (rule exI, rule word_at_around [OF that])
    show "?pre = [] \<or> \<not> isWordChar (List.last ?pre)"
      using s(2) fold_case_last [of pre cs] newline_folds(1) by (cases "pre = []") (auto simp: fold_case_def lower_def)
    show "?post = [] \<or> \<not> isWordChar (hd ?post)"
      using s(3) fold_case_hd [of post cs] newline_folds(1) by (cases "post = []") (auto simp: fold_case_def lower_def)
  qed
  moreover have "sublist ?l (?pre @ ?l @ ?post)" by simp
  moreover note sublist_order.order.trans [of ?n ?l "?pre @ ?l @ ?post"]
    subseq_order.trans [of ?n ?l "?pre @ ?l @ ?post"] sublist_imp_subseq [of ?l "?pre @ ?l @ ?post"]
  ultimately have "case mode of Fuzzy_mode \<Rightarrow> subseq ?n (?pre @ ?l @ ?post) | Exact_mode \<Rightarrow> sublist ?n (?pre @ ?l @ ?post)
      | Word_mode \<Rightarrow> ?n = [] \<or> (\<exists>i. word_at (?pre @ ?l @ ?post) ?n i)"
    by (cases mode) auto
  then show ?thesis using law [of content] unfolding hay by simp
qed

section \<open>The scan ends\<close>

text \<open>What keeps the cache: each path once, and only paths the storage accepts.\<close>

definition cache_good :: "('s, 'd) searcher \<Rightarrow> bool" where
  "cache_good x \<longleftrightarrow> distinct (map fst (contentCache x)) \<and> (\<forall>p \<in> set (map fst (contentCache x)). path_ok p)"

definition scans :: "('s, 'd) app \<Rightarrow> bool res \<times> ('s, 'd) searcher \<Rightarrow> bool" where
  "scans w r \<longleftrightarrow> (\<exists>x'. r = (Inr True, x') \<and> se_app x' = w \<and> cache_good x')"

lemma scans_same [simp]: "scans w (Inr True, x) \<longleftrightarrow> se_app x = w \<and> cache_good x"
  by (auto simp: scans_def)

context storage_backend
begin

lemma cache_file_good:
  assumes "storage E = B" "inv (ap_store (se_app x))" "path_ok p" "cache_good x"
  obtains x' where "cache_file E p x = (Inr (), x')" "se_app x' = se_app x" "cache_good x'"
proof -
  obtain r where r: "readTextFile B p no_options (ap_store (se_app x)) = (r, ap_store (se_app x))"
    using readText_law [OF assms(2,3), of no_options] by blast
  show ?thesis
  proof (cases r)
    case (Inl e)
    then show ?thesis using r assms(1,4) by (intro that [of x]) (simp_all add: cache_file_def on_searched_def act_simps)
  next
    case (Inr c)
    let ?x = "x\<lparr>contentCache := AList.update p c (contentCache x)\<rparr>"
    have "cache_good ?x" using assms(3,4) by (auto simp: cache_good_def distinct_update dom_update)
    then show ?thesis using r Inr assms(1) by (intro that [of ?x]) (simp_all add: cache_file_def on_searched_def act_simps)
  qed
qed

lemma cache_entries_scans:
  assumes E: "storage E = B" and i: "inv (ap_store w)" and dir: "path_ok dir" and es: "listing_of (fs (ap_store w)) (norm_segs dir) es"
    and walk: "\<And>sub x. path_ok sub \<Longrightarrow> (\<exists>n. fs (ap_store w) (norm_segs dir @ [n]) = Some DirN \<and> prefix (norm_segs dir @ [n]) (norm_segs sub)) \<Longrightarrow>
        se_app x = w \<Longrightarrow> cache_good x \<Longrightarrow> scans w (walk sub x)"
  shows "set es' \<subseteq> set es \<Longrightarrow> se_app x = w \<Longrightarrow> cache_good x \<Longrightarrow> scans w (cache_entries E walk dir es' x)"
proof (induction es' arbitrary: x)
  case Nil
  then show ?case by (simp add: act_simps)
next
  case (Cons e es')
  let ?p = "single_slash (dir @ ''/'' @ de_name e)"
  let ?step = "if isDirectory e
         then if \<not> starts_with (de_name e) ''.'' then walk ?p
              else if de_name e = ''.tactile'' then walk (?p @ ''/daily'')
              else aret True
         else if ends_with (lower (de_name e)) MARKDOWN_EXTENSION
         then abind (alift (isInternalPath ?p)) (\<lambda>internal. if internal then aret True else athen (cache_file E ?p) (aret True))
         else aret True"
  have e: "e \<in> set es" using Cons.prems(1) by simp
  note c = entry_child [OF tree_ok [OF i] es e]
  note p = child_path [OF dir c(1)]
  have daily: "path_ok (?p @ ''/daily'')" "norm_segs (?p @ ''/daily'') = norm_segs ?p @ [''daily'']"
    using path_append_seg [OF p(1), of "''daily''"] by (simp_all add: seg_ok_def)
  have "scans w (?step x)"
  proof (cases "isDirectory e")
    case True
    then have d: "fs (ap_store w) (norm_segs dir @ [de_name e]) = Some DirN" using c(2) by simp
    have w1: "scans w (walk ?p x)" using walk [OF p(1) _ Cons.prems(2,3)] d unfolding p(2) by blast
    have w2: "scans w (walk (?p @ ''/daily'') x)" using walk [OF daily(1) _ Cons.prems(2,3)] d unfolding daily(2) p(2) by auto
    show ?thesis using True w1 w2 Cons.prems(2,3) by (cases "de_name e = ''.tactile''") (simp_all add: act_simps)
  next
    case False
    obtain x' where x': "cache_file E ?p x = (Inr (), x')" "se_app x' = w" "cache_good x'"
      using cache_file_good [OF E _ p(1) Cons.prems(3)] i Cons.prems(2) by metis
    have "\<exists>b. isInternalPath ?p = Inr b" using p(1) by (simp add: isInternalPath_def pathSegments_eq)
    then obtain b where "isInternalPath ?p = Inr b" by blast
    then show ?thesis using False x' Cons.prems(2,3) by (cases b) (simp_all add: act_simps)
  qed
  then obtain x1 where x1: "?step x = (Inr True, x1)" "se_app x1 = w" "cache_good x1" unfolding scans_def by blast
  have "cache_entries E walk dir (e # es') x = cache_entries E walk dir es' x1"
    using x1(1) by (simp only: cache_entries.simps Let_def abind_apply prod.case sum.case if_True)
  then show ?case using Cons.IH [OF _ x1(2,3)] Cons.prems(1) by simp
qed

lemma cache_walk_scans:
  assumes E: "storage E = B" and i: "inv (ap_store w)"
  shows "path_ok dir \<Longrightarrow> 0 < fuel \<Longrightarrow>
    (\<And>q. fs (ap_store w) q = Some DirN \<Longrightarrow> prefix (norm_segs dir) q \<Longrightarrow> length q < length (norm_segs dir) + fuel) \<Longrightarrow>
    se_app x = w \<Longrightarrow> cache_good x \<Longrightarrow> scans w (cache_walk E fuel dir x)"
proof (induction fuel arbitrary: dir x)
  case (Suc fuel)
  let ?t = "fs (ap_store w)" and ?ds = "norm_segs dir"
  obtain r where r: "readDir B dir no_options (ap_store w) = (r, ap_store w)"
    "\<forall>es. r = Inr es \<longrightarrow> list_error ?t ?ds = None \<and> listing_of ?t ?ds es"
    by (rule read_dir_result [OF i Suc.prems(1)], rule that; assumption)
  have list: "on_searched (on_files (readDir (storage E) dir no_options)) x = (r, x)"
    using r(1) E Suc.prems(4) by (auto simp: on_searched_def act_simps)
  show ?case
  proof (cases r)
    case (Inl e)
    then show ?thesis using list Suc.prems(4,5) by (simp add: act_simps)
  next
    case (Inr es)
    have es: "listing_of ?t ?ds es" using r(2) Inr by simp
    have walk: "scans w (cache_walk E fuel sub x)"
      if sub: "path_ok sub" "\<exists>n. ?t (?ds @ [n]) = Some DirN \<and> prefix (?ds @ [n]) (norm_segs sub)" and x: "se_app x = w" "cache_good x" for sub x
    proof -
      obtain n where n: "?t (?ds @ [n]) = Some DirN" "prefix (?ds @ [n]) (norm_segs sub)" using sub(2) by blast
      note next_level = deeper_fuel [of ?t ?ds n "norm_segs sub" fuel, OF n Suc.prems(3)]
      show ?thesis by (rule Suc.IH [OF sub(1) next_level x])
    qed
    have "scans w (cache_entries E (cache_walk E fuel) dir es x)"
      by (rule cache_entries_scans [OF E i Suc.prems(1) es walk subset_refl Suc.prems(4,5)])
    then show ?thesis using list Inr by (simp add: act_simps)
  qed
qed simp

end

section \<open>The results\<close>

lemma search_contents_total:
  assumes "path_ok c" "\<forall>p \<in> set (map fst contents). path_ok p"
  obtains visible where "set visible \<subseteq> set contents" "distinct (map fst contents) \<longrightarrow> distinct (map fst visible)"
    "search_contents c contents terms mode cs = Inr (take MAX_RESULTS (concat (map fr_results
       (sort_key (\<lambda>f. - fr_score f) (List.map_filter (\<lambda>(path, content). searchFile path content terms mode cs) visible)))))"
proof -
  let ?q = "\<lambda>(path, content). prefix (norm_segs c) (norm_segs path) \<and> isInternalPath path = Inr False"
  have "(case e of (path, content) \<Rightarrow> res_bind (isUnder path c) (\<lambda>under.
      if \<not> under then Inr False else res_bind (isInternalPath path) (\<lambda>internal. Inr (\<not> internal)))) = Inr (?q e)"
    if "e \<in> set contents" for e
  proof -
    obtain path content where e: "e = (path, content)" by fastforce
    have ok: "path_ok path" using assms(2) that e by force
    then obtain b where "isInternalPath path = Inr b" by (auto simp: isInternalPath_def pathSegments_eq)
    then show ?thesis using isUnder_eq [OF ok assms(1)] e by simp
  qed
  from filter_res_total [of contents _ ?q, OF this]
  have "search_contents c contents terms mode cs = Inr (take MAX_RESULTS (concat (map fr_results
       (sort_key (\<lambda>f. - fr_score f) (List.map_filter (\<lambda>(path, content). searchFile path content terms mode cs) (filter ?q contents))))))"
    by (simp add: search_contents_def Let_def)
  then show ?thesis by (rule that [rotated 2]) (auto simp: distinct_map_filter)
qed

lemma sum_list_sort_key: "sum_list (map g (sort_key k xs)) = sum_list (map g xs)" for g :: "'a \<Rightarrow> nat"
  by (metis mset_map mset_sort sum_mset_sum_list)

lemma results_per_path:
  "distinct (map fst visible) \<Longrightarrow>
   sum_list (map (\<lambda>f. length (filter (\<lambda>r. sr_path r = p) (fr_results f)))
       (List.map_filter (\<lambda>(path, content). searchFile path content terms mode cs) visible))
     \<le> (if p \<in> fst ` set visible then MAX_MATCHES_PER_FILE + 1 else 0)"
proof (induction visible)
  case (Cons e visible)
  obtain path content where e: "e = (path, content)" by fastforce
  have IH: "sum_list (map (\<lambda>f. length (filter (\<lambda>r. sr_path r = p) (fr_results f)))
       (List.map_filter (\<lambda>(path, content). searchFile path content terms mode cs) visible))
     \<le> (if p \<in> fst ` set visible then MAX_MATCHES_PER_FILE + 1 else 0)" using Cons by simp
  show ?case
  proof (cases "searchFile path content terms mode cs")
    case None
    then have "List.map_filter (\<lambda>(path, content). searchFile path content terms mode cs) (e # visible)
        = List.map_filter (\<lambda>(path, content). searchFile path content terms mode cs) visible" by (simp add: e List.map_filter_simps)
    then show ?thesis by (simp only:) (rule order.trans [OF IH], simp)
  next
    case (Some f)
    note f = searchFile_results [OF Some]
    have "length (filter (\<lambda>r. sr_path r = p) (fr_results f)) \<le> (if path = p then MAX_MATCHES_PER_FILE + 1 else 0)"
      using f le_trans [OF length_filter_le conjunct2 [OF f]] by (auto simp: filter_empty_conv)
    moreover have "path \<notin> fst ` set visible" using Cons.prems e by simp
    moreover define g where "g = sum_list (map (\<lambda>f. length (filter (\<lambda>r. sr_path r = p) (fr_results f)))
       (List.map_filter (\<lambda>(path, content). searchFile path content terms mode cs) visible))"
    moreover have "sum_list (map (\<lambda>f. length (filter (\<lambda>r. sr_path r = p) (fr_results f)))
       (List.map_filter (\<lambda>(path, content). searchFile path content terms mode cs) (e # visible)))
      = length (filter (\<lambda>r. sr_path r = p) (fr_results f)) + g" by (simp add: g_def e Some List.map_filter_simps)
    ultimately show ?thesis using IH unfolding g_def [symmetric] by (auto simp: e split: if_splits)
  qed
qed (simp add: List.map_filter_simps)

lemma search_contents_bounds:
  assumes "path_ok c" "\<forall>p \<in> set (map fst contents). path_ok p" "distinct (map fst contents)"
  shows "\<exists>rs. search_contents c contents terms mode cs = Inr rs \<and> length rs \<le> MAX_RESULTS
    \<and> (\<forall>p. length (filter (\<lambda>r. sr_path r = p) rs) \<le> MAX_MATCHES_PER_FILE + 1)
    \<and> (\<forall>r \<in> set rs. marks terms cs r \<and> sr_path r \<in> set (map fst contents))"
proof -
  obtain visible where v: "set visible \<subseteq> set contents" "distinct (map fst contents) \<longrightarrow> distinct (map fst visible)"
    "search_contents c contents terms mode cs = Inr (take MAX_RESULTS (concat (map fr_results
       (sort_key (\<lambda>f. - fr_score f) (List.map_filter (\<lambda>(path, content). searchFile path content terms mode cs) visible)))))"
    by (rule search_contents_total [OF assms(1,2)])
  define perFile where "perFile = List.map_filter (\<lambda>(path, content). searchFile path content terms mode cs) visible"
  let ?all = "concat (map fr_results (sort_key (\<lambda>f. - fr_score f) perFile))"
  have "length (filter (\<lambda>r. sr_path r = p) ?all) \<le> MAX_MATCHES_PER_FILE + 1" for p
  proof -
    have "length (filter (\<lambda>r. sr_path r = p) ?all) = sum_list (map (\<lambda>f. length (filter (\<lambda>r. sr_path r = p) (fr_results f))) perFile)"
      by (simp add: filter_concat length_concat comp_def sum_list_sort_key)
    also have "\<dots> \<le> MAX_MATCHES_PER_FILE + 1"
      unfolding perFile_def by (rule order.trans [OF results_per_path]) (use v(2) assms(3) in simp_all)
    finally show ?thesis .
  qed
  moreover have "length (filter P (take n xs)) \<le> length (filter P xs)" for P n and xs :: "search_result list"
    by (metis append_take_drop_id filter_append length_append le_add1)
  ultimately have per: "length (filter (\<lambda>r. sr_path r = p) (take MAX_RESULTS ?all)) \<le> MAX_MATCHES_PER_FILE + 1" for p
    using le_trans by blast
  have "marks terms cs r \<and> sr_path r \<in> set (map fst contents)" if "r \<in> set (take MAX_RESULTS ?all)" for r
  proof -
    have "r \<in> set ?all" using that by (rule in_set_takeD)
    then obtain f where f: "f \<in> set perFile" "r \<in> set (fr_results f)" by auto
    then obtain path content where p: "(path, content) \<in> set visible" "searchFile path content terms mode cs = Some f"
      by (auto simp: perFile_def List.map_filter_def)
    then have "path \<in> set (map fst contents)" using v(1) by force
    then show ?thesis using searchFile_results [OF p(2)] f(2) by auto
  qed
  then show ?thesis using per v(3) by (intro exI [of _ "take MAX_RESULTS ?all"]) (simp add: perFile_def)
qed

context storage_backend
begin

lemma ensureCache_scans:
  assumes "storage E = B" "inv (ap_store (se_app x))" "path_ok c" "cache_good x"
    and "\<And>q. fs (ap_store (se_app x)) q = Some DirN \<Longrightarrow> length q < fuel"
  shows "scans (se_app x) (ensureCache E fuel c x)"
proof -
  let ?x = "if cacheCollection x \<noteq> Some c then x\<lparr>contentCache := [], cacheCollection := Some c, cacheSubscribed := True\<rparr>
    else x\<lparr>cacheSubscribed := True\<rparr>"
  have x: "cache_good ?x" "se_app ?x = se_app x" using assms(4) by (simp_all add: cache_good_def)
  have "0 < fuel" using assms(5) [of "[]"] tree_okD(2) [OF tree_ok [OF assms(2)]] by simp
  from cache_walk_scans [OF assms(1,2,3) this _ x(2,1)] assms(5)
  have "scans (se_app x) (cache_walk E fuel c ?x)" by fastforce
  then show ?thesis using x by (simp add: ensureCache_def act_simps)
qed

lemma search_entries_bounds:
  assumes "storage E = B" "inv (ap_store (se_app x))" "path_ok c" "cache_good x"
    and "\<And>q. fs (ap_store (se_app x)) q = Some DirN \<Longrightarrow> length q < fuel"
  shows "\<exists>rs x'. searchEntries E fuel c query mode cs x = (Inr (Some rs), x') \<and> length rs \<le> MAX_RESULTS
    \<and> (\<forall>p. length (filter (\<lambda>r. sr_path r = p) rs) \<le> MAX_MATCHES_PER_FILE + 1)
    \<and> (\<forall>r \<in> set rs. marks (words_of (trim query)) cs r)"
proof (cases "words_of (trim query) = []")
  case True
  then show ?thesis by (intro exI [of _ "[]"] exI [of _ x]) (simp add: searchEntries_def act_simps)
next
  case False
  obtain x' where x': "ensureCache E fuel c x = (Inr True, x')" "cache_good x'"
    using ensureCache_scans [OF assms] unfolding scans_def by blast
  obtain rs where rs: "search_contents c (contentCache x') (words_of (trim query)) mode cs = Inr rs" "length rs \<le> MAX_RESULTS"
    "\<forall>p. length (filter (\<lambda>r. sr_path r = p) rs) \<le> MAX_MATCHES_PER_FILE + 1" "\<forall>r \<in> set rs. marks (words_of (trim query)) cs r"
    using search_contents_bounds [OF assms(3), of "contentCache x'" "words_of (trim query)" mode cs] x'(2)
    by (auto simp: cache_good_def)
  have "searchEntries E fuel c query mode cs x = (Inr (Some rs), x')"
    using False x'(1) rs(1) by (simp add: searchEntries_def act_simps Let_def)
  then show ?thesis using rs(2-4) by blast
qed

end

text \<open>
  (C23) A search returns and is bounded: with more fuel than the folders are deep it gives at most 400 results
  and at most 13 of one file, and the highlights of every result lie inside its preview and contain, for
  every word of the query, an occurrence of that word.
\<close>

theorem search_entries_bounded:
  assumes "storage E = idb_backend" and "idb_inv (ap_store (se_app x))" and "path_ok c" and "cache_good x"
    and "\<And>q. idb_fs (ap_store (se_app x)) q = Some DirN \<Longrightarrow> length q < fuel"
  shows "\<exists>rs x'. searchEntries E fuel c query mode cs x = (Inr (Some rs), x') \<and> length rs \<le> 400
    \<and> (\<forall>p. length (filter (\<lambda>r. sr_path r = p) rs) \<le> 13)
    \<and> (\<forall>r \<in> set rs. (\<forall>i \<in> covered (sr_highlights r). i < length (context_preview r))
        \<and> (\<forall>t \<in> set (words_of (trim query)). \<exists>is. set is \<subseteq> covered (sr_highlights r)
              \<and> picks (fold_case cs (context_preview r)) is (fold_case cs t)))"
  using idb.search_entries_bounds [OF assms, of query mode cs]
  by (simp add: MAX_RESULTS_def MAX_MATCHES_PER_FILE_def marks_def)

text \<open>
  (C24) A file is found exactly when its name matches every term or one of its lines that is not blank does:
  terms that match on different lines, or partly in the name and partly in the text, do not find it.
\<close>

theorem search_file_found:
  "(searchFile path content terms mode cs \<noteq> None) =
     ((\<forall>t \<in> set terms. matchTerm t (last_segment path) mode cs \<noteq> None)
      \<or> (\<exists>l \<in> set (split_on CHR 0x0A content). trim l \<noteq> [] \<and> (\<forall>t \<in> set terms. matchTerm t l mode cs \<noteq> None)))"
proof -
  let ?lines = "split_on CHR 0x0A content"
  obtain rs b where l: "line_loop path ?lines terms mode cs 0 ?lines [] 0 = (rs, b)" by fastforce
  have rs: "rs = [] \<longleftrightarrow> \<not> (\<exists>l \<in> set ?lines. line_matches terms mode cs l)" using line_loop_spec [OF _ _ _ l] by simp
  have content: "\<forall>t \<in> set terms. matchTerm t content mode cs \<noteq> None" if "rs \<noteq> []"
  proof -
    obtain l where "l \<in> set ?lines" "line_matches terms mode cs l" using rs \<open>rs \<noteq> []\<close> by blast
    then show ?thesis using matchTerm_line [of l content] by (auto simp: line_matches_def)
  qed
  have name: "match_terms terms (last_segment path) mode cs 0 [] = None \<longleftrightarrow> \<not> (\<forall>t \<in> set terms. matchTerm t (last_segment path) mode cs \<noteq> None)"
    by (auto simp: match_terms_spec(1))
  have eq: "searchFile path content terms mode cs = None \<longleftrightarrow> match_terms terms (last_segment path) mode cs 0 [] = None \<and> rs = []"
    using content l by (cases "rs = []") (auto simp: searchFile_def Let_def list_ex_iff)
  show ?thesis unfolding eq name rs line_matches_def by (simp only: de_Morgan_conj not_not)
qed

theorem search_entries_bounded_witness:
  "\<exists>rs x'. searchEntries note_env 1 ''/'' ''a'' Fuzzy_mode False \<lparr>se_app = note_app None, contentCache = [(''/a.md'', ''x'')], cacheCollection = Some ''/'', cacheSubscribed = True\<rparr>
      = (Inr (Some rs), x') \<and> length rs \<le> 400"
proof -
  let ?x = "\<lparr>se_app = note_app None, contentCache = [(''/a.md'', ''x'')], cacheCollection = Some ''/'', cacheSubscribed = True\<rparr>"
  have "cache_good ?x" by (simp add: cache_good_def link_paths)
  moreover have "length q < 1" if "idb_fs note_store q = Some DirN" for q
    using that by (auto simp: note_store_holds empty_tree_def split: if_splits)
  ultimately obtain rs x' where "searchEntries note_env 1 ''/'' ''a'' Fuzzy_mode False ?x = (Inr (Some rs), x')" "length rs \<le> 400"
    using search_entries_bounded [of note_env ?x "''/''" 1 "''a''" Fuzzy_mode False] by (auto simp: note_store_holds(1) note_paths)
  then show ?thesis by blast
qed

theorem search_file_found_witness:
  "searchFile ''/n.md'' [CHR ''a'', CHR 0x0A, CHR ''b''] [''a'', ''b''] Exact_mode True = None"
proof -
  have "matchTerm ''a'' ''n.md'' Exact_mode True = None" "matchTerm ''a'' ''b'' Exact_mode True = None" "matchTerm ''b'' ''a'' Exact_mode True = None"
    by (simp_all add: matchTerm_def exactMatch_def fold_case_def sub_index_from_def Let_def)
  then show ?thesis
    using search_file_found [of "''/n.md''" "[CHR ''a'', CHR 0x0A, CHR ''b'']" "[''a'', ''b'']" Exact_mode True]
    by (simp add: last_segment_def)
qed

end
