(* ===== verification/Spec2Isabelle.thy ===== *)
theory Spec2Isabelle
  imports Prelude Paths Diff Storage_Types Backend_Spec IdbFs Opfs Versioned Locks Events Json Store_Format Encoding Zip Fuzzy Dates Relay Identity Sync Sync_Props Sync_Run App Notes Notes_Props Search_Replace Links Attachments Export Search
begin

text \<open>
  A verification development for Tactile's TypeScript core.
\<close>

end
